(* ===== verification/Aprot_Prelude.thy ===== *)
theory Aprot_Prelude
  imports Main "HOL-Library.AList" "HOL-Library.Word"
begin

text \<open>
  Shared vocabulary of the development.

  \<^item> Go maps are association lists with distinct keys (\<open>gomap\<close>): lookup is \<^const>\<open>map_of\<close>,
    assignment is \<^const>\<open>AList.update\<close>, \<open>delete\<close> is \<^const>\<open>AList.delete\<close> and \<open>len\<close> is
    \<^const>\<open>length\<close>. Go leaves the iteration order of a map unspecified; the list order is one
    such order, and no property of the development depends on it.
  \<^item> A map whose values are sets, \<open>map[K]map[*T]struct{}\<close>, with the two idioms the program uses on
    it: insert, creating the inner set on demand, and delete, dropping the inner set once it is
    empty (\<open>goindex\<close>). Its contract is the locale \<open>multi_index\<close>.
  \<^item> The locale \<open>trans_sys\<close> lifts a one-step invariant to every reachable state.
  \<^item> Decimal printing of natural numbers, as \<open>strconv.FormatUint\<close>, \<open>strconv.Itoa\<close> and the
    \<open>%d\<close> verb of \<open>fmt\<close> do it, with its parser.
  \<^item> Contexts: a \<open>context.CancelCauseFunc\<close> is an address in a store of cancellation causes.
\<close>

named_theorems go_simps \<open>rewrite rules of the Go library functions the model uses\<close>
named_theorems frame_simps \<open>fields an operation leaves unchanged\<close>

type_synonym u64 = "64 word"
type_synonym i64 = "64 word"
type_synonym conn_ptr = u64
type_synonym sub_ptr = nat
type_synonym ctx_ptr = nat

section \<open>Go maps\<close>

type_synonym ('k, 'v) gomap = "('k \<times> 'v) list"
type_synonym ('k, 'a) goindex = "('k, 'a list) gomap"

definition gm_wf :: "('k, 'v) gomap \<Rightarrow> bool" where
  "gm_wf m \<longleftrightarrow> distinct (map fst m)"

lemma gm_wf_Nil [simp, intro!]: "gm_wf []"
  by (simp add: gm_wf_def)

lemma gm_wf_update [simp, intro]: "gm_wf m \<Longrightarrow> gm_wf (AList.update k v m)"
  by (simp add: gm_wf_def distinct_update)

lemma gm_wf_delete [simp, intro]: "gm_wf m \<Longrightarrow> gm_wf (AList.delete k m)"
  by (simp add: gm_wf_def distinct_delete)

lemma map_of_update [simp]: "map_of (AList.update k v m) = (map_of m)(k \<mapsto> v)"
  by (rule update_conv')

lemma map_of_delete [simp]: "map_of (AList.delete k m) = (map_of m)(k := None)"
  by (rule delete_conv')

lemma gm_mem_iff: "gm_wf m \<Longrightarrow> (k, v) \<in> set m \<longleftrightarrow> map_of m k = Some v"
  by (simp add: gm_wf_def)

lemma gm_empty_iff: "m = [] \<longleftrightarrow> map_of m = Map.empty"
  by (cases m) (auto simp: fun_eq_iff split: if_splits)

lemma gm_length_update:
  "gm_wf m \<Longrightarrow> length (AList.update k v m) = (if map_of m k = None then Suc (length m) else length m)"
  by (induction m) (auto simp: gm_wf_def map_of_eq_None_iff image_iff split: if_splits)

lemma gm_length_delete_le: "length (AList.delete k m) \<le> length m"
  by (simp add: AList.delete_eq)

lemma gm_length_delete_less: "map_of m k = Some v \<Longrightarrow> length (AList.delete k m) < length m"
  by (induction m) (auto simp: AList.delete_eq less_Suc_eq_le split: if_splits)

section \<open>Maps of sets\<close>

definition idx_members :: "('k, 'a) goindex \<Rightarrow> 'k \<Rightarrow> 'a list" where
  "idx_members ix k = (case map_of ix k of None \<Rightarrow> [] | Some xs \<Rightarrow> xs)"

definition idx_add :: "'k \<Rightarrow> 'a \<Rightarrow> ('k, 'a) goindex \<Rightarrow> ('k, 'a) goindex" where
  "idx_add k x ix = AList.update k (List.insert x (idx_members ix k)) ix"

definition idx_remove :: "'k \<Rightarrow> 'a \<Rightarrow> ('k, 'a) goindex \<Rightarrow> ('k, 'a) goindex" where
  "idx_remove k x ix =
     (case map_of ix k of
        None \<Rightarrow> ix
      | Some xs \<Rightarrow>
          (let ys = removeAll x xs
           in if ys = [] then AList.delete k ix else AList.update k ys ix))"

definition idx_wf :: "('k, 'a) goindex \<Rightarrow> bool" where
  "idx_wf ix \<longleftrightarrow> gm_wf ix \<and> (\<forall>k xs. map_of ix k = Some xs \<longrightarrow> xs \<noteq> [] \<and> distinct xs)"

text \<open>
  What users of such an index rely on: membership after an insertion and after a deletion, and
  that the well-formedness of the index (no empty bucket, no duplicate) is kept.
\<close>

locale multi_index =
  fixes empty :: "'ix"
    and add :: "'k \<Rightarrow> 'a \<Rightarrow> 'ix \<Rightarrow> 'ix"
    and remove :: "'k \<Rightarrow> 'a \<Rightarrow> 'ix \<Rightarrow> 'ix"
    and mem :: "'ix \<Rightarrow> 'k \<Rightarrow> 'a set"
    and wf :: "'ix \<Rightarrow> bool"
  assumes wf_empty: "wf empty"
    and wf_add: "wf ix \<Longrightarrow> wf (add k x ix)"
    and wf_remove: "wf ix \<Longrightarrow> wf (remove k x ix)"
    and mem_empty: "mem empty k = {}"
    and mem_add: "mem (add k x ix) k' = (if k' = k then insert x (mem ix k') else mem ix k')"
    and mem_remove: "mem (remove k x ix) k' = (if k' = k then mem ix k' - {x} else mem ix k')"
begin

lemma wf_add_all: "wf ix \<Longrightarrow> wf (fold (\<lambda>k. add k x) ks ix)"
  by (induction ks arbitrary: ix) (auto simp: wf_add)

lemma wf_remove_all: "wf ix \<Longrightarrow> wf (fold (\<lambda>k. remove k x) ks ix)"
  by (induction ks arbitrary: ix) (auto simp: wf_remove)

lemma mem_add_all:
  "mem (fold (\<lambda>k. add k x) ks ix) k' = (if k' \<in> set ks then insert x (mem ix k') else mem ix k')"
  by (induction ks arbitrary: ix) (auto simp: mem_add)

lemma mem_remove_all:
  "mem (fold (\<lambda>k. remove k x) ks ix) k' = (if k' \<in> set ks then mem ix k' - {x} else mem ix k')"
  by (induction ks arbitrary: ix) (auto simp: mem_remove)

end

lemma idx_wf_Nil [simp]: "idx_wf []"
  by (simp add: idx_wf_def)

lemma idx_members_Nil [simp]: "idx_members [] k = []"
  by (simp add: idx_members_def)

lemma idx_members_add_list:
  "idx_members (idx_add k x ix) k' =
     (if k' = k then List.insert x (idx_members ix k') else idx_members ix k')"
  by (simp add: idx_members_def idx_add_def)

lemma idx_members_remove_list:
  "idx_members (idx_remove k x ix) k' =
     (if k' = k then removeAll x (idx_members ix k') else idx_members ix k')"
  by (cases "map_of ix k") (simp_all add: idx_members_def idx_remove_def Let_def)

lemma idx_members_add:
  "set (idx_members (idx_add k x ix) k') =
     (if k' = k then insert x (set (idx_members ix k')) else set (idx_members ix k'))"
  by (simp add: idx_members_add_list)

lemma idx_members_remove:
  "set (idx_members (idx_remove k x ix) k') =
     (if k' = k then set (idx_members ix k') - {x} else set (idx_members ix k'))"
  by (simp add: idx_members_remove_list)

lemma idx_wf_add: "idx_wf ix \<Longrightarrow> idx_wf (idx_add k x ix)"
  by (cases "map_of ix k") (auto simp: idx_wf_def idx_add_def idx_members_def List.insert_def)

lemma idx_wf_remove: "idx_wf ix \<Longrightarrow> idx_wf (idx_remove k x ix)"
  by (cases "map_of ix k") (auto simp: idx_wf_def idx_remove_def Let_def distinct_removeAll)

interpretation goidx: multi_index "[]" idx_add idx_remove "\<lambda>ix k. set (idx_members ix k)" idx_wf
  by unfold_locales
    (simp_all add: idx_wf_add idx_wf_remove idx_members_add idx_members_remove)

lemma idx_wf_bucket: "idx_wf ix \<Longrightarrow> map_of ix k = None \<longleftrightarrow> set (idx_members ix k) = {}"
  by (cases "map_of ix k") (auto simp: idx_wf_def idx_members_def)

lemma idx_members_distinct: "idx_wf ix \<Longrightarrow> distinct (idx_members ix k)"
  by (auto simp: idx_wf_def idx_members_def split: option.splits)

section \<open>Reachable states\<close>

locale trans_sys =
  fixes init :: "'s \<Rightarrow> bool"
    and step :: "'s \<Rightarrow> 's \<Rightarrow> bool"
    and inv :: "'s \<Rightarrow> bool"
  assumes inv_init: "init s \<Longrightarrow> inv s"
    and inv_step: "step s t \<Longrightarrow> inv s \<Longrightarrow> inv t"
begin

lemma inv_from: "step\<^sup>*\<^sup>* s t \<Longrightarrow> inv s \<Longrightarrow> inv t"
  by (induction rule: rtranclp_induct) (auto intro: inv_step)

lemma inv_reachable: "init s \<Longrightarrow> step\<^sup>*\<^sup>* s t \<Longrightarrow> inv t"
  by (auto intro: inv_from inv_init)

end

section \<open>Strings\<close>

fun join :: "string \<Rightarrow> string list \<Rightarrow> string" where
  "join sep [] = []"
| "join sep [x] = x"
| "join sep (x # y # xs) = x @ sep @ join sep (y # xs)"

lemma join_split:
  "c \<notin> set x \<Longrightarrow> c \<notin> set x' \<Longrightarrow> x @ c # r = x' @ c # r' \<longleftrightarrow> x = x' \<and> r = r'"
  by (auto simp: append_eq_append_conv2 append_eq_Cons_conv Cons_eq_append_conv)

lemma join_inject:
  "xs \<noteq> [] \<Longrightarrow> ys \<noteq> [] \<Longrightarrow> c \<notin> set (concat xs) \<Longrightarrow> c \<notin> set (concat ys) \<Longrightarrow>
     join [c] xs = join [c] ys \<longleftrightarrow> xs = ys"
proof (induction "[c]" xs arbitrary: ys rule: join.induct)
  case (2 x)
  then show ?case
  proof (cases ys rule: remdups_adj.cases)
    case (3 y z zs)
    have "c \<in> set (join [c] ys)" using 3 by simp
    with 2 3 show ?thesis by auto
  qed auto
next
  case (3 x x' xs)
  show ?case
  proof (cases ys rule: remdups_adj.cases)
    case (2 y)
    have "c \<in> set (join [c] (x # x' # xs))" by simp
    with 2 3 show ?thesis by auto
  next
    case (3 y z zs)
    with "3.hyps" "3.prems" show ?thesis
      using join_split [of c x y "join [c] (x' # xs)" "join [c] (z # zs)"] by auto
  qed (use "3.prems" in simp)
qed simp

definition digit_char :: "nat \<Rightarrow> char" where
  "digit_char d = char_of (48 + d)"

definition char_digit :: "char \<Rightarrow> nat option" where
  "char_digit c =
     (let n = (of_char c :: nat) in if 48 \<le> n \<and> n \<le> 57 then Some (n - 48) else None)"

fun nat_str :: "nat \<Rightarrow> string" where
  "nat_str n = (if n < 10 then [digit_char n] else nat_str (n div 10) @ [digit_char (n mod 10)])"

declare nat_str.simps [simp del]

fun parse_digits :: "nat \<Rightarrow> string \<Rightarrow> nat option" where
  "parse_digits acc [] = Some acc"
| "parse_digits acc (c # cs) =
     (case char_digit c of None \<Rightarrow> None | Some d \<Rightarrow> parse_digits (10 * acc + d) cs)"

definition parse_nat :: "string \<Rightarrow> nat option" where
  "parse_nat s = (if s = [] then None else parse_digits 0 s)"

lemma char_digit_digit_char [simp]: "d < 10 \<Longrightarrow> char_digit (digit_char d) = Some d"
  by (simp add: char_digit_def digit_char_def of_char_of)

lemma parse_digits_append:
  "parse_digits a (xs @ ys) =
     (case parse_digits a xs of None \<Rightarrow> None | Some b \<Rightarrow> parse_digits b ys)"
  by (induction a xs rule: parse_digits.induct) (auto split: option.splits)

lemma parse_digits_nat_str: "parse_digits 0 (nat_str n) = Some n"
proof (induction n rule: nat_str.induct)
  case (1 n)
  show ?case
  proof (cases "n < 10")
    case True
    then show ?thesis by (simp add: nat_str.simps [of n])
  next
    case False
    with "1.IH" have "parse_digits 0 (nat_str (n div 10)) = Some (n div 10)" by simp
    with False show ?thesis
      by (simp add: nat_str.simps [of n] parse_digits_append)
  qed
qed

lemma nat_str_nonempty [simp]: "nat_str n \<noteq> []"
  by (subst nat_str.simps) simp

lemma parse_nat_str [simp]: "parse_nat (nat_str n) = Some n"
  by (simp add: parse_nat_def parse_digits_nat_str)

lemma nat_str_inject [simp]: "nat_str m = nat_str n \<longleftrightarrow> m = n"
  by (metis option.inject parse_nat_str)

lemma nat_str_digits: "c \<in> set (nat_str n) \<Longrightarrow> \<exists>d<10. c = digit_char d"
proof (induction n rule: nat_str.induct)
  case (1 n)
  then show ?case
    by (cases "n < 10") (auto simp: nat_str.simps [of n] intro: exI [of _ "n mod 10"])
qed

text \<open>\<open>strconv.Itoa\<close> / \<open>FormatInt(n, 10)\<close> on a signed integer.\<close>

definition int_str :: "int \<Rightarrow> string" where
  "int_str i = (if i < 0 then ''-'' @ nat_str (nat (- i)) else nat_str (nat i))"

section \<open>Signed 64-bit arithmetic\<close>

lemma sint_of_range:
  "- (2 ^ 63) \<le> k \<Longrightarrow> k < 2 ^ 63 \<Longrightarrow> sint (word_of_int k :: 64 word) = k"
  by (simp add: sint_sbintrunc' signed_take_bit_int_eq_self)

lemma sint_double:
  assumes "0 < sint (x :: 64 word)" "sint x < 2 ^ 62"
  shows "sint (2 * x) = 2 * sint x"
proof -
  have "word_of_int (2 * sint x) = 2 * x" by simp
  with sint_of_range [of "2 * sint x"] assms show ?thesis by simp
qed

section \<open>Cancellation contexts\<close>

text \<open>
  \<open>context.WithCancelCause(context.Background())\<close> allocates a context; its cancel function
  records the first cause it is given and later calls have no effect. \<open>cancel(nil)\<close> records
  \<open>context.Canceled\<close>.
\<close>

datatype cancel_cause =
    ErrClientCanceled
  | ErrConnectionClosed
  | ErrServerShutdown
  | CtxCanceled

type_synonym ctx_store = "ctx_ptr \<Rightarrow> cancel_cause option"

definition ctx_cancel :: "ctx_ptr \<Rightarrow> cancel_cause \<Rightarrow> ctx_store \<Rightarrow> ctx_store" where
  "ctx_cancel p cause cs = (case cs p of None \<Rightarrow> cs(p \<mapsto> cause) | Some _ \<Rightarrow> cs)"

definition ctx_canceled :: "ctx_store \<Rightarrow> ctx_ptr \<Rightarrow> bool" where
  "ctx_canceled cs p \<longleftrightarrow> cs p \<noteq> None"

lemma ctx_cancel_same [simp]: "ctx_canceled (ctx_cancel p cause cs) p"
  by (simp add: ctx_cancel_def ctx_canceled_def split: option.splits)

lemma ctx_cancel_mono: "ctx_canceled cs q \<Longrightarrow> ctx_canceled (ctx_cancel p cause cs) q"
  by (auto simp: ctx_cancel_def ctx_canceled_def split: option.splits)

lemma ctx_cancel_other [simp]: "q \<noteq> p \<Longrightarrow> ctx_cancel p cause cs q = cs q"
  by (simp add: ctx_cancel_def split: option.splits)

lemma ctx_cancel_first: "cs p = Some c \<Longrightarrow> ctx_cancel p cause cs p = Some c"
  by (simp add: ctx_cancel_def)

lemma ctx_cancel_live: "cs p = None \<Longrightarrow> ctx_cancel p cause cs p = Some cause"
  by (simp add: ctx_cancel_def)

lemma fold_ctx_cancel:
  "fold (\<lambda>p. ctx_cancel p cause) ps cs q =
     (if q \<in> set ps \<and> cs q = None then Some cause else cs q)"
  by (induction ps arbitrary: cs) (auto simp: ctx_cancel_def split: option.splits)

end
