(* ===== verification/Aprot_Protocol.thy ===== *)
theory Aprot_Protocol
  imports Aprot_Prelude
begin

text \<open>
  The wire protocol of a server connection: error values and codes (\<open>errors.go\<close>), the frames of
  \<open>protocol.go\<close>, and the functions of \<open>connection.go\<close> that put a result or an error into a frame.

  Results are values of a type \<open>'v\<close>. Encoding is \<open>encoding/json/v2\<close>: what it does with a value is a
  parameter (\<open>marshal_err\<close>, the error it reports, if any), while its treatment of strings is fixed:
  a string that is not valid UTF-8 makes the whole message fail to encode.
\<close>

section \<open>UTF-8\<close>

definition byte :: "char \<Rightarrow> nat" where
  "byte c = of_char c"

definition utf8_cont :: "char \<Rightarrow> bool" where
  "utf8_cont c \<longleftrightarrow> 0x80 \<le> byte c \<and> byte c \<le> 0xBF"

text \<open>\<open>utf8.ValidString\<close>: no overlong form, no surrogate, nothing above U+10FFFF.\<close>

fun utf8_valid :: "string \<Rightarrow> bool" where
  "utf8_valid [] \<longleftrightarrow> True"
| "utf8_valid (a # s) \<longleftrightarrow>
     (if byte a < 0x80 then utf8_valid s
      else case s of
        [] \<Rightarrow> False
      | b # s1 \<Rightarrow>
          if 0xC2 \<le> byte a \<and> byte a \<le> 0xDF then utf8_cont b \<and> utf8_valid s1
          else (case s1 of
            [] \<Rightarrow> False
          | c # s2 \<Rightarrow>
              if 0xE0 \<le> byte a \<and> byte a \<le> 0xEF then
                utf8_cont b \<and> (byte a = 0xE0 \<longrightarrow> 0xA0 \<le> byte b) \<and>
                (byte a = 0xED \<longrightarrow> byte b \<le> 0x9F) \<and> utf8_cont c \<and> utf8_valid s2
              else (case s2 of
                [] \<Rightarrow> False
              | d # s3 \<Rightarrow>
                  0xF0 \<le> byte a \<and> byte a \<le> 0xF4 \<and> utf8_cont b \<and>
                  (byte a = 0xF0 \<longrightarrow> 0x90 \<le> byte b) \<and> (byte a = 0xF4 \<longrightarrow> byte b \<le> 0x8F) \<and>
                  utf8_cont c \<and> utf8_cont d \<and> utf8_valid s3)))"

declare utf8_valid.simps(2) [simp del]

lemma utf8_valid_ascii_Cons: "byte a < 0x80 \<Longrightarrow> utf8_valid (a # s) = utf8_valid s"
  by (simp add: utf8_valid.simps(2))

lemma utf8_valid_ascii: "\<forall>c\<in>set s. byte c < 0x80 \<Longrightarrow> utf8_valid s"
  by (induction s) (auto simp: utf8_valid_ascii_Cons)

lemma utf8_valid_append_ascii:
  "\<forall>c\<in>set s. byte c < 0x80 \<Longrightarrow> utf8_valid (s @ t) = utf8_valid t"
  by (induction s) (auto simp: utf8_valid_ascii_Cons)

section \<open>Error codes and error values\<close>

definition CodeParseError :: int where "CodeParseError = - 32700"
definition CodeInvalidRequest :: int where "CodeInvalidRequest = - 32600"
definition CodeMethodNotFound :: int where "CodeMethodNotFound = - 32601"
definition CodeInvalidParams :: int where "CodeInvalidParams = - 32602"
definition CodeInternalError :: int where "CodeInternalError = - 32603"
definition CodeValidationFailed :: int where "CodeValidationFailed = - 32604"
definition CodeCanceled :: int where "CodeCanceled = - 32800"
definition CodeUnauthorized :: int where "CodeUnauthorized = - 32001"
definition CodeConnectionRejected :: int where "CodeConnectionRejected = - 32002"
definition CodeForbidden :: int where "CodeForbidden = - 32003"
definition CodeTooManyRequests :: int where "CodeTooManyRequests = - 32004"
definition CodeAuthFailed :: int where "CodeAuthFailed = - 32005"

lemmas code_defs = CodeParseError_def CodeInvalidRequest_def CodeMethodNotFound_def
  CodeInvalidParams_def CodeInternalError_def CodeValidationFailed_def CodeCanceled_def
  CodeUnauthorized_def CodeConnectionRejected_def CodeForbidden_def CodeTooManyRequests_def
  CodeAuthFailed_def

definition standard_codes :: "int list" where
  "standard_codes = [CodeParseError, CodeInvalidRequest, CodeMethodNotFound, CodeInvalidParams,
     CodeInternalError, CodeValidationFailed, CodeCanceled, CodeUnauthorized,
     CodeConnectionRejected, CodeForbidden, CodeTooManyRequests, CodeAuthFailed]"

text \<open>
  A Go \<open>error\<close>. A \<open>*ProtocolError\<close> has the address \<open>eid\<close>, its code, message, cause and data; a
  \<open>*CancelReason\<close> is one of the package variables; any other error has an identity (the operand of
  \<open>==\<close>), a text and the errors its \<open>Unwrap\<close> method returns.
\<close>

datatype 'v go_error =
    ProtocolError (eid: nat) (pe_code: int) (pe_message: string) (pe_cause: "'v go_error option")
      (pe_data: "'v option")
  | CancelReason cancel_cause
  | OtherError (eid: nat) (err_text: string) (err_wraps: "'v go_error list")

fun reason_text :: "cancel_cause \<Rightarrow> string" where
  "reason_text ErrClientCanceled = ''client canceled''"
| "reason_text ErrConnectionClosed = ''connection closed''"
| "reason_text ErrServerShutdown = ''server shutdown''"
| "reason_text CtxCanceled = ''context canceled''"

primrec error_str :: "'v go_error \<Rightarrow> string" where
  "error_str (ProtocolError a code message cause data) =
     (case map_option error_str cause of None \<Rightarrow> message | Some t \<Rightarrow> message @ '': '' @ t)"
| "error_str (CancelReason r) = reason_text r"
| "error_str (OtherError a t ws) = t"

definition NewError :: "int \<Rightarrow> string \<Rightarrow> 'v go_error" where
  "NewError code message = ProtocolError 0 code message None None"

definition WrapError :: "int \<Rightarrow> string \<Rightarrow> 'v go_error \<Rightarrow> 'v go_error" where
  "WrapError code message cause = ProtocolError 0 code message (Some cause) None"

definition ErrMethodNotFound :: "string \<Rightarrow> 'v go_error" where
  "ErrMethodNotFound m = NewError CodeMethodNotFound (''method not found: '' @ m)"

definition ErrInvalidParams :: "string \<Rightarrow> 'v go_error" where
  "ErrInvalidParams reason = NewError CodeInvalidParams (''invalid params: '' @ reason)"

definition ErrInternal :: "'v go_error \<Rightarrow> 'v go_error" where
  "ErrInternal cause = WrapError CodeInternalError ''internal error'' cause"

definition ErrCanceled :: "'v go_error" where
  "ErrCanceled = NewError CodeCanceled ''request canceled''"

definition panicError :: "'v go_error" where
  "panicError = NewError CodeInternalError ''handler panicked''"

text \<open>\<open>err == target\<close> compares identities; \<open>errors.Is\<close> walks the tree that \<open>Unwrap\<close> spans.\<close>

fun same_error :: "'v go_error \<Rightarrow> 'v go_error \<Rightarrow> bool" where
  "same_error (ProtocolError a _ _ _ _) (ProtocolError b _ _ _ _) \<longleftrightarrow> a = b"
| "same_error (CancelReason r) (CancelReason r') \<longleftrightarrow> r = r'"
| "same_error (OtherError a _ _) (OtherError b _ _) \<longleftrightarrow> a = b"
| "same_error _ _ \<longleftrightarrow> False"

primrec errors_is :: "'v go_error \<Rightarrow> 'v go_error \<Rightarrow> bool" where
  "errors_is (ProtocolError a code message cause data) target \<longleftrightarrow>
     same_error (ProtocolError a code message cause data) target \<or>
     (case map_option errors_is cause of None \<Rightarrow> False | Some f \<Rightarrow> f target)"
| "errors_is (CancelReason r) target \<longleftrightarrow> same_error (CancelReason r) target"
| "errors_is (OtherError a t ws) target \<longleftrightarrow>
     same_error (OtherError a t ws) target \<or> (\<exists>f\<in>set (map errors_is ws). f target)"

text \<open>\<open>Registry.LookupError\<close> over the registered \<open>(error, code)\<close> pairs, in registration order.\<close>

type_synonym 'v error_mappings = "('v go_error \<times> int) list"

fun LookupError :: "'v error_mappings \<Rightarrow> 'v go_error \<Rightarrow> int option" where
  "LookupError [] err = None"
| "LookupError ((e, code) # ms) err = (if errors_is err e then Some code else LookupError ms err)"

text \<open>What a handler returns: a value, a sequence, or a sequence of pairs.\<close>

datatype handler_kind = HandlerKindUnary | HandlerKindStream | HandlerKindStream2

section \<open>Frames\<close>

record blob =
  ContentType :: string
  Data :: "8 word list"

text \<open>
  A handler result: a plain value, a \<open>Blob\<close>, or a \<open>*Blob\<close> (which may be nil). \<open>payload\<close> is what a
  JSON response carries: a value, null, or the \<open>$blob\<close> envelope.
\<close>

datatype 'v result = Plain 'v | BlobVal blob | BlobPtr "blob option"

datatype 'v payload = Json 'v | JsonNull | BlobEnvelope blob

datatype 'v frame =
    ResponseMessage string "'v payload"
  | BinaryResponse string blob
  | ErrorMessage string int string "'v option"
  | ProgressMessage string int int string
  | PushMessage string 'v
  | SubscriptionPatchMessage string 'v
  | StreamItemMessage string 'v
  | StreamChunkMessage string "'v list"
  | StreamEndMessage string int string "'v option"
  | AuthOK
  | AuthError string bool
  | EmptyMessage

record 'v wire =
  marshal_err :: "'v \<Rightarrow> string option"
  utf8_err :: string
  header_len :: "string \<Rightarrow> string \<Rightarrow> nat"

definition str_err :: "'v wire \<Rightarrow> string \<Rightarrow> string option" where
  "str_err w s = (if utf8_valid s then None else Some (utf8_err w))"

fun first_err :: "string option list \<Rightarrow> string option" where
  "first_err [] = None"
| "first_err (Some e # es) = Some e"
| "first_err (None # es) = first_err es"

definition data_err :: "'v wire \<Rightarrow> 'v option \<Rightarrow> string option" where
  "data_err w d = (case d of None \<Rightarrow> None | Some v \<Rightarrow> marshal_err w v)"

fun payload_err :: "'v wire \<Rightarrow> 'v payload \<Rightarrow> string option" where
  "payload_err w (Json v) = marshal_err w v"
| "payload_err w JsonNull = None"
| "payload_err w (BlobEnvelope b) = str_err w (ContentType b)"

text \<open>
  \<open>encodeBinaryFrame\<close> fails when the header does not encode or is longer than a \<open>uint32\<close> can say;
  \<open>header_len w i ct\<close> is the length of the JSON header for ID \<open>i\<close> and content type \<open>ct\<close>.
\<close>

definition header_err :: "'v wire \<Rightarrow> string \<Rightarrow> blob \<Rightarrow> string option" where
  "header_err w i b =
     (let n = header_len w i (ContentType b)
      in if n > 2 ^ 32 - 1 then Some (''binary frame header too large: '' @ nat_str n @ '' bytes'')
         else None)"

text \<open>\<open>marshalJSON\<close> of a message: \<open>None\<close> when it encodes, the error text otherwise.\<close>

fun marshalJSON :: "'v wire \<Rightarrow> 'v frame \<Rightarrow> string option" where
  "marshalJSON w (ResponseMessage i r) = first_err [str_err w i, payload_err w r]"
| "marshalJSON w (BinaryResponse i b) = first_err [str_err w i, str_err w (ContentType b), header_err w i b]"
| "marshalJSON w (ErrorMessage i code m d) = first_err [str_err w i, str_err w m, data_err w d]"
| "marshalJSON w (ProgressMessage i cur tot m) = first_err [str_err w i, str_err w m]"
| "marshalJSON w (PushMessage e v) = first_err [str_err w e, marshal_err w v]"
| "marshalJSON w (SubscriptionPatchMessage i v) = first_err [str_err w i, marshal_err w v]"
| "marshalJSON w (StreamItemMessage i v) = first_err [str_err w i, marshal_err w v]"
| "marshalJSON w (StreamChunkMessage i vs) = first_err (str_err w i # map (marshal_err w) vs)"
| "marshalJSON w (StreamEndMessage i code m d) = first_err [str_err w i, str_err w m, data_err w d]"
| "marshalJSON w AuthOK = None"
| "marshalJSON w (AuthError m t) = str_err w m"
| "marshalJSON w EmptyMessage = None"

lemma first_err_None: "first_err es = None \<longleftrightarrow> (\<forall>e\<in>set es. e = None)"
  by (induction es rule: first_err.induct) auto

lemma str_err_None [simp]: "str_err w s = None \<longleftrightarrow> utf8_valid s"
  by (simp add: str_err_def)

lemma str_err_valid [simp]: "utf8_valid s \<Longrightarrow> str_err w s = None"
  by simp

lemma data_err_empty [simp]: "data_err w None = None"
  by (simp add: data_err_def)

section \<open>Sending\<close>

text \<open>
  \<open>sendRaw\<close> hands a message to the transport unless the connection is closed. Each function below
  returns the messages handed to the transport, given whether the connection is closed; the
  \<open>error\<close> results that the code discards are not part of the result.
\<close>

definition sendRaw :: "bool \<Rightarrow> 'v frame \<Rightarrow> 'v frame list" where
  "sendRaw closed msg = (if closed then [] else [msg])"

definition sendJSON :: "'v wire \<Rightarrow> bool \<Rightarrow> 'v frame \<Rightarrow> 'v frame list" where
  "sendJSON w closed msg = (case marshalJSON w msg of Some e \<Rightarrow> [] | None \<Rightarrow> sendRaw closed msg)"

definition sendError :: "'v wire \<Rightarrow> bool \<Rightarrow> string \<Rightarrow> int \<Rightarrow> string \<Rightarrow> 'v frame list" where
  "sendError w closed i code message = sendJSON w closed (ErrorMessage i code message None)"

text \<open>
  When the retry without \<open>Data\<close> does not encode either, the code sends the nil slice it got, an
  empty message.
\<close>

definition sendProtocolError ::
  "'v wire \<Rightarrow> bool \<Rightarrow> string \<Rightarrow> int \<Rightarrow> string \<Rightarrow> 'v option \<Rightarrow> 'v frame list" where
  "sendProtocolError w closed i code message data =
     (let msg = ErrorMessage i code message data; msg' = ErrorMessage i code message None
      in case marshalJSON w msg of
           None \<Rightarrow> sendRaw closed msg
         | Some e \<Rightarrow> sendRaw closed (if marshalJSON w msg' = None then msg' else EmptyMessage))"

definition sendProgress :: "'v wire \<Rightarrow> bool \<Rightarrow> string \<Rightarrow> int \<Rightarrow> int \<Rightarrow> string \<Rightarrow> 'v frame list" where
  "sendProgress w closed i cur tot message = sendJSON w closed (ProgressMessage i cur tot message)"

fun errorCode :: "'v error_mappings \<Rightarrow> 'v go_error option \<Rightarrow> int" where
  "errorCode ms None = 0"
| "errorCode ms (Some (ProtocolError a code m c d)) = code"
| "errorCode ms (Some err) =
     (case LookupError ms err of Some code \<Rightarrow> code | None \<Rightarrow> CodeInternalError)"

fun sendErrorFor ::
  "'v wire \<Rightarrow> 'v error_mappings \<Rightarrow> bool \<Rightarrow> string \<Rightarrow> 'v go_error \<Rightarrow> 'v frame list \<times> int" where
  "sendErrorFor w ms closed i (ProtocolError a code m c d) =
     (sendProtocolError w closed i code m d, code)"
| "sendErrorFor w ms closed i err =
     (case LookupError ms err of
        Some code \<Rightarrow> (sendError w closed i code (error_str err), code)
      | None \<Rightarrow> (sendError w closed i CodeInternalError (error_str err), CodeInternalError))"

fun stream_end_msg :: "'v error_mappings \<Rightarrow> string \<Rightarrow> 'v go_error option \<Rightarrow> 'v frame" where
  "stream_end_msg ms i None = StreamEndMessage i 0 [] None"
| "stream_end_msg ms i (Some (ProtocolError a code m c d)) = StreamEndMessage i code m d"
| "stream_end_msg ms i (Some err) =
     (case LookupError ms err of
        Some code \<Rightarrow> StreamEndMessage i code (error_str err) None
      | None \<Rightarrow> StreamEndMessage i CodeInternalError (error_str err) None)"

fun drop_data :: "'v frame \<Rightarrow> 'v frame" where
  "drop_data (StreamEndMessage i code m d) = StreamEndMessage i code m None"
| "drop_data f = f"

definition sendStreamEnd ::
  "'v wire \<Rightarrow> 'v error_mappings \<Rightarrow> bool \<Rightarrow> string \<Rightarrow> 'v go_error option \<Rightarrow> 'v frame list" where
  "sendStreamEnd w ms closed i err =
     (let msg = stream_end_msg ms i err
      in case marshalJSON w msg of
           None \<Rightarrow> sendRaw closed msg
         | Some e \<Rightarrow>
             sendRaw closed (if marshalJSON w (drop_data msg) = None then drop_data msg else EmptyMessage))"

fun asBlob :: "'v result \<Rightarrow> blob option" where
  "asBlob (Plain v) = None"
| "asBlob (BlobVal b) = Some b"
| "asBlob (BlobPtr None) = None"
| "asBlob (BlobPtr (Some b)) = Some b"

fun result_payload :: "'v result \<Rightarrow> 'v payload" where
  "result_payload (Plain v) = Json v"
| "result_payload (BlobVal b) = BlobEnvelope b"
| "result_payload (BlobPtr b) = JsonNull"

definition encodeFailed :: string where
  "encodeFailed = ''failed to encode response: ''"

definition encodeBinaryFailed :: string where
  "encodeBinaryFailed = ''failed to encode binary response: ''"

text \<open>\<open>supportsBinary\<close> is the transport's \<open>SupportsBinary()\<close>.\<close>

definition sendBlobResponse :: "'v wire \<Rightarrow> bool \<Rightarrow> bool \<Rightarrow> string \<Rightarrow> blob \<Rightarrow> 'v frame list" where
  "sendBlobResponse w supportsBinary closed i b =
     (if \<not> supportsBinary then
        (let msg = ResponseMessage i (BlobEnvelope b)
         in case marshalJSON w msg of
              Some e \<Rightarrow> sendError w closed i CodeInternalError (encodeFailed @ e)
            | None \<Rightarrow> sendRaw closed msg)
      else
        (case marshalJSON w (BinaryResponse i b) of
           Some e \<Rightarrow> sendError w closed i CodeInternalError (encodeBinaryFailed @ e)
         | None \<Rightarrow> [BinaryResponse i b]))"

definition sendResponse :: "'v wire \<Rightarrow> bool \<Rightarrow> bool \<Rightarrow> string \<Rightarrow> 'v result \<Rightarrow> 'v frame list" where
  "sendResponse w supportsBinary closed i r =
     (case asBlob r of
        Some b \<Rightarrow> sendBlobResponse w supportsBinary closed i b
      | None \<Rightarrow>
          (let msg = ResponseMessage i (result_payload r)
           in case marshalJSON w msg of
                Some e \<Rightarrow> sendError w closed i CodeInternalError (encodeFailed @ e)
              | None \<Rightarrow> sendRaw closed msg))"

section \<open>Lemmas\<close>

lemma sendRaw_open [simp]: "sendRaw False msg = [msg]"
  by (simp add: sendRaw_def)

lemma sendRaw_closed [simp]: "sendRaw True msg = []"
  by (simp add: sendRaw_def)

lemma sendError_open:
  "utf8_valid i \<Longrightarrow> utf8_valid m \<Longrightarrow> sendError w False i code m = [ErrorMessage i code m None]"
  by (simp add: sendError_def sendJSON_def)

lemma sendError_frames: "f \<in> set (sendError w closed i code m) \<Longrightarrow> f = ErrorMessage i code m None"
  by (auto simp: sendError_def sendJSON_def sendRaw_def split: option.splits if_splits)

lemma sendProtocolError_open:
  assumes "utf8_valid i" "utf8_valid m"
  shows "\<exists>d'. sendProtocolError w False i code m d = [ErrorMessage i code m d'] \<and> (d' = d \<or> d' = None)"
  using assms by (auto simp: sendProtocolError_def Let_def split: option.splits)

lemma sendProtocolError_frames:
  "f \<in> set (sendProtocolError w closed i code m d) \<Longrightarrow>
     f = EmptyMessage \<or> (\<exists>d'. f = ErrorMessage i code m d')"
  by (auto simp: sendProtocolError_def Let_def sendRaw_def split: option.splits if_splits)

text \<open>The request ID and error code a frame reports, for the frames that report an error.\<close>

fun frame_error :: "'v frame \<Rightarrow> (string \<times> int) option" where
  "frame_error (ErrorMessage i code m d) = Some (i, code)"
| "frame_error (StreamEndMessage i code m d) = Some (i, code)"
| "frame_error f = None"

fun client_text :: "'v go_error \<Rightarrow> string" where
  "client_text (ProtocolError a code m c d) = m"
| "client_text err = error_str err"

lemma sendErrorFor_code: "snd (sendErrorFor w ms closed i err) = errorCode ms (Some err)"
  by (cases err) (auto split: option.splits)

lemma sendErrorFor_frames:
  assumes "f \<in> set (fst (sendErrorFor w ms closed i err))"
  shows "f = EmptyMessage \<or> frame_error f = Some (i, errorCode ms (Some err))"
proof (cases err)
  case (ProtocolError a code m c d)
  then show ?thesis using assms by (auto dest: sendProtocolError_frames)
next
  case (CancelReason r)
  then show ?thesis using assms by (auto dest: sendError_frames split: option.splits)
next
  case (OtherError a t ws)
  then show ?thesis using assms by (auto dest: sendError_frames split: option.splits)
qed

lemma sendErrorFor_open:
  assumes "utf8_valid i" "utf8_valid (client_text err)"
  shows "\<exists>d. fst (sendErrorFor w ms False i err) =
    [ErrorMessage i (errorCode ms (Some err)) (client_text err) d]"
proof (cases err)
  case (ProtocolError a code m c d)
  then show ?thesis using assms sendProtocolError_open [of i m w code d] by auto
next
  case (CancelReason r)
  then show ?thesis using assms by (auto simp: sendError_open split: option.splits)
next
  case (OtherError a t ws)
  then show ?thesis using assms by (auto simp: sendError_open split: option.splits)
qed

lemma stream_end_msg_code: "\<exists>m d. stream_end_msg ms i err = StreamEndMessage i (errorCode ms err) m d"
  by (cases "(ms, i, err)" rule: stream_end_msg.cases) (auto split: option.splits)

lemma stream_end_msg_text:
  "\<exists>d. stream_end_msg ms i (Some err) = StreamEndMessage i (errorCode ms (Some err)) (client_text err) d"
  by (cases err) (simp_all split: option.split)

lemma sendStreamEnd_frames:
  "f \<in> set (sendStreamEnd w ms closed i err) \<Longrightarrow>
     f = EmptyMessage \<or> frame_error f = Some (i, errorCode ms err)"
  using stream_end_msg_code [of ms i err]
  by (auto simp: sendStreamEnd_def Let_def sendRaw_def split: option.splits if_splits)

lemma sendStreamEnd_length: "length (sendStreamEnd w ms closed i err) = (if closed then 0 else 1)"
  by (auto simp: sendStreamEnd_def Let_def sendRaw_def split: option.splits)

text \<open>The frames that settle a request on the client.\<close>

fun answers :: "string \<Rightarrow> 'v frame \<Rightarrow> bool" where
  "answers i (ResponseMessage j p) \<longleftrightarrow> i = j"
| "answers i (BinaryResponse j b) \<longleftrightarrow> i = j"
| "answers i (ErrorMessage j code m d) \<longleftrightarrow> i = j"
| "answers i (StreamEndMessage j code m d) \<longleftrightarrow> i = j"
| "answers i f \<longleftrightarrow> False"

definition wire_ok :: "'v wire \<Rightarrow> bool" where
  "wire_ok w \<longleftrightarrow> utf8_valid (utf8_err w) \<and> (\<forall>v e. marshal_err w v = Some e \<longrightarrow> utf8_valid e)"

lemma nat_str_ascii: "c \<in> set (nat_str n) \<Longrightarrow> byte c < 0x80"
  using nat_str_digits [of c n] by (auto simp: byte_def digit_char_def of_char_of)

lemma utf8_valid_nat_str: "utf8_valid (nat_str n @ s) = utf8_valid s"
  by (rule utf8_valid_append_ascii) (auto intro: nat_str_ascii)

lemma header_err_valid: "header_err w i b = Some e \<Longrightarrow> utf8_valid e"
  by (auto simp: header_err_def Let_def utf8_valid_nat_str utf8_valid_ascii_Cons byte_def split: if_splits)

lemma first_err_valid:
  "first_err es = Some e \<Longrightarrow> \<forall>e. Some e \<in> set es \<longrightarrow> utf8_valid e \<Longrightarrow> utf8_valid e"
  by (induction es rule: first_err.induct) auto

lemma sendResponse_error:
  assumes "utf8_valid i" "utf8_valid e"
  shows "sendError w False i CodeInternalError (encodeFailed @ e) =
      [ErrorMessage i CodeInternalError (encodeFailed @ e) None]"
    and "sendError w False i CodeInternalError (encodeBinaryFailed @ e) =
      [ErrorMessage i CodeInternalError (encodeBinaryFailed @ e) None]"
  using assms by (simp_all add: encodeFailed_def encodeBinaryFailed_def sendError_open utf8_valid_ascii_Cons byte_def)

lemma payload_err_valid: "wire_ok w \<Longrightarrow> payload_err w p = Some e \<Longrightarrow> utf8_valid e"
  by (cases p) (auto simp: wire_ok_def str_err_def split: if_splits)

lemma response_err_valid:
  assumes "wire_ok w" "utf8_valid i" "marshalJSON w msg = Some e"
    and "msg = ResponseMessage i p \<or> msg = BinaryResponse i b"
  shows "utf8_valid e"
proof (rule first_err_valid)
  show "first_err (if msg = ResponseMessage i p then [str_err w i, payload_err w p]
      else [str_err w i, str_err w (ContentType b), header_err w i b]) = Some e"
    using assms(3,4) by auto
  have "utf8_valid (utf8_err w)" using assms(1) by (simp add: wire_ok_def)
  then show "\<forall>e. Some e \<in> set (if msg = ResponseMessage i p then [str_err w i, payload_err w p]
      else [str_err w i, str_err w (ContentType b), header_err w i b]) \<longrightarrow> utf8_valid e"
    by (auto simp: str_err_def dest: payload_err_valid [OF assms(1) sym] header_err_valid [OF sym]
        split: if_splits)
qed

lemma response_sent:
  assumes "wire_ok w" and "utf8_valid i"
  shows "\<exists>f. sendResponse w bin False i r = [f] \<and> answers i f \<and>
    (f = (case asBlob r of Some b \<Rightarrow> (if bin then BinaryResponse i b else ResponseMessage i (BlobEnvelope b))
          | None \<Rightarrow> ResponseMessage i (result_payload r)) \<and> marshalJSON w f = None \<or>
     frame_error f = Some (i, CodeInternalError))"
proof -
  have err: "utf8_valid e" if "marshalJSON w msg = Some e"
    "msg = ResponseMessage i p \<or> msg = BinaryResponse i b" for msg e p b
    using response_err_valid [OF assms that] .
  show ?thesis
  proof (cases "asBlob r")
    case None
    show ?thesis
    proof (cases "marshalJSON w (ResponseMessage i (result_payload r))")
      case N: None
      then show ?thesis using None by (simp add: sendResponse_def Let_def)
    next
      case (Some e)
      have "utf8_valid e" by (rule err [OF Some]) blast
      with Some None show ?thesis
        by (simp add: sendResponse_def Let_def sendResponse_error assms(2))
    qed
  next
    case (Some b)
    let ?msg = "if bin then BinaryResponse i b else ResponseMessage i (BlobEnvelope b)"
    show ?thesis
    proof (cases "marshalJSON w ?msg")
      case None
      then show ?thesis using Some
        by (auto simp: sendResponse_def sendBlobResponse_def Let_def split: if_splits)
    next
      case (Some e)
      have "utf8_valid e" by (rule err [OF Some]) (cases bin; simp)
      with Some \<open>asBlob r = Some b\<close> show ?thesis
        by (cases bin) (simp_all add: sendResponse_def sendBlobResponse_def Let_def sendResponse_error assms(2))
    qed
  qed
qed


definition example_wire :: "int wire" where
  "example_wire = \<lparr>marshal_err = (\<lambda>v. if v < 0 then Some ''unsupported value'' else None),
     utf8_err = ''invalid UTF-8'', header_len = (\<lambda>i ct. 40 + length i + length ct)\<rparr>"

lemma example_wire_ok: "wire_ok example_wire"
  by (auto simp: wire_ok_def example_wire_def utf8_valid_ascii_Cons byte_def split: if_splits)


text \<open>
  Every path maps an error to one and the same code: what \<open>errorCode\<close> reports to the
  observer, what \<open>sendErrorFor\<close> returns, and what the error frame and the terminal frame of a
  stream carry; an open connection gets exactly one error frame, under the request's ID, as long
  as the client-visible text is valid UTF-8.
\<close>

theorem error_codes_agree:
  assumes "utf8_valid i" "utf8_valid (client_text err)"
  shows "snd (sendErrorFor w ms closed i err) = errorCode ms (Some err) \<and>
    map frame_error (fst (sendErrorFor w ms False i err)) = [Some (i, errorCode ms (Some err))] \<and>
    map frame_error (sendStreamEnd w ms False i (Some err)) = [Some (i, errorCode ms (Some err))]"
proof -
  obtain d where "fst (sendErrorFor w ms False i err) =
      [ErrorMessage i (errorCode ms (Some err)) (client_text err) d]"
    using sendErrorFor_open [OF assms] by blast
  moreover obtain d where "stream_end_msg ms i (Some err) =
      StreamEndMessage i (errorCode ms (Some err)) (client_text err) d"
    using stream_end_msg_text by blast
  then have "map frame_error (sendStreamEnd w ms False i (Some err)) = [Some (i, errorCode ms (Some err))]"
    using assms by (auto simp: sendStreamEnd_def Let_def first_err_None split: option.splits)
  ultimately show ?thesis by (simp add: sendErrorFor_code)
qed

theorem error_codes_agree_witness:
  "map frame_error (fst (sendErrorFor example_wire [(OtherError 7 ''not found'' [], 1001)] False ''1''
      (OtherError 9 ''load: not found'' [OtherError 7 ''not found'' []]))) = [Some (''1'', 1001)]"
proof -
  let ?err = "OtherError 9 ''load: not found'' [OtherError 7 ''not found'' []] :: int go_error"
  let ?ms = "[(OtherError 7 ''not found'' [], 1001)] :: int error_mappings"
  have "utf8_valid ''1''" "utf8_valid (client_text ?err)"
    by (simp_all add: utf8_valid_ascii_Cons byte_def)
  from error_codes_agree [OF this, of example_wire ?ms] have
    "map frame_error (fst (sendErrorFor example_wire ?ms False ''1'' ?err)) =
      [Some (''1'', errorCode ?ms (Some ?err))]" by blast
  then show ?thesis by simp
qed

text \<open>
  An error whose text is not valid UTF-8 is never reported: a plain error produces no
  frame at all and a \<open>*ProtocolError\<close> an empty message, so the request stays pending on the client
  although the server counts it as completed with a code.
\<close>

theorem invalid_text_error_lost:
  assumes "\<not> utf8_valid (client_text err)" and "utf8_valid i"
  shows "fst (sendErrorFor w ms False i err) \<in> {[], [EmptyMessage]} \<and>
    sendStreamEnd w ms False i (Some err) = [EmptyMessage]"
proof (cases err)
  case (ProtocolError a code m c d)
  then show ?thesis using assms
    by (auto simp: sendProtocolError_def sendStreamEnd_def Let_def str_err_def)
next
  case (CancelReason r)
  then show ?thesis using assms
    by (auto simp: sendError_def sendJSON_def sendStreamEnd_def Let_def str_err_def split: option.splits)
next
  case (OtherError a t ws)
  then show ?thesis using assms
    by (auto simp: sendError_def sendJSON_def sendStreamEnd_def Let_def str_err_def split: option.splits)
qed

theorem invalid_text_error_lost_witness:
  "fst (sendErrorFor example_wire [] False ''1'' (OtherError 1 [CHR 0xFF] [])) \<in> {[], [EmptyMessage]}"
proof -
  have "\<not> utf8_valid (client_text (OtherError 1 [CHR 0xFF] [] :: int go_error))" by code_simp
  moreover have "utf8_valid ''1''" by code_simp
  ultimately show ?thesis
    using invalid_text_error_lost [of "OtherError 1 [CHR 0xFF] []" "''1''" example_wire "[]"] by blast
qed

end
