(* ===== verification/Aprot_Connection.thy ===== *)
theory Aprot_Connection
  imports Aprot_Protocol
begin

text \<open>
  One server connection (\<open>Conn\<close> of \<open>connection.go\<close>): the table of in-flight requests with their
  cancel functions, the request slots, first-message authentication and the dispatch of incoming
  frames, and the close of a connection.

  A section of code under \<open>c.mu\<close> is one atomic step. The cancel function of a request is an address
  of the context store \<open>ctxs\<close>; \<open>running\<close> is the list of handler goroutines, each with the ID and
  the registration token it holds. Handlers, hooks and the JSON decoder are parameters.
\<close>

section \<open>State\<close>

record inflight =
  if_seq :: u64
  if_cancel :: ctx_ptr
  if_method :: string
  if_subscribe :: bool
  if_started :: int
  if_refresh :: bool
  if_refreshAgain :: bool

text \<open>\<open>requestReg\<close>, with the request ID the goroutine keeps in \<open>msg.ID\<close>.\<close>

record requestReg =
  reg_id :: string
  reg_ctx :: ctx_ptr
  reg_seq :: u64

record conn =
  conn_id :: u64
  requests :: "(string, inflight) gomap"
  closed :: bool
  reqSeq :: u64
  authenticated :: bool
  authTimer :: bool
  ctxs :: ctx_store
  next_ctx :: ctx_ptr
  running :: "requestReg list"

definition newConn :: "u64 \<Rightarrow> conn" where
  "newConn i = \<lparr>conn_id = i, requests = [], closed = False, reqSeq = 0, authenticated = False,
     authTimer = False, ctxs = Map.empty, next_ctx = 0, running = []\<rparr>"

section \<open>The request table\<close>

definition cancel_ctx :: "ctx_ptr \<Rightarrow> cancel_cause \<Rightarrow> conn \<Rightarrow> conn" where
  "cancel_ctx p cause c = c\<lparr>ctxs := ctx_cancel p cause (ctxs c)\<rparr>"

definition registerRequest ::
  "string \<Rightarrow> string \<Rightarrow> bool \<Rightarrow> int \<Rightarrow> ctx_ptr \<Rightarrow> conn \<Rightarrow> conn \<times> u64" where
  "registerRequest i meth subscribe started p c =
     (if closed c then (cancel_ctx p ErrConnectionClosed c, 0)
      else
        let old = map_of (requests c) i;
            seq = reqSeq c + 1;
            c' = c\<lparr>reqSeq := seq,
                   requests := AList.update i
                     \<lparr>if_seq = seq, if_cancel = p, if_method = meth, if_subscribe = subscribe,
                      if_started = started, if_refresh = False, if_refreshAgain = False\<rparr> (requests c)\<rparr>
        in ((case old of None \<Rightarrow> c' | Some req \<Rightarrow> cancel_ctx (if_cancel req) ErrClientCanceled c'), seq))"

definition unregisterRequest :: "string \<Rightarrow> u64 \<Rightarrow> conn \<Rightarrow> conn \<times> bool" where
  "unregisterRequest i seq c =
     (case map_of (requests c) i of
        None \<Rightarrow> (c, False)
      | Some req \<Rightarrow>
          if seq \<noteq> 0 \<and> if_seq req = seq
          then (c\<lparr>requests := AList.delete i (requests c)\<rparr>, if_refreshAgain req)
          else (c, False))"

definition registerRefresh ::
  "string \<Rightarrow> string \<Rightarrow> int \<Rightarrow> ctx_ptr \<Rightarrow> conn \<Rightarrow> conn \<times> u64 \<times> bool" where
  "registerRefresh i meth started p c =
     (if closed c then (cancel_ctx p ErrConnectionClosed c, 0, False)
      else
        let old = map_of (requests c) i;
            seq = reqSeq c + 1;
            c' = c\<lparr>reqSeq := seq,
                   requests := AList.update i
                     \<lparr>if_seq = seq, if_cancel = p, if_method = meth, if_subscribe = True,
                      if_started = started, if_refresh = True, if_refreshAgain = False\<rparr> (requests c)\<rparr>
        in case old of
             None \<Rightarrow> (c', seq, True)
           | Some cur \<Rightarrow>
               if \<not> if_refresh cur
               then (cancel_ctx p CtxCanceled
                       (c\<lparr>requests := AList.update i (cur\<lparr>if_refreshAgain := True\<rparr>) (requests c)\<rparr>), 0, False)
               else (cancel_ctx (if_cancel cur) ErrClientCanceled c', seq, True))"

definition cancelRequest :: "string \<Rightarrow> conn \<Rightarrow> conn" where
  "cancelRequest i c =
     (case map_of (requests c) i of
        None \<Rightarrow> c | Some req \<Rightarrow> cancel_ctx (if_cancel req) ErrClientCanceled c)"

text \<open>\<open>context.WithCancelCause(context.Background())\<close>, then the registration.\<close>

definition new_ctx :: "conn \<Rightarrow> ctx_ptr \<times> conn" where
  "new_ctx c = (next_ctx c, c\<lparr>next_ctx := Suc (next_ctx c)\<rparr>)"

definition beginRequest :: "string \<Rightarrow> string \<Rightarrow> bool \<Rightarrow> int \<Rightarrow> conn \<Rightarrow> conn \<times> requestReg" where
  "beginRequest i meth subscribe started c =
     (case new_ctx c of (p, c1) \<Rightarrow>
        case registerRequest i meth subscribe started p c1 of (c2, seq) \<Rightarrow>
          (c2, \<lparr>reg_id = i, reg_ctx = p, reg_seq = seq\<rparr>))"

text \<open>
  The goroutine of a request: \<open>spawn\<close> starts it, and \<open>finish_request\<close> is the deferred block it
  unwinds through, \<open>unregisterRequest\<close> followed by \<open>cancel(nil)\<close>; the result tells whether a
  deferred refresh has to run.
\<close>

definition spawn :: "requestReg \<Rightarrow> conn \<Rightarrow> conn" where
  "spawn r c = c\<lparr>running := running c @ [r]\<rparr>"

definition finish_request :: "requestReg \<Rightarrow> conn \<Rightarrow> conn \<times> bool" where
  "finish_request r c =
     (case unregisterRequest (reg_id r) (reg_seq r) c of (c1, again) \<Rightarrow>
        ((cancel_ctx (reg_ctx r) CtxCanceled c1)\<lparr>running := remove1 r (running c)\<rparr>, again))"

text \<open>The start of \<open>refreshSubscription\<close>: the goroutine runs on only if the registration succeeds.\<close>

definition begin_refresh :: "string \<Rightarrow> string \<Rightarrow> int \<Rightarrow> conn \<Rightarrow> conn" where
  "begin_refresh i meth started c =
     (case new_ctx c of (p, c1) \<Rightarrow>
        case registerRefresh i meth started p c1 of (c2, seq, ok) \<Rightarrow>
          if ok then spawn \<lparr>reg_id = i, reg_ctx = p, reg_seq = seq\<rparr> c2 else c2)"

text \<open>
  The part of \<open>closeWithCause\<close> under \<open>c.mu\<close>; the result tells whether this call performed the
  transition, in which case the subscriptions and the transport are closed next.
\<close>

definition closeWithCause :: "cancel_cause \<Rightarrow> conn \<Rightarrow> conn \<times> bool" where
  "closeWithCause cause c =
     (if closed c then (c, False)
      else (c\<lparr>closed := True,
              ctxs := fold (\<lambda>p. ctx_cancel p cause) (map (\<lambda>(i, req). if_cancel req) (requests c)) (ctxs c)\<rparr>,
            True))"

definition InFlightRequests :: "conn \<Rightarrow> nat" where
  "InFlightRequests c = length (requests c)"

definition requestAge :: "int \<Rightarrow> int \<Rightarrow> int" where
  "requestAge now started = (let age = now - started in if age > 0 then age else 0)"

record InFlightRequest =
  ConnID :: u64
  RequestID :: string
  ifr_method :: string
  ifr_subscribe :: bool
  Age :: int

definition appendInFlight :: "InFlightRequest list \<Rightarrow> int \<Rightarrow> conn \<Rightarrow> InFlightRequest list" where
  "appendInFlight dst now c =
     dst @ map (\<lambda>(i, req). \<lparr>ConnID = conn_id c, RequestID = i, ifr_method = if_method req,
       ifr_subscribe = if_subscribe req, Age = requestAge now (if_started req)\<rparr>) (requests c)"

definition inFlightStats :: "int \<Rightarrow> conn \<Rightarrow> nat \<times> int" where
  "inFlightStats now c =
     (length (requests c),
      fold (\<lambda>(i, req) oldest. let age = requestAge now (if_started req)
                              in if age > oldest then age else oldest) (requests c) 0)"

section \<open>Request slots\<close>

text \<open>A buffered channel used as a counting semaphore: capacity and fill level; \<open>None\<close> is nil.\<close>

type_synonym sem = "(nat \<times> nat) option"

definition make_sem :: "int \<Rightarrow> sem" where
  "make_sem n = (if n > 0 then Some (nat n, 0) else None)"

fun try_acquire :: "sem \<Rightarrow> sem option" where
  "try_acquire None = Some None"
| "try_acquire (Some (cap, n)) = (if n < cap then Some (Some (cap, Suc n)) else None)"

fun release :: "sem \<Rightarrow> sem" where
  "release None = None"
| "release (Some (cap, n)) = Some (cap, n - 1)"

text \<open>The per-connection semaphore and the server's, as \<open>acquireRequestSlot\<close> uses them.\<close>

definition acquireRequestSlot :: "sem \<times> sem \<Rightarrow> (sem \<times> sem) \<times> bool" where
  "acquireRequestSlot s =
     (case try_acquire (fst s) of
        None \<Rightarrow> (s, False)
      | Some cs \<Rightarrow>
          (case try_acquire (snd s) of
             None \<Rightarrow> ((release cs, snd s), False)
           | Some ss \<Rightarrow> ((cs, ss), True)))"

definition releaseRequestSlot :: "sem \<times> sem \<Rightarrow> sem \<times> sem" where
  "releaseRequestSlot s = (release (fst s), release (snd s))"

section \<open>Authentication and dispatch\<close>

datatype message_type =
    TypeRequest | TypeSubscribe | TypeUnsubscribe | TypeCancel | TypeAuth | TypeOther

record incoming =
  msg_type :: message_type
  msg_id :: string
  msg_method :: string
  msg_params :: string
  msg_token :: string
  msg_patch :: bool

record server_cfg =
  hasAuthHook :: bool
  AllowAnonymous :: bool
  registry_get :: "string \<Rightarrow> handler_kind option"

definition authEnabled :: "server_cfg \<Rightarrow> bool" where
  "authEnabled s \<longleftrightarrow> hasAuthHook s"

definition authRequired :: "server_cfg \<Rightarrow> bool" where
  "authRequired s \<longleftrightarrow> hasAuthHook s \<and> \<not> AllowAnonymous s"

text \<open>
  What the read loop leads to besides frames: a goroutine for a request or a subscribe, the removal
  of a subscription, or the close of the connection.
\<close>

datatype action =
    Run_Request incoming handler_kind requestReg
  | Run_Subscribe incoming handler_kind requestReg
  | Unregister_Sub string
  | Close_Conn

definition lookupRunnable ::
  "server_cfg \<Rightarrow> 'v wire \<Rightarrow> bool \<Rightarrow> incoming \<Rightarrow> bool \<Rightarrow> 'v frame list + handler_kind" where
  "lookupRunnable s w cl msg subscribe =
     (case registry_get s (msg_method msg) of
        None \<Rightarrow> Inl (sendError w cl (msg_id msg) CodeMethodNotFound (''method not found: '' @ msg_method msg))
      | Some kind \<Rightarrow>
          if subscribe \<and> kind \<noteq> HandlerKindUnary
          then Inl (sendError w cl (msg_id msg) CodeInvalidRequest
                      (''streaming handlers cannot be subscribed: '' @ msg_method msg))
          else Inr kind)"

text \<open>
  \<open>dispatchRequest\<close> and \<open>dispatchSubscribe\<close>, which differ in the flag \<open>subscribe\<close> only. The slots
  are the pair of semaphores; \<open>now\<close> is the clock.
\<close>

definition dispatch ::
  "server_cfg \<Rightarrow> 'v wire \<Rightarrow> int \<Rightarrow> bool \<Rightarrow> incoming \<Rightarrow> conn \<Rightarrow> sem \<times> sem \<Rightarrow>
     conn \<times> (sem \<times> sem) \<times> 'v frame list \<times> action list" where
  "dispatch s w now subscribe msg c sl =
     (case lookupRunnable s w (closed c) msg subscribe of
        Inl fs \<Rightarrow> (c, sl, fs, [])
      | Inr kind \<Rightarrow>
          (case acquireRequestSlot sl of (sl', ok) \<Rightarrow>
             if \<not> ok then (c, sl', sendError w (closed c) (msg_id msg) CodeTooManyRequests
                              ''too many concurrent requests'', [])
             else (case beginRequest (msg_id msg) (msg_method msg) subscribe now c of (c', reg) \<Rightarrow>
                     (spawn reg c', sl', [],
                      [if subscribe then Run_Subscribe msg kind reg else Run_Request msg kind reg]))))"

definition sendAuthOK :: "'v wire \<Rightarrow> bool \<Rightarrow> 'v frame list" where
  "sendAuthOK w cl = sendJSON w cl AuthOK"

definition sendAuthError :: "'v wire \<Rightarrow> bool \<Rightarrow> string \<Rightarrow> 'v frame list" where
  "sendAuthError w cl m = sendJSON w cl (AuthError m False)"

definition stopAuthTimer :: "conn \<Rightarrow> conn" where
  "stopAuthTimer c = c\<lparr>authTimer := False\<rparr>"

text \<open>
  The result of the auth hook: accepted, an error, or a panic, which \<open>runAuthHook\<close> turns into the
  plain error \<open>errAuthHookPanicked\<close>.
\<close>

datatype 'v hook_result = Accept | Reject "'v go_error" | Panic

fun runAuthHook :: "(string \<Rightarrow> 'v hook_result) \<Rightarrow> string \<Rightarrow> 'v go_error option" where
  "runAuthHook hook token =
     (case hook token of
        Accept \<Rightarrow> None
      | Reject err \<Rightarrow> Some err
      | Panic \<Rightarrow> Some (OtherError 0 ''aprot: auth hook panicked'' []))"

fun auth_message :: "'v go_error \<Rightarrow> string" where
  "auth_message (ProtocolError a code m c d) = m"
| "auth_message err = ''authentication failed''"

definition handleAuth ::
  "server_cfg \<Rightarrow> 'v wire \<Rightarrow> (string \<Rightarrow> 'v hook_result) \<Rightarrow> string \<Rightarrow> conn \<Rightarrow>
     conn \<times> 'v frame list \<times> action list" where
  "handleAuth s w hook token c =
     (if \<not> authEnabled s then (c, sendAuthOK w (closed c), [])
      else case runAuthHook hook token of
        None \<Rightarrow>
          (let c' = (if authenticated c then c else stopAuthTimer (c\<lparr>authenticated := True\<rparr>))
           in (c', sendAuthOK w (closed c), []))
      | Some err \<Rightarrow>
          (c, sendAuthError w (closed c) (auth_message err),
           if authenticated c then [] else [Close_Conn]))"

text \<open>The timer callback of \<open>armAuthTimeout\<close>.\<close>

definition authTimeout :: "'v wire \<Rightarrow> conn \<Rightarrow> 'v frame list \<times> action list" where
  "authTimeout w c =
     (if authenticated c then ([], [])
      else (sendJSON w (closed c) (AuthError ''authentication timeout'' True), [Close_Conn]))"

text \<open>\<open>None\<close> is a message that does not decode.\<close>

definition handleIncomingMessage ::
  "server_cfg \<Rightarrow> 'v wire \<Rightarrow> (string \<Rightarrow> 'v hook_result) \<Rightarrow> int \<Rightarrow> incoming option \<Rightarrow> conn \<Rightarrow> sem \<times> sem \<Rightarrow>
     conn \<times> (sem \<times> sem) \<times> 'v frame list \<times> action list" where
  "handleIncomingMessage s w hook now data c sl =
     (case data of
        None \<Rightarrow> (c, sl, sendError w (closed c) [] CodeParseError ''invalid JSON'', [])
      | Some msg \<Rightarrow>
          if msg_type msg = TypeAuth then
            (case handleAuth s w hook (msg_token msg) c of (c', fs, as) \<Rightarrow> (c', sl, fs, as))
          else if authRequired s \<and> \<not> authenticated c then
            (c, sl, sendAuthError w (closed c) ''authentication required'', [])
          else (case msg_type msg of
              TypeRequest \<Rightarrow> dispatch s w now False msg c sl
            | TypeSubscribe \<Rightarrow> dispatch s w now True msg c sl
            | TypeUnsubscribe \<Rightarrow> (cancelRequest (msg_id msg) c, sl, [], [Unregister_Sub (msg_id msg)])
            | TypeCancel \<Rightarrow> (cancelRequest (msg_id msg) c, sl, [], [])
            | _ \<Rightarrow> (c, sl, sendError w (closed c) (msg_id msg) CodeInvalidRequest ''unknown message type'', [])))"

section \<open>Invariant of the request table\<close>

text \<open>
  Every way the program changes the table: a dispatched frame, a server-driven refresh, the end of
  a running request, a cancel or unsubscribe frame, and the close of the connection.
\<close>

inductive conn_step :: "conn \<Rightarrow> conn \<Rightarrow> bool" where
  cs_begin: "beginRequest i meth sub t c = (c', r) \<Longrightarrow> conn_step c (spawn r c')"
| cs_refresh: "conn_step c (begin_refresh i meth t c)"
| cs_finish: "r \<in> set (running c) \<Longrightarrow> conn_step c (fst (finish_request r c))"
| cs_cancel: "conn_step c (cancelRequest i c)"
| cs_close: "conn_step c (fst (closeWithCause cause c))"

text \<open>
  \<open>table_inv\<close>: an entry belongs to a running request. \<open>run_inv\<close>: running requests have contexts
  and nonzero tokens of their own. \<open>live_inv\<close>: a running request that has not been cancelled is
  in the table, and the connection is open.
\<close>

definition table_inv :: "conn \<Rightarrow> bool" where
  "table_inv c \<longleftrightarrow> gm_wf (requests c) \<and>
     (\<forall>i f. map_of (requests c) i = Some f \<longrightarrow> if_seq f \<noteq> 0 \<and>
        \<lparr>reg_id = i, reg_ctx = if_cancel f, reg_seq = if_seq f\<rparr> \<in> set (running c))"

definition run_inv :: "conn \<Rightarrow> bool" where
  "run_inv c \<longleftrightarrow> distinct (map reg_ctx (running c)) \<and>
     (\<forall>r\<in>set (running c). reg_ctx r < next_ctx c \<and> unat (reg_seq r) \<le> unat (reqSeq c)) \<and>
     (\<forall>r\<in>set (running c). \<forall>r'\<in>set (running c). reg_seq r = reg_seq r' \<longrightarrow> reg_seq r \<noteq> 0 \<longrightarrow> r = r') \<and>
     (\<forall>p. next_ctx c \<le> p \<longrightarrow> ctxs c p = None)"

definition live_inv :: "conn \<Rightarrow> bool" where
  "live_inv c \<longleftrightarrow> (\<forall>r\<in>set (running c). \<not> ctx_canceled (ctxs c) (reg_ctx r) \<longrightarrow> \<not> closed c \<and>
     (\<exists>f. map_of (requests c) (reg_id r) = Some f \<and> if_seq f = reg_seq r \<and> if_cancel f = reg_ctx r))"

definition req_inv :: "conn \<Rightarrow> bool" where
  "req_inv c \<longleftrightarrow> table_inv c \<and> run_inv c \<and> live_inv c"

lemma cancel_ctx_simps [simp]:
  "requests (cancel_ctx p cause c) = requests c" "running (cancel_ctx p cause c) = running c"
  "closed (cancel_ctx p cause c) = closed c" "reqSeq (cancel_ctx p cause c) = reqSeq c"
  "next_ctx (cancel_ctx p cause c) = next_ctx c"
  "ctxs (cancel_ctx p cause c) = ctx_cancel p cause (ctxs c)"
  by (simp_all add: cancel_ctx_def)

lemma req_inv_cancel: "req_inv c \<Longrightarrow> p < next_ctx c \<Longrightarrow> req_inv (cancel_ctx p cause c)"
  by (auto simp: req_inv_def table_inv_def run_inv_def live_inv_def ctx_cancel_mono
      ctx_cancel_other dest!: bspec intro!: ctx_cancel_mono)

text \<open>The common part of a successful registration.\<close>

definition install :: "string \<Rightarrow> inflight \<Rightarrow> conn \<Rightarrow> conn" where
  "install i f c =
     (let c' = c\<lparr>reqSeq := if_seq f, requests := AList.update i f (requests c)\<rparr>
      in case map_of (requests c) i of
           None \<Rightarrow> c' | Some old \<Rightarrow> cancel_ctx (if_cancel old) ErrClientCanceled c')"

lemma table_entry_run:
  "table_inv c \<Longrightarrow> map_of (requests c) i = Some f \<Longrightarrow>
     \<lparr>reg_id = i, reg_ctx = if_cancel f, reg_seq = if_seq f\<rparr> \<in> set (running c)"
  by (simp add: table_inv_def)

lemma run_ctx_inject:
  "run_inv c \<Longrightarrow> r \<in> set (running c) \<Longrightarrow> r' \<in> set (running c) \<Longrightarrow> reg_ctx r = reg_ctx r' \<Longrightarrow> r = r'"
  by (auto simp: run_inv_def distinct_map inj_on_def)

lemma install_simps [simp]:
  "requests (install i f c) = AList.update i f (requests c)" "running (install i f c) = running c"
  "closed (install i f c) = closed c" "reqSeq (install i f c) = if_seq f"
  "next_ctx (install i f c) = next_ctx c"
  by (simp_all add: install_def Let_def split: option.splits)

lemma install_ctxs:
  "ctxs (install i f c) =
     (case map_of (requests c) i of None \<Rightarrow> ctxs c
      | Some old \<Rightarrow> ctx_cancel (if_cancel old) ErrClientCanceled (ctxs c))"
  by (simp add: install_def Let_def split: option.splits)

lemma spawn_simps [simp]:
  "requests (spawn r c) = requests c" "running (spawn r c) = running c @ [r]"
  "closed (spawn r c) = closed c" "reqSeq (spawn r c) = reqSeq c" "next_ctx (spawn r c) = next_ctx c"
  "ctxs (spawn r c) = ctxs c"
  by (simp_all add: spawn_def)

lemma unat_seq_Suc: "unat (s :: u64) < 2 ^ 64 - 1 \<Longrightarrow> unat (s + 1) = Suc (unat s)"
  by (subst unat_plus_simple [THEN iffD1]) (simp_all add: no_plus_overflow_unat_size word_size)

abbreviation install_fresh :: "string \<Rightarrow> inflight \<Rightarrow> conn \<Rightarrow> conn" where
  "install_fresh i f c \<equiv>
     spawn \<lparr>reg_id = i, reg_ctx = next_ctx c, reg_seq = if_seq f\<rparr>
       (install i f (c\<lparr>next_ctx := Suc (next_ctx c)\<rparr>))"

lemma table_inv_install:
  assumes "table_inv c" "if_cancel f = next_ctx c" "if_seq f \<noteq> 0"
  shows "table_inv (install_fresh i f c)"
  using assms by (auto simp: table_inv_def)

lemma run_inv_install:
  assumes ti: "table_inv c" and ri: "run_inv c" and f: "if_seq f = reqSeq c + 1"
    and bound: "unat (reqSeq c) < 2 ^ 64 - 1"
  shows "run_inv (install_fresh i f c)"
proof -
  have S: "unat (reqSeq c + 1) = Suc (unat (reqSeq c))" using bound by (rule unat_seq_Suc)
  have old: "reg_ctx r < next_ctx c" "unat (reg_seq r) \<le> unat (reqSeq c)" if "r \<in> set (running c)" for r
    using ri that by (simp_all add: run_inv_def)
  have fresh: "reg_seq r \<noteq> if_seq f" if "r \<in> set (running c)" for r
    using old(2) [OF that] f S by auto
  have none: "ctxs (install i f (c\<lparr>next_ctx := Suc (next_ctx c)\<rparr>)) p = None" if "Suc (next_ctx c) \<le> p" for p
  proof -
    have "ctxs c p = None" using ri that by (simp add: run_inv_def)
    moreover have "p \<noteq> if_cancel old" if "map_of (requests c) i = Some old" for old
      using old(1) [OF table_entry_run [OF ti that]] \<open>Suc (next_ctx c) \<le> p\<close> by auto
    ultimately show ?thesis by (auto simp: install_ctxs split: option.splits)
  qed
  have "distinct (map reg_ctx (running c))" "\<And>r r'. r \<in> set (running c) \<Longrightarrow> r' \<in> set (running c) \<Longrightarrow>
      reg_seq r = reg_seq r' \<Longrightarrow> reg_seq r \<noteq> 0 \<Longrightarrow> r = r'"
    using ri by (auto simp: run_inv_def)
  then show ?thesis
    using old fresh none f S unfolding run_inv_def
    by (auto simp: less_Suc_eq le_Suc_eq dest: old)
qed

lemma live_inv_install:
  assumes ti: "table_inv c" and ri: "run_inv c" and li: "live_inv c"
    and op: "\<not> closed c" and f: "if_cancel f = next_ctx c"
  shows "live_inv (install_fresh i f c)"
  unfolding live_inv_def
proof (intro ballI impI)
  fix r
  assume r: "r \<in> set (running (install_fresh i f c))"
    and live: "\<not> ctx_canceled (ctxs (install_fresh i f c)) (reg_ctx r)"
  show "\<not> closed (install_fresh i f c) \<and>
    (\<exists>g. map_of (requests (install_fresh i f c)) (reg_id r) = Some g \<and> if_seq g = reg_seq r \<and> if_cancel g = reg_ctx r)"
  proof (cases "r \<in> set (running c)")
    case True
    have "\<not> ctx_canceled (ctxs c) (reg_ctx r)"
      using live by (auto simp: install_ctxs ctx_cancel_mono split: option.splits)
    then obtain g where g: "map_of (requests c) (reg_id r) = Some g" "if_seq g = reg_seq r" "if_cancel g = reg_ctx r"
      using li True by (auto simp: live_inv_def)
    moreover have "reg_id r \<noteq> i"
      using g live by (auto simp: install_ctxs split: option.splits)
    ultimately show ?thesis using op by simp
  next
    case False
    then show ?thesis using r op f by simp
  qed
qed

lemma req_inv_install:
  assumes "req_inv c" "\<not> closed c" "if_cancel f = next_ctx c" "if_seq f = reqSeq c + 1"
    and "unat (reqSeq c) < 2 ^ 64 - 1"
  shows "req_inv (install_fresh i f c)"
proof -
  have "if_seq f \<noteq> 0" using unat_seq_Suc [OF assms(5)] assms(4) by auto
  moreover have "table_inv c" "run_inv c" "live_inv c" using assms(1) by (simp_all add: req_inv_def)
  ultimately show ?thesis unfolding req_inv_def
    by (intro conjI table_inv_install run_inv_install live_inv_install assms(2-5))
qed

text \<open>A registration on a closed connection: the new request starts cancelled.\<close>

lemma req_inv_spawn_closed:
  assumes inv: "req_inv c" and cl: "closed c"
  shows "req_inv (spawn \<lparr>reg_id = i, reg_ctx = next_ctx c, reg_seq = 0\<rparr>
    (cancel_ctx (next_ctx c) ErrConnectionClosed (c\<lparr>next_ctx := Suc (next_ctx c)\<rparr>)))"
proof -
  have "\<And>r. r \<in> set (running c) \<Longrightarrow> reg_ctx r < next_ctx c \<and> ctx_canceled (ctxs c) (reg_ctx r)"
    using inv cl by (auto simp: req_inv_def run_inv_def live_inv_def)
  then show ?thesis
    using inv cl by (fastforce simp: req_inv_def table_inv_def run_inv_def live_inv_def ctx_cancel_mono)
qed

lemma begin_open:
  "\<not> closed c \<Longrightarrow> beginRequest i meth sub t c =
     (install i \<lparr>if_seq = reqSeq c + 1, if_cancel = next_ctx c, if_method = meth, if_subscribe = sub,
        if_started = t, if_refresh = False, if_refreshAgain = False\<rparr> (c\<lparr>next_ctx := Suc (next_ctx c)\<rparr>),
      \<lparr>reg_id = i, reg_ctx = next_ctx c, reg_seq = reqSeq c + 1\<rparr>)"
  by (simp add: beginRequest_def new_ctx_def registerRequest_def install_def Let_def split: option.splits)

lemma begin_closed:
  "closed c \<Longrightarrow> beginRequest i meth sub t c =
     (cancel_ctx (next_ctx c) ErrConnectionClosed (c\<lparr>next_ctx := Suc (next_ctx c)\<rparr>),
      \<lparr>reg_id = i, reg_ctx = next_ctx c, reg_seq = 0\<rparr>)"
  by (simp add: beginRequest_def new_ctx_def registerRequest_def)

lemma req_inv_begin:
  assumes "req_inv c" "unat (reqSeq c) < 2 ^ 64 - 1" "beginRequest i meth sub t c = (c', r)"
  shows "req_inv (spawn r c')"
proof (cases "closed c")
  case True
  then show ?thesis using assms req_inv_spawn_closed [of c i] by (auto simp: begin_closed)
next
  case False
  then show ?thesis using assms req_inv_install [OF assms(1) False, of _ i]
    by (auto simp: begin_open)
qed

lemma req_inv_next_ctx:
  "req_inv c \<Longrightarrow> req_inv (c\<lparr>next_ctx := Suc (next_ctx c)\<rparr>)"
  by (auto simp: req_inv_def table_inv_def run_inv_def live_inv_def less_SucI)

lemma req_inv_mark:
  assumes inv: "req_inv c" and cur: "map_of (requests c) i = Some cur"
  shows "req_inv (c\<lparr>requests := AList.update i (cur\<lparr>if_refreshAgain := True\<rparr>) (requests c)\<rparr>)"
  using assms by (fastforce simp: req_inv_def table_inv_def run_inv_def live_inv_def)

lemma begin_refresh_eq:
  "begin_refresh i meth t c =
     (if closed c then cancel_ctx (next_ctx c) ErrConnectionClosed (c\<lparr>next_ctx := Suc (next_ctx c)\<rparr>)
      else case map_of (requests c) i of
        Some cur \<Rightarrow> if \<not> if_refresh cur
          then cancel_ctx (next_ctx c) CtxCanceled ((c\<lparr>next_ctx := Suc (next_ctx c)\<rparr>)
                 \<lparr>requests := AList.update i (cur\<lparr>if_refreshAgain := True\<rparr>) (requests c)\<rparr>)
          else install_fresh i \<lparr>if_seq = reqSeq c + 1, if_cancel = next_ctx c, if_method = meth,
                 if_subscribe = True, if_started = t, if_refresh = True, if_refreshAgain = False\<rparr> c
      | None \<Rightarrow> install_fresh i \<lparr>if_seq = reqSeq c + 1, if_cancel = next_ctx c, if_method = meth,
                 if_subscribe = True, if_started = t, if_refresh = True, if_refreshAgain = False\<rparr> c)"
  by (simp add: begin_refresh_def new_ctx_def registerRefresh_def install_def Let_def split: option.splits)

lemma req_inv_refresh:
  assumes inv: "req_inv c" and b: "unat (reqSeq c) < 2 ^ 64 - 1"
  shows "req_inv (begin_refresh i meth t c)"
proof -
  let ?c = "c\<lparr>next_ctx := Suc (next_ctx c)\<rparr>"
  have c1: "req_inv ?c" by (rule req_inv_next_ctx [OF inv])
  have mark: "req_inv (cancel_ctx (next_ctx c) CtxCanceled
      (?c\<lparr>requests := AList.update i (cur\<lparr>if_refreshAgain := True\<rparr>) (requests c)\<rparr>))"
    if "map_of (requests c) i = Some cur" for cur
    using req_inv_cancel [OF req_inv_mark [OF c1, of i cur], of "next_ctx c"] that by simp
  show ?thesis
    using mark req_inv_cancel [OF c1, of "next_ctx c" ErrConnectionClosed]
      req_inv_install [OF inv _ _ _ b, of
        "\<lparr>if_seq = reqSeq c + 1, if_cancel = next_ctx c, if_method = meth, if_subscribe = True,
          if_started = t, if_refresh = True, if_refreshAgain = False\<rparr>" i]
    by (simp add: begin_refresh_eq split: option.split)
qed

lemma entry_ctx_bound: "req_inv c \<Longrightarrow> map_of (requests c) i = Some f \<Longrightarrow> if_cancel f < next_ctx c"
  using table_entry_run [of c i f] by (auto simp: req_inv_def run_inv_def dest!: bspec)

lemma req_inv_cancelRequest: "req_inv c \<Longrightarrow> req_inv (cancelRequest i c)"
  by (auto simp: cancelRequest_def split: option.split intro: req_inv_cancel entry_ctx_bound)

lemma map_of_finish:
  "map_of (requests (fst (finish_request r c))) i =
     (case map_of (requests c) i of
        None \<Rightarrow> None
      | Some f \<Rightarrow> if i = reg_id r \<and> reg_seq r \<noteq> 0 \<and> if_seq f = reg_seq r then None else Some f)"
  by (auto simp: finish_request_def unregisterRequest_def split: option.splits)

lemma finish_simps [simp]:
  "running (fst (finish_request r c)) = remove1 r (running c)"
  "closed (fst (finish_request r c)) = closed c" "reqSeq (fst (finish_request r c)) = reqSeq c"
  "next_ctx (fst (finish_request r c)) = next_ctx c"
  "ctxs (fst (finish_request r c)) = ctx_cancel (reg_ctx r) CtxCanceled (ctxs c)"
  by (simp_all add: finish_request_def unregisterRequest_def split: option.splits)

lemma gm_wf_finish: "gm_wf (requests c) \<Longrightarrow> gm_wf (requests (fst (finish_request r c)))"
  by (simp add: finish_request_def unregisterRequest_def split: option.splits)

lemma set_remove1_run:
  "run_inv c \<Longrightarrow> set (remove1 r (running c)) = set (running c) - {r}"
  by (rule set_remove1_eq) (auto simp: run_inv_def distinct_map)

lemma req_inv_finish:
  assumes inv: "req_inv c" and r: "r \<in> set (running c)"
  shows "req_inv (fst (finish_request r c))"
proof -
  have ti: "table_inv c" and ri: "run_inv c" and li: "live_inv c" using inv by (simp_all add: req_inv_def)
  have tok: "r' = r" if "r' \<in> set (running c)" "reg_seq r' = reg_seq r" "reg_seq r \<noteq> 0" for r'
    using ri r that by (auto simp: run_inv_def)
  have "table_inv (fst (finish_request r c))"
    using ti by (auto simp: table_inv_def map_of_finish set_remove1_run [OF ri] gm_wf_finish split: option.splits if_splits)
  moreover have "run_inv (fst (finish_request r c))"
    using ri r by (auto simp: run_inv_def set_remove1_run [OF ri] distinct_map inj_on_diff ctx_cancel_def
        split: option.splits dest!: bspec)
  moreover have "live_inv (fst (finish_request r c))"
    unfolding live_inv_def finish_simps set_remove1_run [OF ri]
  proof (intro ballI impI)
    fix r' assume r': "r' \<in> set (running c) - {r}"
      and live: "\<not> ctx_canceled (ctx_cancel (reg_ctx r) CtxCanceled (ctxs c)) (reg_ctx r')"
    then have "\<not> ctx_canceled (ctxs c) (reg_ctx r')" using ctx_cancel_mono by blast
    with li r' obtain f where "\<not> closed c" and f: "map_of (requests c) (reg_id r') = Some f"
      "if_seq f = reg_seq r'" "if_cancel f = reg_ctx r'" by (auto simp: live_inv_def)
    then show "\<not> closed c \<and> (\<exists>f. map_of (requests (fst (finish_request r c))) (reg_id r') = Some f \<and>
        if_seq f = reg_seq r' \<and> if_cancel f = reg_ctx r')"
      using r' tok by (auto simp: map_of_finish)
  qed
  ultimately show ?thesis by (simp add: req_inv_def)
qed

lemma close_cancels_all:
  assumes inv: "req_inv c" and r: "r \<in> set (running c)"
  shows "ctx_canceled (ctxs (fst (closeWithCause cause c))) (reg_ctx r)"
proof (cases "ctx_canceled (ctxs c) (reg_ctx r)")
  case True
  then show ?thesis by (auto simp: closeWithCause_def ctx_canceled_def fold_ctx_cancel)
next
  case False
  then obtain f where "\<not> closed c" "map_of (requests c) (reg_id r) = Some f" "if_cancel f = reg_ctx r"
    using inv r by (auto simp: req_inv_def live_inv_def)
  then have "reg_ctx r \<in> set (map (\<lambda>(i, req). if_cancel req) (requests c))"
    by (force dest: map_of_SomeD)
  with \<open>\<not> closed c\<close> show ?thesis
    by (auto simp: closeWithCause_def ctx_canceled_def fold_ctx_cancel)
qed

lemma req_inv_close:
  assumes inv: "req_inv c"
  shows "req_inv (fst (closeWithCause cause c))"
proof -
  let ?c = "fst (closeWithCause cause c)"
  have frame: "requests ?c = requests c" "running ?c = running c" "reqSeq ?c = reqSeq c" "next_ctx ?c = next_ctx c"
    by (simp_all add: closeWithCause_def)
  have "ctxs ?c p = None" if p: "next_ctx c \<le> p" for p
  proof -
    have "p \<notin> set (map (\<lambda>(i, req). if_cancel req) (requests c))"
    proof
      assume "p \<in> set (map (\<lambda>(i, req). if_cancel req) (requests c))"
      then obtain i f where "(i, f) \<in> set (requests c)" "if_cancel f = p" by auto
      moreover have "gm_wf (requests c)" using inv by (simp add: req_inv_def table_inv_def)
      ultimately show False using entry_ctx_bound [OF inv, of i f] p by (simp add: gm_mem_iff)
    qed
    moreover have "ctxs c p = None" using inv p by (simp add: req_inv_def run_inv_def)
    ultimately show ?thesis by (auto simp: closeWithCause_def fold_ctx_cancel)
  qed
  then show ?thesis
    using inv close_cancels_all [OF inv] by (auto simp: req_inv_def table_inv_def run_inv_def live_inv_def frame)
qed

lemma req_inv_newConn: "req_inv (newConn i)"
  by (simp add: newConn_def req_inv_def table_inv_def run_inv_def live_inv_def)

text \<open>Each step consumes at most one token.\<close>

lemma reqSeq_step:
  assumes "conn_step c c'" "unat (reqSeq c) < 2 ^ 64 - 1"
  shows "unat (reqSeq c') \<le> Suc (unat (reqSeq c))"
  using assms
proof (induction rule: conn_step.induct)
  case (cs_begin i meth sub t c c' r)
  then show ?case using unat_seq_Suc [of "reqSeq c"]
    by (cases "closed c") (auto simp: begin_open begin_closed)
next
  case (cs_refresh c i meth t)
  then show ?case using unat_seq_Suc [of "reqSeq c"]
    by (auto simp: begin_refresh_eq split: option.splits)
qed (auto simp: cancelRequest_def closeWithCause_def split: option.splits)

lemma req_inv_step:
  "conn_step c c' \<Longrightarrow> unat (reqSeq c) < 2 ^ 64 - 1 \<Longrightarrow> req_inv c \<Longrightarrow> req_inv c'"
  by (induction rule: conn_step.induct)
    (simp_all add: req_inv_begin req_inv_refresh req_inv_finish req_inv_cancelRequest req_inv_close)

lemma req_inv_steps:
  "(conn_step ^^ n) (newConn k) c \<Longrightarrow> n < 2 ^ 64 - 1 \<Longrightarrow> req_inv c \<and> unat (reqSeq c) \<le> n"
proof (induction n arbitrary: c)
  case 0
  then have "c = newConn k" by auto
  moreover have "reqSeq (newConn k) = 0" by (simp add: newConn_def)
  ultimately show ?case by (simp add: req_inv_newConn)
next
  case (Suc n)
  then obtain b where b: "(conn_step ^^ n) (newConn k) b" and s: "conn_step b c" by auto
  have "req_inv b" "unat (reqSeq b) \<le> n" using Suc.IH [OF b] Suc.prems(2) by simp_all
  moreover from this have "unat (reqSeq b) < 2 ^ 64 - 1" using Suc.prems(2) by simp
  ultimately show ?case
    using req_inv_step [OF s] reqSeq_step [OF s] by (meson le_trans Suc_le_mono)
qed

section \<open>Slots over all connections\<close>

text \<open>
  The slots of a server with any number of connections: the semaphore of each connection, the
  server's, and the connections whose handlers hold a slot, one entry per running handler.
\<close>

record slots =
  conn_sems :: "u64 \<Rightarrow> sem"
  server_sem :: sem
  holders :: "u64 list"

definition slots_init :: "int \<Rightarrow> int \<Rightarrow> slots" where
  "slots_init mc ms = \<lparr>conn_sems = (\<lambda>_. make_sem mc), server_sem = make_sem ms, holders = []\<rparr>"

definition slot_acquire :: "u64 \<Rightarrow> slots \<Rightarrow> slots \<times> bool" where
  "slot_acquire k s =
     (case acquireRequestSlot (conn_sems s k, server_sem s) of ((cs, ss), ok) \<Rightarrow>
        (s\<lparr>conn_sems := (conn_sems s)(k := cs), server_sem := ss,
           holders := (if ok then k # holders s else holders s)\<rparr>, ok))"

definition slot_release :: "u64 \<Rightarrow> slots \<Rightarrow> slots" where
  "slot_release k s =
     (case releaseRequestSlot (conn_sems s k, server_sem s) of (cs, ss) \<Rightarrow>
        s\<lparr>conn_sems := (conn_sems s)(k := cs), server_sem := ss, holders := remove1 k (holders s)\<rparr>)"

inductive slot_step :: "slots \<Rightarrow> slots \<Rightarrow> bool" where
  slot_dispatch: "slot_step s (fst (slot_acquire k s))"
| slot_done: "k \<in> set (holders s) \<Longrightarrow> slot_step s (slot_release k s)"

text \<open>The semaphore of a cap \<open>m\<close> while \<open>n\<close> handlers hold a slot of it.\<close>

definition sem_inv :: "int \<Rightarrow> nat \<Rightarrow> sem \<Rightarrow> bool" where
  "sem_inv m n s \<longleftrightarrow> (if m > 0 then s = Some (nat m, n) \<and> int n \<le> m else s = None)"

definition slots_inv :: "int \<Rightarrow> int \<Rightarrow> slots \<Rightarrow> bool" where
  "slots_inv mc ms s \<longleftrightarrow> (\<forall>k. sem_inv mc (count_list (holders s) k) (conn_sems s k)) \<and>
     sem_inv ms (length (holders s)) (server_sem s)"

lemma try_acquire_inv:
  "sem_inv m n s \<Longrightarrow> try_acquire s =
     (if m > 0 \<and> int n = m then None else Some (if m > 0 then Some (nat m, Suc n) else None))"
  by (auto simp: sem_inv_def split: if_splits)

lemma sem_inv_Suc: "sem_inv m n s \<Longrightarrow> \<not> (m > 0 \<and> int n = m) \<Longrightarrow>
    sem_inv m (Suc n) (if m > 0 then Some (nat m, Suc n) else None)"
  by (auto simp: sem_inv_def split: if_splits)

lemma sem_inv_release: "sem_inv m (Suc n) s \<Longrightarrow> sem_inv m n (release s)"
  by (auto simp: sem_inv_def split: if_splits)

lemma slot_acquire_refused:
  assumes "slots_inv mc ms s" "\<not> snd (slot_acquire k s)"
  shows "fst (slot_acquire k s) = s"
proof -
  have c: "sem_inv mc (count_list (holders s) k) (conn_sems s k)" using assms(1) by (simp add: slots_inv_def)
  have "release (if mc > 0 then Some (nat mc, Suc (count_list (holders s) k)) else None) = conn_sems s k"
    using c by (auto simp: sem_inv_def split: if_splits)
  then show ?thesis
    using assms(2)
    by (auto simp: slot_acquire_def acquireRequestSlot_def try_acquire_inv [OF c] fun_upd_idem
        split: option.splits if_splits)
qed

lemma slot_acquire_ok:
  assumes "slots_inv mc ms s"
  shows "snd (slot_acquire k s) \<longleftrightarrow>
    (mc > 0 \<longrightarrow> int (count_list (holders s) k) < mc) \<and> (ms > 0 \<longrightarrow> int (length (holders s)) < ms)"
proof -
  have c: "sem_inv mc (count_list (holders s) k) (conn_sems s k)" and g: "sem_inv ms (length (holders s)) (server_sem s)"
    using assms by (simp_all add: slots_inv_def)
  have "mc > 0 \<Longrightarrow> int (count_list (holders s) k) \<le> mc" "ms > 0 \<Longrightarrow> int (length (holders s)) \<le> ms"
    using c g by (auto simp: sem_inv_def)
  then show ?thesis
    by (auto simp: slot_acquire_def acquireRequestSlot_def try_acquire_inv [OF c] try_acquire_inv [OF g])
qed

lemma slots_inv_acquire:
  assumes inv: "slots_inv mc ms s"
  shows "slots_inv mc ms (fst (slot_acquire k s))"
proof (cases "snd (slot_acquire k s)")
  case True
  have c: "sem_inv mc (count_list (holders s) k) (conn_sems s k)" and g: "sem_inv ms (length (holders s)) (server_sem s)"
    using inv by (simp_all add: slots_inv_def)
  have free: "\<not> (mc > 0 \<and> int (count_list (holders s) k) = mc)" "\<not> (ms > 0 \<and> int (length (holders s)) = ms)"
    using True slot_acquire_ok [OF inv, of k] by auto
  have eq: "fst (slot_acquire k s) = s\<lparr>conn_sems := (conn_sems s)
        (k := if mc > 0 then Some (nat mc, Suc (count_list (holders s) k)) else None),
      server_sem := if ms > 0 then Some (nat ms, Suc (length (holders s))) else None, holders := k # holders s\<rparr>"
    using free by (simp only: slot_acquire_def acquireRequestSlot_def fst_conv snd_conv
        try_acquire_inv [OF c] try_acquire_inv [OF g] if_False option.case prod.case if_True simp_thms)
  show ?thesis unfolding eq
    using inv sem_inv_Suc [OF c free(1)] sem_inv_Suc [OF g free(2)] by (auto simp: slots_inv_def split: if_splits)
next
  case False
  then show ?thesis using slot_acquire_refused [OF inv False] inv by simp
qed

lemma count_list_remove1: "count_list (remove1 k xs) j = (if j = k then count_list xs j - 1 else count_list xs j)"
proof (induction xs)
  case (Cons a xs)
  then show ?case
    by (cases "k \<in> set xs") (auto simp: Suc_diff_le count_list_0_iff Suc_le_eq neq0_conv [symmetric])
qed simp

lemma slots_inv_release:
  assumes inv: "slots_inv mc ms s" and k: "k \<in> set (holders s)"
  shows "slots_inv mc ms (slot_release k s)"
proof -
  obtain n where n: "count_list (holders s) k = Suc n"
    using k by (metis count_list_0_iff not0_implies_Suc)
  obtain l where l: "length (holders s) = Suc l"
    using k by (cases "holders s") auto
  have "sem_inv mc (Suc n) (conn_sems s k)" using inv n unfolding slots_inv_def by metis
  then show ?thesis
    using inv sem_inv_release [of mc n "conn_sems s k"] sem_inv_release [of ms l "server_sem s"] n l k
    by (auto simp: slots_inv_def slot_release_def releaseRequestSlot_def count_list_remove1 length_remove1)
qed

lemma slots_inv_step: "slot_step s t \<Longrightarrow> slots_inv mc ms s \<Longrightarrow> slots_inv mc ms t"
  by (induction rule: slot_step.induct) (auto intro: slots_inv_acquire slots_inv_release)

interpretation slot_ts: trans_sys "\<lambda>s. s = slots_init mc ms" slot_step "slots_inv mc ms" for mc ms
proof
  show "slots_inv mc ms s" if "s = slots_init mc ms" for s
    using that by (simp add: slots_init_def slots_inv_def sem_inv_def make_sem_def)
qed (rule slots_inv_step)

section \<open>The read loop and the auth gate\<close>

text \<open>
  The read loop of a transport: each message in turn, closing the connection where the handling
  of a message asks for it. The result collects the frames and the actions.
\<close>

fun read_messages ::
  "server_cfg \<Rightarrow> 'v wire \<Rightarrow> (string \<Rightarrow> 'v hook_result) \<Rightarrow> (int \<times> incoming option) list \<Rightarrow> conn \<Rightarrow> sem \<times> sem \<Rightarrow>
     conn \<times> (sem \<times> sem) \<times> 'v frame list \<times> action list" where
  "read_messages s w hook [] c sl = (c, sl, [], [])"
| "read_messages s w hook ((now, data) # ms) c sl =
     (case handleIncomingMessage s w hook now data c sl of (c1, sl1, fs, as) \<Rightarrow>
        (let c2 = (if Close_Conn \<in> set as then fst (closeWithCause ErrConnectionClosed c1) else c1)
         in case read_messages s w hook ms c2 sl1 of (c3, sl2, fs', as') \<Rightarrow> (c3, sl2, fs @ fs', as @ as')))"

text \<open>An auth frame whose token the hook accepts.\<close>

definition accepted_auth :: "(string \<Rightarrow> 'v hook_result) \<Rightarrow> incoming option \<Rightarrow> bool" where
  "accepted_auth hook data \<longleftrightarrow>
     (case data of None \<Rightarrow> False | Some msg \<Rightarrow> msg_type msg = TypeAuth \<and> hook (msg_token msg) = Accept)"

lemma gate_one:
  assumes "authRequired s" "\<not> authenticated c" "\<not> accepted_auth hook data"
    and "handleIncomingMessage s w hook now data c sl = (c', sl', fs, as)"
  shows "c' = c \<and> sl' = sl \<and> set as \<subseteq> {Close_Conn}"
  using assms
  by (auto simp: handleIncomingMessage_def handleAuth_def accepted_auth_def authRequired_def authEnabled_def
      split: option.splits if_splits hook_result.splits prod.splits)

lemma close_frame [simp]:
  "requests (fst (closeWithCause cause c)) = requests c" "running (fst (closeWithCause cause c)) = running c"
  "authenticated (fst (closeWithCause cause c)) = authenticated c"
  by (simp_all add: closeWithCause_def)

lemma gate_all:
  assumes "authRequired s" "\<not> authenticated c" "\<forall>m\<in>set ms. \<not> accepted_auth hook (snd m)"
    and "read_messages s w hook ms c sl = (c', sl', fs, as)"
  shows "\<not> authenticated c' \<and> requests c' = requests c \<and> running c' = running c \<and> sl' = sl \<and> set as \<subseteq> {Close_Conn}"
  using assms
proof (induction s w hook ms c sl arbitrary: c' sl' fs as rule: read_messages.induct)
  case (2 s w hook now data ms c sl)
  obtain c1 sl1 fs1 as1 where h: "handleIncomingMessage s w hook now data c sl = (c1, sl1, fs1, as1)"
    by (metis prod_cases4)
  have g: "c1 = c" "sl1 = sl" "set as1 \<subseteq> {Close_Conn}"
    using gate_one [OF 2(2,3) _ h] 2(4) by simp_all
  define c2 where "c2 = (if Close_Conn \<in> set as1 then fst (closeWithCause ErrConnectionClosed c1) else c1)"
  obtain c3 sl2 fs' as' where r: "read_messages s w hook ms c2 sl1 = (c3, sl2, fs', as')"
    by (metis prod_cases4)
  have res: "c' = c3" "sl' = sl2" "as = as1 @ as'"
    using 2(5) h r by (simp_all add: c2_def Let_def)
  have c2: "\<not> authenticated c2" "requests c2 = requests c" "running c2 = running c"
    using 2(3) g(1) by (simp_all add: c2_def)
  have "\<not> authenticated c3 \<and> requests c3 = requests c2 \<and> running c3 = running c2 \<and> sl2 = sl1 \<and> set as' \<subseteq> {Close_Conn}"
    by (rule 2(1) [OF h [symmetric] refl refl c2_def 2(2) c2(1)]) (use 2(4) r in auto)
  with g c2 res show ?case by auto
qed simp

section \<open>Properties\<close>

text \<open>
  Property C6. After any sequence of fewer than \<open>2 ^ 64 - 1\<close> dispatches, refreshes, completions,
  cancels and closes, every running request is reachable by cancellation: a cancel or unsubscribe
  frame for its ID leaves none of the requests running under that ID uncancelled, the close of the
  connection leaves none of its requests uncancelled, and on a closed connection all are already.
\<close>

theorem requests_stay_cancellable:
  assumes "(conn_step ^^ n) (newConn k) c" and "n < 2 ^ 64 - 1"
  shows "(\<forall>r\<in>set (running c). reg_id r = i \<longrightarrow> ctx_canceled (ctxs (cancelRequest i c)) (reg_ctx r)) \<and>
    (\<forall>r\<in>set (running c). ctx_canceled (ctxs (fst (closeWithCause cause c))) (reg_ctx r)) \<and>
    (closed c \<longrightarrow> (\<forall>r\<in>set (running c). ctx_canceled (ctxs c) (reg_ctx r)))"
proof -
  have inv: "req_inv c" using req_inv_steps [OF assms] by simp
  have "ctx_canceled (ctxs (cancelRequest (reg_id r) c)) (reg_ctx r)" if "r \<in> set (running c)" for r
  proof (cases "ctx_canceled (ctxs c) (reg_ctx r)")
    case True
    then show ?thesis by (auto simp: cancelRequest_def ctx_cancel_mono split: option.split)
  next
    case False
    then obtain f where "map_of (requests c) (reg_id r) = Some f" "if_cancel f = reg_ctx r"
      using inv \<open>r \<in> set (running c)\<close> by (auto simp: req_inv_def live_inv_def)
    then show ?thesis by (auto simp: cancelRequest_def)
  qed
  moreover have "closed c \<Longrightarrow> r \<in> set (running c) \<Longrightarrow> ctx_canceled (ctxs c) (reg_ctx r)" for r
    using inv by (auto simp: req_inv_def live_inv_def)
  ultimately show ?thesis using close_cancels_all [OF inv] by auto
qed

text \<open>Two requests under one ID: the second shadows the first.\<close>

definition conn_shadow :: conn where
  "conn_shadow =
     (case beginRequest ''1'' ''Photos.List'' False 0 (newConn 9) of (c1, r1) \<Rightarrow>
        case beginRequest ''1'' ''Photos.List'' False 5 (spawn r1 c1) of (c2, r2) \<Rightarrow> spawn r2 c2)"

lemma conn_shadow_reachable: "(conn_step ^^ 2) (newConn 9) conn_shadow"
proof -
  obtain c1 r1 where b1: "beginRequest ''1'' ''Photos.List'' False 0 (newConn 9) = (c1, r1)" by fastforce
  obtain c2 r2 where b2: "beginRequest ''1'' ''Photos.List'' False 5 (spawn r1 c1) = (c2, r2)" by fastforce
  have "conn_step (newConn 9) (spawn r1 c1)" "conn_step (spawn r1 c1) conn_shadow"
    using cs_begin [OF b1] cs_begin [OF b2] b1 b2 by (simp_all add: conn_shadow_def)
  then show ?thesis by (auto simp: numeral_2_eq_2 relcompp.relcompI)
qed

lemma conn_shadow_running:
  "running conn_shadow = [\<lparr>reg_id = ''1'', reg_ctx = 0, reg_seq = 1\<rparr>, \<lparr>reg_id = ''1'', reg_ctx = 1, reg_seq = 2\<rparr>]"
  by (simp add: conn_shadow_def beginRequest_def new_ctx_def registerRequest_def newConn_def Let_def spawn_def
      cancel_ctx_def)

theorem requests_stay_cancellable_witness:
  "ctx_canceled (ctxs (cancelRequest ''1'' conn_shadow)) 1 \<and>
   ctx_canceled (ctxs (fst (closeWithCause ErrServerShutdown conn_shadow))) 1"
  using requests_stay_cancellable [OF conn_shadow_reachable, of "''1''" ErrServerShutdown]
  by (simp add: conn_shadow_running)

text \<open>
  Property C20. The end of a shadowed request leaves its replacement alone: when two requests run
  under one ID, finishing one of them neither cancels the other nor removes its table entry, so a
  later cancel frame still reaches it.
\<close>

theorem finish_keeps_replacement:
  assumes "(conn_step ^^ n) (newConn k) c" and "n < 2 ^ 64 - 1"
    and "r \<in> set (running c)" "r' \<in> set (running c)" "r' \<noteq> r"
    and "\<not> ctx_canceled (ctxs c) (reg_ctx r')"
  shows "\<not> ctx_canceled (ctxs (fst (finish_request r c))) (reg_ctx r') \<and>
    (\<exists>f. map_of (requests (fst (finish_request r c))) (reg_id r') = Some f \<and> if_cancel f = reg_ctx r' \<and>
         if_seq f = reg_seq r')"
proof -
  have inv: "req_inv c" using req_inv_steps [OF assms(1,2)] by simp
  have inv': "req_inv (fst (finish_request r c))" by (rule req_inv_finish [OF inv assms(3)])
  have "reg_ctx r' \<noteq> reg_ctx r"
    using run_ctx_inject [of c r' r] inv assms(3-5) by (auto simp: req_inv_def)
  then have live: "\<not> ctx_canceled (ctxs (fst (finish_request r c))) (reg_ctx r')"
    using assms(6) by (simp add: ctx_canceled_def)
  moreover have "r' \<in> set (running (fst (finish_request r c)))"
    using inv assms(4,5) by (simp add: req_inv_def set_remove1_run)
  ultimately show ?thesis using inv' unfolding req_inv_def live_inv_def by blast
qed

theorem finish_keeps_replacement_witness:
  "\<not> ctx_canceled (ctxs (fst (finish_request \<lparr>reg_id = ''1'', reg_ctx = 0, reg_seq = 1\<rparr> conn_shadow))) 1"
proof -
  have "\<not> ctx_canceled (ctxs conn_shadow) 1"
    by (simp add: conn_shadow_def beginRequest_def new_ctx_def registerRequest_def newConn_def Let_def spawn_def
        cancel_ctx_def ctx_canceled_def ctx_cancel_def)
  then show ?thesis
    using finish_keeps_replacement [OF conn_shadow_reachable, of "\<lparr>reg_id = ''1'', reg_ctx = 0, reg_seq = 1\<rparr>"
        "\<lparr>reg_id = ''1'', reg_ctx = 1, reg_seq = 2\<rparr>"]
    by (simp add: conn_shadow_running)
qed

text \<open>
  A server-driven refresh never cancels a client's own request: when one is running
  under the subscription's ID, the refresh is not started, no running request is cancelled, and the
  request is marked so that its end reports the refresh as due; otherwise the refresh is registered
  and supersedes an older refresh only.
\<close>

theorem refresh_defers_to_client_request:
  assumes inv: "req_inv c" and cur: "map_of (requests c) i = Some cur" "\<not> if_refresh cur" "\<not> closed c"
    and owner: "r \<in> set (running c)" "reg_id r = i" "reg_seq r = if_seq cur"
  shows "running (begin_refresh i meth t c) = running c \<and>
    (\<forall>q<next_ctx c. ctxs (begin_refresh i meth t c) q = ctxs c q) \<and>
    snd (finish_request r (begin_refresh i meth t c))"
proof -
  have "if_seq cur \<noteq> 0" using inv cur(1) by (auto simp: req_inv_def table_inv_def)
  then show ?thesis
    using cur owner by (auto simp: begin_refresh_eq finish_request_def unregisterRequest_def split: if_splits)
qed

theorem refresh_defers_to_client_request_witness:
  "snd (finish_request \<lparr>reg_id = ''1'', reg_ctx = 1, reg_seq = 2\<rparr> (begin_refresh ''1'' ''Photos.List'' 7 conn_shadow))"
proof -
  let ?cur = "\<lparr>if_seq = 2, if_cancel = 1, if_method = ''Photos.List'', if_subscribe = False,
      if_started = 5, if_refresh = False, if_refreshAgain = False\<rparr>"
  have "req_inv conn_shadow" using req_inv_steps [OF conn_shadow_reachable] by simp
  moreover have "map_of (requests conn_shadow) ''1'' = Some ?cur" "\<not> closed conn_shadow"
    by (simp_all add: conn_shadow_def beginRequest_def new_ctx_def registerRequest_def newConn_def Let_def spawn_def
        cancel_ctx_def)
  ultimately show ?thesis
    using refresh_defers_to_client_request [of conn_shadow "''1''" ?cur "\<lparr>reg_id = ''1'', reg_ctx = 1, reg_seq = 2\<rparr>"]
    by (simp add: conn_shadow_running)
qed

text \<open>
  Property C14. The caps on concurrent requests hold at all times: over any interleaving of
  dispatches and completions on any number of connections, no connection runs more handlers than
  \<open>MaxConcurrentRequests\<close> and the server no more than \<open>MaxServerConcurrentRequests\<close> (a cap that is
  not positive is off); a dispatch is admitted exactly when both caps leave room, and a refused one
  leaves no slot taken.
\<close>

theorem request_slots_bounded:
  assumes "slot_step\<^sup>*\<^sup>* (slots_init mc ms) s"
  shows "(mc > 0 \<longrightarrow> int (count_list (holders s) k) \<le> mc) \<and> (ms > 0 \<longrightarrow> int (length (holders s)) \<le> ms) \<and>
    (snd (slot_acquire k s) \<longleftrightarrow>
      (mc > 0 \<longrightarrow> int (count_list (holders s) k) < mc) \<and> (ms > 0 \<longrightarrow> int (length (holders s)) < ms)) \<and>
    (\<not> snd (slot_acquire k s) \<longrightarrow> fst (slot_acquire k s) = s)"
proof -
  have inv: "slots_inv mc ms s" by (rule slot_ts.inv_reachable [OF refl assms])
  have "mc > 0 \<Longrightarrow> int (count_list (holders s) k) \<le> mc" "ms > 0 \<Longrightarrow> int (length (holders s)) \<le> ms"
    using inv by (auto simp: slots_inv_def sem_inv_def)
  then show ?thesis using slot_acquire_ok [OF inv, of k] slot_acquire_refused [OF inv, of k] by blast
qed

theorem request_slots_bounded_witness:
  "\<not> snd (slot_acquire 4 (fst (slot_acquire 4 (slots_init 1 3))))"
proof -
  have r: "slot_step\<^sup>*\<^sup>* (slots_init 1 3) (fst (slot_acquire 4 (slots_init 1 3)))"
    by (rule r_into_rtranclp) (rule slot_dispatch)
  have "holders (fst (slot_acquire 4 (slots_init 1 3))) = [4]"
    by (simp add: slot_acquire_def slots_init_def acquireRequestSlot_def make_sem_def)
  then show ?thesis using request_slots_bounded [OF r, of 4] by simp
qed

text \<open>
  Property C8. The auth gate: on a connection that has to authenticate, whatever frames arrive, as
  long as none of them is an auth frame with an accepted token, no handler is started, nothing is
  cancelled or unsubscribed, the request table and the slots stay as they were, and the connection
  stays unauthenticated; the only reaction besides frames is closing the connection.
\<close>

theorem auth_gate:
  assumes "authRequired s" and "\<not> authenticated c"
    and "\<forall>m\<in>set ms. \<not> accepted_auth hook (snd m)"
    and "read_messages s w hook ms c sl = (c', sl', fs, as)"
  shows "\<not> authenticated c' \<and> requests c' = requests c \<and> running c' = running c \<and> sl' = sl \<and>
    set as \<subseteq> {Close_Conn}"
  by (rule gate_all [OF assms])

definition cfg_auth :: server_cfg where
  "cfg_auth = \<lparr>hasAuthHook = True, AllowAnonymous = False, registry_get = (\<lambda>_. Some HandlerKindUnary)\<rparr>"

definition msg_req :: incoming where
  "msg_req = \<lparr>msg_type = TypeRequest, msg_id = ''1'', msg_method = ''A.B'', msg_params = ''[]'',
     msg_token = [], msg_patch = False\<rparr>"

definition msg_auth :: incoming where
  "msg_auth = \<lparr>msg_type = TypeAuth, msg_id = [], msg_method = [], msg_params = [],
     msg_token = ''bad'', msg_patch = False\<rparr>"

definition hook_secret :: "string \<Rightarrow> int hook_result" where
  "hook_secret token = (if token = ''secret'' then Accept else Reject (OtherError 3 ''sql: no rows'' []))"

theorem auth_gate_witness:
  "set (snd (snd (snd (read_messages cfg_auth example_wire hook_secret
     [(0, Some msg_req), (1, Some msg_auth), (2, Some msg_req)] (newConn 1) (None, None))))) \<subseteq> {Close_Conn}"
proof -
  let ?ms = "[(0, Some msg_req), (1, Some msg_auth), (2, Some msg_req)]"
  obtain c' sl' fs as where
    r: "read_messages cfg_auth example_wire hook_secret ?ms (newConn 1) (None, None) = (c', sl', fs, as)"
    by (metis prod_cases4)
  have "authRequired cfg_auth" "\<not> authenticated (newConn 1)"
    "\<forall>m\<in>set ?ms. \<not> accepted_auth hook_secret (snd m)"
    by (simp_all add: authRequired_def cfg_auth_def newConn_def accepted_auth_def msg_req_def msg_auth_def
        hook_secret_def)
  from auth_gate [OF this r] show ?thesis using r by simp
qed

text \<open>
  The outcome of an auth frame: an accepted token authenticates the connection, stops
  the pending-auth timer and is answered by \<open>auth_ok\<close>; a rejected one is answered by \<open>auth_error\<close>
  and closes the connection exactly when it is not authenticated yet, so a live session survives a
  failed refresh. The text of an error that is not a \<open>*ProtocolError\<close>, or of a panic, is never sent.
\<close>

theorem handleAuth_outcomes:
  assumes "hasAuthHook s" and "\<not> closed c" and "handleAuth s w hook token c = (c', fs, as)"
  shows "case hook token of
      Accept \<Rightarrow> authenticated c' \<and> (\<not> authenticated c \<longrightarrow> \<not> authTimer c') \<and> fs = [AuthOK] \<and> as = []
    | Reject (ProtocolError a code m ca d) \<Rightarrow>
        c' = c \<and> fs = (if utf8_valid m then [AuthError m False] else []) \<and>
        as = (if authenticated c then [] else [Close_Conn])
    | _ \<Rightarrow> c' = c \<and> fs = [AuthError ''authentication failed'' False] \<and>
        as = (if authenticated c then [] else [Close_Conn])"
proof -
  have "utf8_valid ''authentication failed''" by (simp add: utf8_valid_ascii_Cons byte_def)
  then show ?thesis
    using assms by (auto simp: handleAuth_def authEnabled_def sendAuthOK_def sendAuthError_def sendJSON_def
        stopAuthTimer_def str_err_def split: hook_result.splits go_error.splits if_splits)
qed

theorem handleAuth_outcomes_witness:
  "fst (snd (handleAuth cfg_auth example_wire hook_secret ''bad'' (newConn 1))) =
     [AuthError ''authentication failed'' False]"
proof -
  obtain c' fs as where r: "handleAuth cfg_auth example_wire hook_secret ''bad'' (newConn 1) = (c', fs, as)"
    by (metis prod_cases3)
  have "hasAuthHook cfg_auth" "\<not> closed (newConn 1)" by (simp_all add: cfg_auth_def newConn_def)
  from handleAuth_outcomes [OF this r] show ?thesis using r by (simp add: hook_secret_def)
qed

end
