(* ===== verification/Aprot_Subscriptions.thy ===== *)
theory Aprot_Subscriptions
  imports Aprot_Prelude
begin

text \<open>
  The subscription manager of \<open>subscription.go\<close>: the two indexes of the active subscriptions
  (by trigger key and by connection), every operation on them, the trigger collector and the
  refresh queue.

  A \<open>*subscription\<close> is an address of the store \<open>sm_heap\<close>, because the indexes share the objects
  and \<open>updateKeys\<close> / \<open>updateParams\<close> mutate them in place. A \<open>*Conn\<close> is identified by its
  connection ID, which is what \<open>byConn\<close> is keyed by. Each operation runs under \<open>sm.mu\<close> from its
  first to its last access of the indexes, so it is one atomic step. Operations that notify the
  observer after releasing the lock return the subscriptions to notify.
\<close>

section \<open>State\<close>

record subscription =
  sub_conn :: conn_ptr
  sub_id :: string
  sub_method :: string
  sub_keys :: "string list"
  sub_params :: string
  wantsPatch :: bool

record subscriptionManager =
  byKey :: "(string, sub_ptr) goindex"
  byConn :: "(u64, (string, sub_ptr) gomap) gomap"
  sm_heap :: "sub_ptr \<Rightarrow> subscription"
  sm_next :: sub_ptr

definition nil_subscription :: subscription where
  "nil_subscription = \<lparr>sub_conn = 0, sub_id = [], sub_method = [], sub_keys = [],
     sub_params = [], wantsPatch = False\<rparr>"

definition newSubscriptionManager :: subscriptionManager where
  "newSubscriptionManager =
     \<lparr>byKey = [], byConn = [], sm_heap = (\<lambda>_. nil_subscription), sm_next = 0\<rparr>"

text \<open>\<open>&subscription{...}\<close>: a fresh object.\<close>

definition new_subscription ::
  "subscription \<Rightarrow> subscriptionManager \<Rightarrow> sub_ptr \<times> subscriptionManager" where
  "new_subscription sub sm =
     (sm_next sm, sm\<lparr>sm_heap := (sm_heap sm)(sm_next sm := sub), sm_next := Suc (sm_next sm)\<rparr>)"

section \<open>Operations\<close>

definition conn_subs :: "subscriptionManager \<Rightarrow> u64 \<Rightarrow> (string, sub_ptr) gomap" where
  "conn_subs sm connID = (case map_of (byConn sm) connID of None \<Rightarrow> [] | Some m \<Rightarrow> m)"

text \<open>
  \<open>maxSubs\<close> is \<open>sub.conn.server.options.MaxSubscriptions\<close>, \<open>None\<close> for a connection without a server;
  \<open>closed\<close> is \<open>sub.conn.isClosed()\<close>, read under \<open>sm.mu\<close>. The result is the new state, \<open>ok\<close> and
  \<open>limited\<close>.
\<close>

definition register ::
  "int option \<Rightarrow> bool \<Rightarrow> sub_ptr \<Rightarrow> subscriptionManager \<Rightarrow> subscriptionManager \<times> bool \<times> bool" where
  "register maxSubs closed p sm =
     (if closed then (sm, False, False)
      else
        let sub = sm_heap sm p;
            connID = sub_conn sub;
            existing = conn_subs sm connID
        in if (case maxSubs of None \<Rightarrow> False
               | Some mx \<Rightarrow> mx > 0 \<and> map_of existing (sub_id sub) = None \<and> int (length existing) \<ge> mx)
           then (sm, False, True)
           else (sm\<lparr>byConn := AList.update connID (AList.update (sub_id sub) p existing) (byConn sm),
                    byKey := fold (\<lambda>k. idx_add k p) (sub_keys sub) (byKey sm)\<rparr>, True, False))"

definition unregister ::
  "u64 \<Rightarrow> string \<Rightarrow> subscriptionManager \<Rightarrow> subscriptionManager \<times> sub_ptr list" where
  "unregister connID subID sm =
     (case map_of (byConn sm) connID of
        None \<Rightarrow> (sm, [])
      | Some connSubs \<Rightarrow>
          (case map_of connSubs subID of
             None \<Rightarrow> (sm, [])
           | Some p \<Rightarrow>
               (let connSubs' = AList.delete subID connSubs
                in (sm\<lparr>byKey := fold (\<lambda>k. idx_remove k p) (sub_keys (sm_heap sm p)) (byKey sm),
                       byConn := (if connSubs' = [] then AList.delete connID (byConn sm)
                                  else AList.update connID connSubs' (byConn sm))\<rparr>, [p]))))"

definition drop_keys :: "subscriptionManager \<Rightarrow> sub_ptr list \<Rightarrow> (string, sub_ptr) goindex \<Rightarrow>
    (string, sub_ptr) goindex" where
  "drop_keys sm ps ix =
     fold (\<lambda>p ix. fold (\<lambda>k. idx_remove k p) (sub_keys (sm_heap sm p)) ix) ps ix"

definition unregisterConn ::
  "u64 \<Rightarrow> subscriptionManager \<Rightarrow> subscriptionManager \<times> sub_ptr list" where
  "unregisterConn connID sm =
     (case map_of (byConn sm) connID of
        None \<Rightarrow> (sm, [])
      | Some connSubs \<Rightarrow>
          (let removed = map snd connSubs
           in (sm\<lparr>byKey := drop_keys sm removed (byKey sm),
                  byConn := AList.delete connID (byConn sm)\<rparr>, removed)))"

definition get :: "subscriptionManager \<Rightarrow> u64 \<Rightarrow> string \<Rightarrow> sub_ptr option" where
  "get sm connID subID = map_of (conn_subs sm connID) subID"

definition has :: "subscriptionManager \<Rightarrow> u64 \<Rightarrow> string \<Rightarrow> bool" where
  "has sm connID subID =
     (case map_of (byConn sm) connID of
        None \<Rightarrow> False | Some connSubs \<Rightarrow> map_of connSubs subID \<noteq> None)"

definition updateKeys ::
  "u64 \<Rightarrow> string \<Rightarrow> string list \<Rightarrow> subscriptionManager \<Rightarrow> subscriptionManager" where
  "updateKeys connID subID newKeys sm =
     (case map_of (byConn sm) connID of
        None \<Rightarrow> sm
      | Some connSubs \<Rightarrow>
          (case map_of connSubs subID of
             None \<Rightarrow> sm
           | Some p \<Rightarrow>
               (let ix = fold (\<lambda>k. idx_remove k p) (sub_keys (sm_heap sm p)) (byKey sm)
                in sm\<lparr>sm_heap := (sm_heap sm)(p := (sm_heap sm p)\<lparr>sub_keys := newKeys\<rparr>),
                      byKey := fold (\<lambda>k. idx_add k p) newKeys ix\<rparr>)))"

definition updateParams ::
  "u64 \<Rightarrow> string \<Rightarrow> string \<Rightarrow> bool \<Rightarrow> subscriptionManager \<Rightarrow> subscriptionManager" where
  "updateParams connID subID params wants sm =
     (case map_of (byConn sm) connID of
        None \<Rightarrow> sm
      | Some connSubs \<Rightarrow>
          (case map_of connSubs subID of
             None \<Rightarrow> sm
           | Some p \<Rightarrow>
               sm\<lparr>sm_heap := (sm_heap sm)(p := (sm_heap sm p)\<lparr>sub_params := params,
                                                           wantsPatch := wants\<rparr>)\<rparr>))"

definition count :: "subscriptionManager \<Rightarrow> nat" where
  "count sm = sum_list (map (\<lambda>(c, subs). length subs) (byConn sm))"

definition getSubscriptionsForKey :: "subscriptionManager \<Rightarrow> string \<Rightarrow> sub_ptr list" where
  "getSubscriptionsForKey sm key = idx_members (byKey sm) key"

section \<open>Trigger keys and the refresh queue\<close>

definition compositeKey :: "string list \<Rightarrow> string" where
  "compositeKey keys = join [CHR 0x00] keys"

text \<open>\<open>RegisterRefreshTrigger\<close>: no collector in the context (\<open>None\<close>) makes it a no-op.\<close>

definition RegisterRefreshTrigger :: "string list \<Rightarrow> string list option \<Rightarrow> string list option" where
  "RegisterRefreshTrigger keys tc = map_option (List.insert (compositeKey keys)) tc"

text \<open>\<open>TriggerRefresh\<close>: no refresh queue in the context makes it a no-op.\<close>

definition TriggerRefresh :: "string list \<Rightarrow> string list option \<Rightarrow> string list option" where
  "TriggerRefresh keys rq = map_option (\<lambda>ks. ks @ [compositeKey keys]) rq"

text \<open>
  The loop of \<open>processRefreshQueue\<close> over the queued keys: \<open>toRefresh\<close> accumulates the unseen
  subscriptions and \<open>evs\<close> the observer's \<open>RefreshFanout(key, matched)\<close> events.
\<close>

fun refresh_targets ::
  "subscriptionManager \<Rightarrow> string list \<Rightarrow> sub_ptr list \<Rightarrow> (string \<times> nat) list \<Rightarrow>
     sub_ptr list \<times> (string \<times> nat) list" where
  "refresh_targets sm [] toRefresh evs = (toRefresh, evs)"
| "refresh_targets sm (key # keys) toRefresh evs =
     (let subs = getSubscriptionsForKey sm key
      in refresh_targets sm keys
           (fold (\<lambda>p acc. if p \<in> set acc then acc else acc @ [p]) subs toRefresh)
           (evs @ [(key, length subs)]))"

definition processRefreshQueue ::
  "subscriptionManager \<Rightarrow> string list \<Rightarrow> sub_ptr list \<times> (string \<times> nat) list" where
  "processRefreshQueue sm keys = refresh_targets sm keys [] []"

text \<open>
  \<open>Server.PatchSubscription\<close> splits the subscribers of the key: those that declared patch
  support get the frame, the others a full refresh. The result is \<open>(patched, refreshed)\<close>.
\<close>

definition patch_targets :: "subscriptionManager \<Rightarrow> string list \<Rightarrow> sub_ptr list \<times> sub_ptr list" where
  "patch_targets sm keys =
     (let subs = getSubscriptionsForKey sm (compositeKey keys)
      in (filter (\<lambda>p. wantsPatch (sm_heap sm p)) subs,
          filter (\<lambda>p. \<not> wantsPatch (sm_heap sm p)) subs))"

section \<open>The registration step of a subscribe\<close>

text \<open>
  The registration block of \<open>Conn.runSubscribe\<close>: a subscribe whose handler collected no trigger
  key registers nothing; an ID that is already registered gets new keys, params and patch
  support; a new one is registered. The result is the new state and \<open>ok\<close>, \<open>limited\<close>.
\<close>

definition subscribe_register ::
  "int option \<Rightarrow> bool \<Rightarrow> subscription \<Rightarrow> subscriptionManager \<Rightarrow>
     subscriptionManager \<times> bool \<times> bool" where
  "subscribe_register maxSubs closed sub sm =
     (if sub_keys sub = [] then (sm, True, False)
      else if has sm (sub_conn sub) (sub_id sub) then
        (updateParams (sub_conn sub) (sub_id sub) (sub_params sub) (wantsPatch sub)
          (updateKeys (sub_conn sub) (sub_id sub) (sub_keys sub) sm), True, False)
      else
        (case new_subscription sub sm of (p, sm') \<Rightarrow> register maxSubs closed p sm'))"

text \<open>
  Every way the program changes the manager: a subscribe, a server-driven refresh that collected
  new keys, an unsubscribe and the close of a connection. Whether the connection of a subscribe is
  closed is up to the environment. The membership test of a subscribe and the call it selects are
  one step here, although the code takes \<open>sm.mu\<close> once for each: two subscribes with the same ID on
  one connection are taken not to overlap in that window (the later frame cancels the earlier
  request before it starts). \<open>register_overwrite_orphans\<close> below shows what such an overlap does.
\<close>

inductive sm_step :: "int option \<Rightarrow> subscriptionManager \<Rightarrow> subscriptionManager \<Rightarrow> bool"
  for maxSubs where
  sm_subscribe: "distinct (sub_keys sub) \<Longrightarrow>
     sm_step maxSubs sm (fst (subscribe_register maxSubs closed sub sm))"
| sm_refresh: "distinct keys \<Longrightarrow> keys \<noteq> [] \<Longrightarrow> sm_step maxSubs sm (updateKeys c i keys sm)"
| sm_unsubscribe: "sm_step maxSubs sm (fst (unregister c i sm))"
| sm_close: "sm_step maxSubs sm (fst (unregisterConn c sm))"

section \<open>Invariant\<close>

text \<open>
  A registered subscription is filed under its own connection and ID; the key index holds exactly
  the registered subscriptions under exactly their keys; no bucket of either index is empty; and
  no connection holds more subscriptions than the cap.
\<close>

definition registered :: "subscriptionManager \<Rightarrow> sub_ptr \<Rightarrow> bool" where
  "registered sm p \<longleftrightarrow> get sm (sub_conn (sm_heap sm p)) (sub_id (sm_heap sm p)) = Some p"

definition conn_index_inv :: "subscriptionManager \<Rightarrow> bool" where
  "conn_index_inv sm \<longleftrightarrow>
     gm_wf (byConn sm) \<and>
     (\<forall>c m. map_of (byConn sm) c = Some m \<longrightarrow> m \<noteq> [] \<and> gm_wf m) \<and>
     (\<forall>c i p. get sm c i = Some p \<longrightarrow>
        p < sm_next sm \<and> sub_conn (sm_heap sm p) = c \<and> sub_id (sm_heap sm p) = i)"

definition key_index_inv :: "subscriptionManager \<Rightarrow> bool" where
  "key_index_inv sm \<longleftrightarrow>
     idx_wf (byKey sm) \<and>
     (\<forall>k p. p \<in> set (idx_members (byKey sm) k) \<longleftrightarrow>
        registered sm p \<and> k \<in> set (sub_keys (sm_heap sm p)))"

definition cap_inv :: "int option \<Rightarrow> subscriptionManager \<Rightarrow> bool" where
  "cap_inv maxSubs sm \<longleftrightarrow>
     (\<forall>mx c. maxSubs = Some mx \<longrightarrow> mx > 0 \<longrightarrow> int (length (conn_subs sm c)) \<le> mx)"

definition sm_inv :: "int option \<Rightarrow> subscriptionManager \<Rightarrow> bool" where
  "sm_inv maxSubs sm \<longleftrightarrow> conn_index_inv sm \<and> key_index_inv sm \<and> cap_inv maxSubs sm"

text \<open>
  The abstract specification: one finite map from (connection, ID) to the subscription. The view
  of the manager is what a lookup by connection and ID yields.
\<close>

definition sub_view :: "subscriptionManager \<Rightarrow> u64 \<times> string \<Rightarrow> subscription option" where
  "sub_view sm ci = map_option (sm_heap sm) (get sm (fst ci) (snd ci))"


section \<open>Lookups after each operation\<close>

lemma conn_subs_simps [simp]:
  "conn_subs (sm\<lparr>byKey := ix\<rparr>) c = conn_subs sm c"
  "conn_subs (sm\<lparr>sm_heap := h\<rparr>) c = conn_subs sm c"
  "conn_subs (sm\<lparr>sm_next := n\<rparr>) c = conn_subs sm c"
  by (simp_all add: conn_subs_def)

lemma get_simps [simp]:
  "get (sm\<lparr>byKey := ix\<rparr>) c i = get sm c i"
  "get (sm\<lparr>sm_heap := h\<rparr>) c i = get sm c i"
  "get (sm\<lparr>sm_next := n\<rparr>) c i = get sm c i"
  by (simp_all add: get_def)

lemma has_get: "has sm c i \<longleftrightarrow> get sm c i \<noteq> None"
  by (simp add: has_def get_def conn_subs_def split: option.splits)

lemma get_register:
  assumes "register mx closed p sm = (sm', True, l)"
  shows "get sm' c i =
     (if c = sub_conn (sm_heap sm p) \<and> i = sub_id (sm_heap sm p) then Some p else get sm c i)"
  using assms
  by (auto simp: register_def get_def conn_subs_def Let_def split: if_splits option.splits)

lemma unregister_eq:
  "unregister c i sm =
     (case get sm c i of
        None \<Rightarrow> (sm, [])
      | Some p \<Rightarrow>
          (let m = AList.delete i (conn_subs sm c)
           in (sm\<lparr>byKey := fold (\<lambda>k. idx_remove k p) (sub_keys (sm_heap sm p)) (byKey sm),
                  byConn := (if m = [] then AList.delete c (byConn sm)
                             else AList.update c m (byConn sm))\<rparr>, [p])))"
  by (simp add: unregister_def get_def conn_subs_def split: option.splits)

lemma get_unregister:
  "get (fst (unregister c i sm)) c' i' = (if c' = c \<and> i' = i then None else get sm c' i')"
proof (cases "get sm c i")
  case None
  then show ?thesis by (auto simp: unregister_eq)
next
  case (Some p)
  then obtain m where m: "map_of (byConn sm) c = Some m"
    by (auto simp: get_def conn_subs_def split: option.splits)
  have "AList.delete i m = [] \<Longrightarrow> i' \<noteq> i \<Longrightarrow> map_of m i' = None"
    using map_of_delete [of i m] by (metis fun_upd_apply map_of.simps(1))
  with Some m show ?thesis
    by (auto simp: unregister_eq get_def conn_subs_def Let_def)
qed

lemma get_unregisterConn:
  "get (fst (unregisterConn c sm)) c' i' = (if c' = c then None else get sm c' i')"
  by (auto simp: unregisterConn_def get_def conn_subs_def Let_def split: option.splits)

lemma updateKeys_eq:
  "updateKeys c i ks sm =
     (case get sm c i of
        None \<Rightarrow> sm
      | Some p \<Rightarrow>
          sm\<lparr>sm_heap := (sm_heap sm)(p := (sm_heap sm p)\<lparr>sub_keys := ks\<rparr>),
             byKey := fold (\<lambda>k. idx_add k p) ks
                        (fold (\<lambda>k. idx_remove k p) (sub_keys (sm_heap sm p)) (byKey sm))\<rparr>)"
  by (simp add: updateKeys_def get_def conn_subs_def Let_def split: option.splits)

lemma updateParams_eq:
  "updateParams c i ps w sm =
     (case get sm c i of
        None \<Rightarrow> sm
      | Some p \<Rightarrow>
          sm\<lparr>sm_heap := (sm_heap sm)(p := (sm_heap sm p)\<lparr>sub_params := ps, wantsPatch := w\<rparr>)\<rparr>)"
  by (simp add: updateParams_def get_def conn_subs_def split: option.splits)

lemma get_updateKeys [simp]: "get (updateKeys c i ks sm) c' i' = get sm c' i'"
  by (simp add: updateKeys_eq split: option.splits)

lemma get_updateParams [simp]: "get (updateParams c i ps w sm) c' i' = get sm c' i'"
  by (simp add: updateParams_eq split: option.splits)

section \<open>The indexes agree\<close>

lemma conn_index_inv_get:
  "conn_index_inv sm \<Longrightarrow> get sm c i = Some p \<Longrightarrow>
     p < sm_next sm \<and> sub_conn (sm_heap sm p) = c \<and> sub_id (sm_heap sm p) = i"
  by (simp add: conn_index_inv_def)

lemma registered_iff:
  "conn_index_inv sm \<Longrightarrow> registered sm p \<longleftrightarrow> (\<exists>c i. get sm c i = Some p)"
  by (auto simp: registered_def dest: conn_index_inv_get)

lemma get_fresh: "conn_index_inv sm \<Longrightarrow> get sm c i \<noteq> Some (sm_next sm)"
  by (auto dest: conn_index_inv_get)

lemma conn_index_inv_new:
  assumes "conn_index_inv sm"
  shows "conn_index_inv (snd (new_subscription sub sm))"
  using assms get_fresh [OF assms]
  by (fastforce simp: conn_index_inv_def new_subscription_def)

lemma key_index_inv_new:
  assumes "conn_index_inv sm" "key_index_inv sm"
  shows "key_index_inv (snd (new_subscription sub sm))"
proof -
  let ?sm' = "snd (new_subscription sub sm)"
  have fresh: "\<not> registered sm (sm_next sm)"
    using assms(1) by (simp add: registered_iff get_fresh)
  have "registered ?sm' p \<longleftrightarrow> registered sm p" for p
    using fresh get_fresh [OF assms(1)] by (auto simp: registered_def new_subscription_def)
  moreover have "\<not> registered sm p \<or> sub_keys (sm_heap ?sm' p) = sub_keys (sm_heap sm p)" for p
    using fresh by (auto simp: new_subscription_def)
  ultimately show ?thesis
    using assms(2) fresh by (auto simp: key_index_inv_def new_subscription_def)
qed

lemma conn_index_inv_register:
  assumes inv: "conn_index_inv sm" and reg: "register mx closed p sm = (sm', True, l)"
    and p: "p < sm_next sm"
  shows "conn_index_inv sm'"
proof -
  let ?c = "sub_conn (sm_heap sm p)" and ?i = "sub_id (sm_heap sm p)"
  have "gm_wf (conn_subs sm ?c)"
    using inv by (auto simp: conn_index_inv_def conn_subs_def split: option.splits)
  moreover have "byConn sm' = AList.update ?c (AList.update ?i p (conn_subs sm ?c)) (byConn sm)"
    "sm_heap sm' = sm_heap sm" "sm_next sm' = sm_next sm"
    using reg by (auto simp: register_def Let_def split: if_splits)
  moreover have "AList.update ?i p (conn_subs sm ?c) \<noteq> []"
    by (cases "conn_subs sm ?c") auto
  ultimately show ?thesis
    using inv p by (auto simp: conn_index_inv_def get_register [OF reg])
qed

lemma registered_register:
  assumes inv: "conn_index_inv sm" and reg: "register mx closed p sm = (sm', True, l)"
    and new: "get sm (sub_conn (sm_heap sm p)) (sub_id (sm_heap sm p)) = None"
  shows "registered sm' q \<longleftrightarrow> registered sm q \<or> q = p"
proof -
  have h: "sm_heap sm' = sm_heap sm"
    using reg by (auto simp: register_def Let_def split: if_splits)
  show ?thesis
    using new by (auto simp: registered_def h get_register [OF reg])
qed

lemma key_index_inv_register:
  assumes inv: "conn_index_inv sm" "key_index_inv sm"
    and reg: "register mx closed p sm = (sm', True, l)"
    and new: "get sm (sub_conn (sm_heap sm p)) (sub_id (sm_heap sm p)) = None"
  shows "key_index_inv sm'"
proof -
  have h: "sm_heap sm' = sm_heap sm"
    and k: "byKey sm' = fold (\<lambda>k. idx_add k p) (sub_keys (sm_heap sm p)) (byKey sm)"
    using reg by (auto simp: register_def Let_def split: if_splits)
  show ?thesis
    using inv(2) registered_register [OF inv(1) reg new]
    by (auto simp: key_index_inv_def h k goidx.wf_add_all goidx.mem_add_all)
qed

lemma length_conn_subs_register:
  assumes inv: "conn_index_inv sm" "cap_inv mx sm"
    and reg: "register mx closed p sm = (sm', True, l)"
  shows "cap_inv mx sm'"
proof -
  let ?c = "sub_conn (sm_heap sm p)" and ?i = "sub_id (sm_heap sm p)"
  have wf: "gm_wf (conn_subs sm ?c)"
    using inv by (auto simp: conn_index_inv_def conn_subs_def split: option.splits)
  have "conn_subs sm' c = (if c = ?c then AList.update ?i p (conn_subs sm ?c) else conn_subs sm c)" for c
    using reg by (auto simp: register_def Let_def conn_subs_def split: if_splits)
  moreover have "mx = Some m \<Longrightarrow> m > 0 \<Longrightarrow>
      map_of (conn_subs sm ?c) ?i \<noteq> None \<or> int (length (conn_subs sm ?c)) < m" for m
    using reg by (auto simp: register_def Let_def split: if_splits)
  ultimately show ?thesis
    using inv(2) gm_length_update [OF wf, of ?i p] by (fastforce simp: cap_inv_def)
qed

lemma conn_index_inv_unregister:
  assumes "conn_index_inv sm"
  shows "conn_index_inv (fst (unregister c i sm))"
proof -
  let ?sm' = "fst (unregister c i sm)"
  have "gm_wf (conn_subs sm c)"
    using assms by (auto simp: conn_index_inv_def conn_subs_def split: option.splits)
  then have "gm_wf (byConn ?sm') \<and>
      (\<forall>c m. map_of (byConn ?sm') c = Some m \<longrightarrow> m \<noteq> [] \<and> gm_wf m)"
    using assms by (auto simp: conn_index_inv_def unregister_eq Let_def split: option.splits)
  moreover have "sm_heap ?sm' = sm_heap sm" "sm_next ?sm' = sm_next sm"
    by (auto simp: unregister_eq Let_def split: option.splits)
  ultimately show ?thesis
    using assms by (auto simp: conn_index_inv_def get_unregister)
qed

lemma key_index_inv_unregister:
  assumes inv: "conn_index_inv sm" "key_index_inv sm"
  shows "key_index_inv (fst (unregister c i sm))"
proof (cases "get sm c i")
  case None
  then show ?thesis using inv by (simp add: unregister_eq)
next
  case (Some p)
  let ?sm' = "fst (unregister c i sm)"
  have p: "sub_conn (sm_heap sm p) = c" "sub_id (sm_heap sm p) = i"
    using inv(1) Some by (auto dest: conn_index_inv_get)
  have h: "sm_heap ?sm' = sm_heap sm"
    and k: "byKey ?sm' = fold (\<lambda>k. idx_remove k p) (sub_keys (sm_heap sm p)) (byKey sm)"
    using Some by (auto simp: unregister_eq Let_def)
  have "registered ?sm' q \<longleftrightarrow> registered sm q \<and> q \<noteq> p" for q
    using Some p by (auto simp: registered_def h get_unregister)
  then show ?thesis
    using inv(2) by (auto simp: key_index_inv_def h k goidx.wf_remove_all goidx.mem_remove_all)
qed

lemma idx_drop_keys:
  "set (idx_members (drop_keys sm ps ix) k) =
     set (idx_members ix k) - {p \<in> set ps. k \<in> set (sub_keys (sm_heap sm p))}"
  "idx_wf ix \<Longrightarrow> idx_wf (drop_keys sm ps ix)"
  unfolding drop_keys_def
  by (induction ps arbitrary: ix) (auto simp: goidx.mem_remove_all goidx.wf_remove_all)

lemma conn_index_inv_unregisterConn:
  assumes "conn_index_inv sm"
  shows "conn_index_inv (fst (unregisterConn c sm))"
proof -
  let ?sm' = "fst (unregisterConn c sm)"
  have "gm_wf (byConn ?sm') \<and>
      (\<forall>c m. map_of (byConn ?sm') c = Some m \<longrightarrow> m \<noteq> [] \<and> gm_wf m)"
    using assms by (auto simp: conn_index_inv_def unregisterConn_def Let_def split: option.splits)
  moreover have "sm_heap ?sm' = sm_heap sm" "sm_next ?sm' = sm_next sm"
    by (auto simp: unregisterConn_def Let_def split: option.splits)
  ultimately show ?thesis
    using assms by (auto simp: conn_index_inv_def get_unregisterConn)
qed

lemma key_index_inv_unregisterConn:
  assumes inv: "conn_index_inv sm" "key_index_inv sm"
  shows "key_index_inv (fst (unregisterConn c sm))"
proof (cases "map_of (byConn sm) c")
  case None
  then show ?thesis using inv by (simp add: unregisterConn_def)
next
  case (Some m)
  let ?sm' = "fst (unregisterConn c sm)"
  have wf: "gm_wf m" using inv(1) Some by (auto simp: conn_index_inv_def)
  have h: "sm_heap ?sm' = sm_heap sm"
    and k: "byKey ?sm' = drop_keys sm (map snd m) (byKey sm)"
    using Some by (auto simp: unregisterConn_def Let_def)
  have mem: "q \<in> snd ` set m \<longleftrightarrow> registered sm q \<and> sub_conn (sm_heap sm q) = c" for q
  proof
    assume "q \<in> snd ` set m"
    then obtain i where "get sm c i = Some q"
      using Some wf by (auto simp: get_def conn_subs_def gm_mem_iff)
    then show "registered sm q \<and> sub_conn (sm_heap sm q) = c"
      using inv(1) by (auto simp: registered_def dest: conn_index_inv_get)
  next
    assume "registered sm q \<and> sub_conn (sm_heap sm q) = c"
    then show "q \<in> snd ` set m"
      using Some by (force simp: registered_def get_def conn_subs_def dest: map_of_SomeD)
  qed
  have "registered ?sm' q \<longleftrightarrow> registered sm q \<and> sub_conn (sm_heap sm q) \<noteq> c" for q
    by (auto simp: registered_def h get_unregisterConn)
  then show ?thesis
    using inv(2) mem by (auto simp: key_index_inv_def h k idx_drop_keys)
qed

lemma conn_index_inv_updateKeys: "conn_index_inv sm \<Longrightarrow> conn_index_inv (updateKeys c i ks sm)"
  by (auto simp: conn_index_inv_def updateKeys_eq split: option.splits)

lemma conn_index_inv_updateParams: "conn_index_inv sm \<Longrightarrow> conn_index_inv (updateParams c i ps w sm)"
  by (auto simp: conn_index_inv_def updateParams_eq split: option.splits)

lemma key_index_inv_updateKeys:
  assumes inv: "conn_index_inv sm" "key_index_inv sm"
  shows "key_index_inv (updateKeys c i ks sm)"
proof (cases "get sm c i")
  case None
  then show ?thesis using inv by (simp add: updateKeys_eq)
next
  case (Some p)
  let ?sm' = "updateKeys c i ks sm"
  have h: "sm_heap ?sm' = (sm_heap sm)(p := (sm_heap sm p)\<lparr>sub_keys := ks\<rparr>)"
    and k: "byKey ?sm' = fold (\<lambda>k. idx_add k p) ks
        (fold (\<lambda>k. idx_remove k p) (sub_keys (sm_heap sm p)) (byKey sm))"
    using Some by (auto simp: updateKeys_eq)
  have "registered sm p"
    using Some inv(1) by (auto simp: registered_iff)
  moreover have "registered ?sm' q \<longleftrightarrow> registered sm q" for q
    by (auto simp: registered_def h)
  ultimately show ?thesis
    using inv(2) by (auto simp: key_index_inv_def h k goidx.wf_add_all goidx.wf_remove_all
        goidx.mem_add_all goidx.mem_remove_all)
qed

lemma key_index_inv_updateParams:
  "key_index_inv sm \<Longrightarrow> key_index_inv (updateParams c i ps w sm)"
  by (auto simp: key_index_inv_def registered_def updateParams_eq split: option.splits)

lemma cap_inv_mono:
  assumes cap: "cap_inv mx sm" and le: "\<And>c. length (conn_subs sm' c) \<le> length (conn_subs sm c)"
  shows "cap_inv mx sm'"
  unfolding cap_inv_def
proof (intro allI impI)
  fix m c
  assume "mx = Some m" "m > 0"
  with cap have "int (length (conn_subs sm c)) \<le> m" by (simp add: cap_inv_def)
  with le [of c] show "int (length (conn_subs sm' c)) \<le> m" by linarith
qed

lemma conn_subs_unregister: "length (conn_subs (fst (unregister c i sm)) c') \<le> length (conn_subs sm c')"
proof (cases "get sm c i")
  case None
  then show ?thesis by (simp add: unregister_eq)
next
  case (Some p)
  then have "conn_subs (fst (unregister c i sm)) c' =
      (if c' = c then AList.delete i (conn_subs sm c) else conn_subs sm c')"
    by (simp add: unregister_eq Let_def conn_subs_def)
  then show ?thesis by (simp add: gm_length_delete_le)
qed

lemma conn_subs_unregisterConn:
  "conn_subs (fst (unregisterConn c sm)) c' = (if c' = c then [] else conn_subs sm c')"
  by (simp add: unregisterConn_def conn_subs_def Let_def split: option.splits)

lemma conn_subs_frame [simp]:
  "conn_subs (updateKeys c i ks sm) c' = conn_subs sm c'"
  "conn_subs (updateParams c i ps w sm) c' = conn_subs sm c'"
  "conn_subs (snd (new_subscription sub sm)) c' = conn_subs sm c'"
  by (simp_all add: updateKeys_eq updateParams_eq new_subscription_def split: option.splits)

lemma sm_inv_unregister: "sm_inv mx sm \<Longrightarrow> sm_inv mx (fst (unregister c i sm))"
  by (auto simp: sm_inv_def conn_index_inv_unregister key_index_inv_unregister
      intro: cap_inv_mono conn_subs_unregister)

lemma sm_inv_unregisterConn: "sm_inv mx sm \<Longrightarrow> sm_inv mx (fst (unregisterConn c sm))"
  by (auto simp: sm_inv_def conn_index_inv_unregisterConn key_index_inv_unregisterConn
      conn_subs_unregisterConn intro: cap_inv_mono)

lemma sm_inv_updateKeys: "sm_inv mx sm \<Longrightarrow> sm_inv mx (updateKeys c i ks sm)"
  by (auto simp: sm_inv_def conn_index_inv_updateKeys key_index_inv_updateKeys cap_inv_def)

lemma sm_inv_updateParams: "sm_inv mx sm \<Longrightarrow> sm_inv mx (updateParams c i ps w sm)"
  by (auto simp: sm_inv_def conn_index_inv_updateParams key_index_inv_updateParams cap_inv_def)

lemma sm_inv_new: "sm_inv mx sm \<Longrightarrow> sm_inv mx (snd (new_subscription sub sm))"
  by (auto simp: sm_inv_def conn_index_inv_new key_index_inv_new cap_inv_def)

lemma register_refused: "register mx closed p sm = (sm', False, l) \<Longrightarrow> sm' = sm"
  by (auto simp: register_def Let_def split: if_splits)

lemma sm_inv_register:
  assumes inv: "sm_inv mx sm" and p: "p < sm_next sm"
    and new: "get sm (sub_conn (sm_heap sm p)) (sub_id (sm_heap sm p)) = None"
  shows "sm_inv mx (fst (register mx closed p sm))"
proof (cases "fst (snd (register mx closed p sm))")
  case True
  then obtain sm' l where reg: "register mx closed p sm = (sm', True, l)"
    by (metis prod.collapse)
  show ?thesis
    using inv p new
    by (simp add: sm_inv_def reg conn_index_inv_register [OF _ reg]
        key_index_inv_register [OF _ _ reg] length_conn_subs_register [OF _ _ reg])
next
  case False
  then have "register mx closed p sm =
      (fst (register mx closed p sm), False, snd (snd (register mx closed p sm)))"
    by (metis prod.collapse)
  then have "fst (register mx closed p sm) = sm"
    by (rule register_refused)
  with inv show ?thesis by simp
qed

lemma sm_inv_subscribe: "sm_inv mx sm \<Longrightarrow> sm_inv mx (fst (subscribe_register mx closed sub sm))"
proof (cases "sub_keys sub = [] \<or> has sm (sub_conn sub) (sub_id sub)")
  case True
  moreover assume "sm_inv mx sm"
  ultimately show ?thesis
    by (auto simp: subscribe_register_def sm_inv_updateKeys sm_inv_updateParams)
next
  case False
  assume inv: "sm_inv mx sm"
  let ?sm' = "snd (new_subscription sub sm)"
  have "sm_inv mx (fst (register mx closed (sm_next sm) ?sm'))"
    using False by (intro sm_inv_register sm_inv_new inv) (auto simp: new_subscription_def has_get)
  with False show ?thesis
    by (simp add: subscribe_register_def new_subscription_def)
qed

lemma sm_inv_initial: "sm_inv mx newSubscriptionManager"
  by (auto simp: sm_inv_def conn_index_inv_def key_index_inv_def cap_inv_def newSubscriptionManager_def
      get_def conn_subs_def registered_def)

lemma sm_inv_step: "sm_step mx sm sm' \<Longrightarrow> sm_inv mx sm \<Longrightarrow> sm_inv mx sm'"
  by (induction rule: sm_step.induct)
    (auto intro: sm_inv_subscribe sm_inv_updateKeys sm_inv_unregister sm_inv_unregisterConn)

interpretation sm_ts: trans_sys "\<lambda>sm. sm = newSubscriptionManager" "sm_step mx" "sm_inv mx" for mx
  by unfold_locales (auto intro: sm_inv_initial sm_inv_step)

section \<open>Fan-out of a trigger\<close>

text \<open>
  What the server relies on when it fans a trigger out: the key lookup returns exactly the live
  subscriptions that depend on the key.
\<close>

definition dedup :: "'p \<Rightarrow> 'p list \<Rightarrow> 'p list" where
  "dedup p acc = (if p \<in> set acc then acc else acc @ [p])"

lemma fold_dedup:
  "set (fold dedup ps acc) = set acc \<union> set ps"
  "distinct acc \<Longrightarrow> distinct (fold dedup ps acc)"
  by (induction ps arbitrary: acc) (auto simp: dedup_def)

locale sub_index =
  fixes for_key :: "'s \<Rightarrow> string \<Rightarrow> 'p list"
    and live :: "'s \<Rightarrow> 'p \<Rightarrow> bool"
    and keys_of :: "'s \<Rightarrow> 'p \<Rightarrow> string set"
    and inv :: "'s \<Rightarrow> bool"
  assumes for_key_exact: "inv s \<Longrightarrow> set (for_key s k) = {p. live s p \<and> k \<in> keys_of s p}"
begin

lemma fanout_set:
  "inv s \<Longrightarrow> set (fold (\<lambda>k. fold dedup (for_key s k)) ks acc) =
     set acc \<union> {p. live s p \<and> (\<exists>k\<in>set ks. k \<in> keys_of s p)}"
  by (induction ks arbitrary: acc) (auto simp: fold_dedup for_key_exact)

lemma fanout_distinct: "distinct acc \<Longrightarrow> distinct (fold (\<lambda>k. fold dedup (for_key s k)) ks acc)"
  by (induction ks arbitrary: acc) (auto simp: fold_dedup)

end

interpretation sm_fan: sub_index getSubscriptionsForKey registered
  "\<lambda>sm p. set (sub_keys (sm_heap sm p))" key_index_inv
  by unfold_locales (auto simp: getSubscriptionsForKey_def key_index_inv_def)

lemma refresh_targets_fst:
  "fst (refresh_targets sm ks acc evs) = fold (\<lambda>k. fold dedup (getSubscriptionsForKey sm k)) ks acc"
  by (induction sm ks acc evs rule: refresh_targets.induct) (simp_all add: Let_def dedup_def [abs_def])

lemma refresh_targets_snd:
  "snd (refresh_targets sm ks acc evs) =
     evs @ map (\<lambda>k. (k, length (getSubscriptionsForKey sm k))) ks"
  by (induction sm ks acc evs rule: refresh_targets.induct) (simp_all add: Let_def)


section \<open>The view by connection and ID\<close>

lemma sub_view_byKey [simp]: "sub_view (sm\<lparr>byKey := ix\<rparr>) = sub_view sm"
  by (simp add: sub_view_def fun_eq_iff)

lemma sub_view_heap_upd:
  assumes inv: "conn_index_inv sm" and p: "get sm c i = Some p"
  shows "sub_view (sm\<lparr>sm_heap := (sm_heap sm)(p := x)\<rparr>) = (sub_view sm)((c, i) \<mapsto> x)"
proof (rule ext)
  fix ci
  have "ci = (c, i)" if "get sm (fst ci) (snd ci) = Some p"
    using conn_index_inv_get [OF inv that] conn_index_inv_get [OF inv p] by (cases ci) simp
  with p show "sub_view (sm\<lparr>sm_heap := (sm_heap sm)(p := x)\<rparr>) ci = ((sub_view sm)((c, i) \<mapsto> x)) ci"
    by (cases "get sm (fst ci) (snd ci)") (auto simp: sub_view_def)
qed

lemma sub_view_updateKeys:
  assumes "conn_index_inv sm"
  shows "sub_view (updateKeys c i ks sm) =
     (sub_view sm)((c, i) := map_option (sub_keys_update (\<lambda>_. ks)) (sub_view sm (c, i)))"
proof (cases "get sm c i")
  case None
  then have "sub_view sm (c, i) = None" by (simp add: sub_view_def)
  with None show ?thesis by (simp add: updateKeys_eq fun_upd_idem)
next
  case (Some p)
  have "sub_view (updateKeys c i ks sm) =
      sub_view (sm\<lparr>sm_heap := (sm_heap sm)(p := (sm_heap sm p)\<lparr>sub_keys := ks\<rparr>)\<rparr>)"
    using Some by (simp add: updateKeys_eq sub_view_def fun_eq_iff)
  with sub_view_heap_upd [OF assms Some] Some show ?thesis
    by (simp add: sub_view_def)
qed

lemma sub_view_updateParams:
  assumes "conn_index_inv sm"
  shows "sub_view (updateParams c i ps w sm) =
     (sub_view sm)((c, i) := map_option (\<lambda>s. s\<lparr>sub_params := ps, wantsPatch := w\<rparr>) (sub_view sm (c, i)))"
proof (cases "get sm c i")
  case None
  then have "sub_view sm (c, i) = None" by (simp add: sub_view_def)
  with None show ?thesis by (simp add: updateParams_eq fun_upd_idem)
next
  case (Some p)
  with sub_view_heap_upd [OF assms Some] show ?thesis
    by (simp add: updateParams_eq sub_view_def)
qed

lemma sub_view_unregister: "sub_view (fst (unregister c i sm)) = (sub_view sm)((c, i) := None)"
proof -
  have "sm_heap (fst (unregister c i sm)) = sm_heap sm"
    by (auto simp: unregister_eq Let_def split: option.splits)
  then show ?thesis by (intro ext) (auto simp: sub_view_def get_unregister)
qed

lemma sub_view_unregisterConn:
  "sub_view (fst (unregisterConn c sm)) = (\<lambda>ci. if fst ci = c then None else sub_view sm ci)"
proof -
  have "sm_heap (fst (unregisterConn c sm)) = sm_heap sm"
    by (auto simp: unregisterConn_def Let_def split: option.splits)
  then show ?thesis by (intro ext) (auto simp: sub_view_def get_unregisterConn)
qed

lemma sub_view_new:
  "conn_index_inv sm \<Longrightarrow> sub_view (snd (new_subscription sub sm)) = sub_view sm"
  using get_fresh [of sm] by (auto simp: fun_eq_iff sub_view_def new_subscription_def map_option_case
      split: option.splits)

lemma sub_view_register:
  "register mx closed p sm = (sm', ok, l) \<Longrightarrow>
     sub_view sm' = (if ok then (sub_view sm)((sub_conn (sm_heap sm p), sub_id (sm_heap sm p)) \<mapsto> sm_heap sm p)
                     else sub_view sm)"
proof (cases ok)
  case True
  moreover assume reg: "register mx closed p sm = (sm', ok, l)"
  moreover from this True have "sm_heap sm' = sm_heap sm"
    by (auto simp: register_def Let_def split: if_splits)
  ultimately show ?thesis
    by (intro ext) (auto simp: sub_view_def get_register [of mx closed p sm sm' l])
next
  case False
  moreover assume "register mx closed p sm = (sm', ok, l)"
  ultimately show ?thesis using register_refused [of mx closed p sm sm' l] by simp
qed

lemma subscribe_register_new:
  "sub_keys sub \<noteq> [] \<Longrightarrow> get sm (sub_conn sub) (sub_id sub) = None \<Longrightarrow>
     subscribe_register mx closed sub sm = register mx closed (sm_next sm) (snd (new_subscription sub sm))"
  by (simp add: subscribe_register_def has_get new_subscription_def)

lemma subscribe_register_again:
  "sub_keys sub \<noteq> [] \<Longrightarrow> get sm (sub_conn sub) (sub_id sub) = Some p \<Longrightarrow>
     subscribe_register mx closed sub sm =
       (updateParams (sub_conn sub) (sub_id sub) (sub_params sub) (wantsPatch sub)
          (updateKeys (sub_conn sub) (sub_id sub) (sub_keys sub) sm), True, False)"
  by (simp add: subscribe_register_def has_get)

lemma subscribe_view_new:
  assumes "conn_index_inv sm" "sub_keys sub \<noteq> []" "get sm (sub_conn sub) (sub_id sub) = None"
    and "subscribe_register mx closed sub sm = (sm', ok, limited)"
  shows "sub_view sm' = (if ok then (sub_view sm)((sub_conn sub, sub_id sub) \<mapsto> sub) else sub_view sm)"
  using assms sub_view_register [of mx closed "sm_next sm" "snd (new_subscription sub sm)" sm' ok limited]
  by (simp add: subscribe_register_new sub_view_new) (simp add: new_subscription_def)

lemma subscribe_view_again:
  assumes "conn_index_inv sm" "sub_keys sub \<noteq> []" "sub_view sm (sub_conn sub, sub_id sub) = Some old"
  shows "sub_view (fst (subscribe_register mx closed sub sm)) =
     (sub_view sm)((sub_conn sub, sub_id sub) \<mapsto>
        old\<lparr>sub_keys := sub_keys sub, sub_params := sub_params sub, wantsPatch := wantsPatch sub\<rparr>)"
proof -
  from assms(3) obtain p where "get sm (sub_conn sub) (sub_id sub) = Some p"
    by (auto simp: sub_view_def)
  with assms show ?thesis
    by (simp add: subscribe_register_again sub_view_updateParams sub_view_updateKeys
        conn_index_inv_updateKeys)
qed

lemma bij_for_key:
  assumes ci: "conn_index_inv sm" and ki: "key_index_inv sm"
  shows "bij_betw (\<lambda>p. (sub_conn (sm_heap sm p), sub_id (sm_heap sm p)))
      (set (getSubscriptionsForKey sm k))
      {ci. \<exists>sub. sub_view sm ci = Some sub \<and> k \<in> set (sub_keys sub)}"
  unfolding sm_fan.for_key_exact [OF ki] bij_betw_def
proof
  show "inj_on (\<lambda>p. (sub_conn (sm_heap sm p), sub_id (sm_heap sm p)))
      {p. registered sm p \<and> k \<in> set (sub_keys (sm_heap sm p))}"
    by (rule inj_onI) (metis (mono_tags, lifting) mem_Collect_eq option.inject prod.inject registered_def)
next
  show "(\<lambda>p. (sub_conn (sm_heap sm p), sub_id (sm_heap sm p))) `
      {p. registered sm p \<and> k \<in> set (sub_keys (sm_heap sm p))} =
      {ci. \<exists>sub. sub_view sm ci = Some sub \<and> k \<in> set (sub_keys sub)}" (is "?f ` ?A = ?B")
  proof
    show "?f ` ?A \<subseteq> ?B" by (auto simp: registered_def sub_view_def)
    show "?B \<subseteq> ?f ` ?A"
    proof
      fix ci assume "ci \<in> ?B"
      then obtain p where p: "get sm (fst ci) (snd ci) = Some p" "k \<in> set (sub_keys (sm_heap sm p))"
        by (auto simp: sub_view_def)
      then have "ci = ?f p" "p \<in> ?A"
        using conn_index_inv_get [OF ci p(1)] by (auto simp: registered_def prod_eq_iff)
      then show "ci \<in> ?f ` ?A" by blast
    qed
  qed
qed

lemma removed_by_close:
  assumes ci: "conn_index_inv sm"
  shows "set (snd (unregisterConn c sm)) = {p. registered sm p \<and> sub_conn (sm_heap sm p) = c}"
proof (cases "map_of (byConn sm) c")
  case None
  then show ?thesis by (auto simp: unregisterConn_def registered_def get_def conn_subs_def)
next
  case (Some m)
  then have wf: "gm_wf m" using ci by (auto simp: conn_index_inv_def)
  have g: "get sm c i = map_of m i" for i using Some by (simp add: get_def conn_subs_def)
  have "p \<in> snd ` set m \<longleftrightarrow> (\<exists>i. get sm c i = Some p)" for p
    using gm_mem_iff [OF wf] g by force
  moreover have "(\<exists>i. get sm c i = Some p) \<longleftrightarrow> registered sm p \<and> sub_conn (sm_heap sm p) = c" for p
    using ci conn_index_inv_get [OF ci] by (metis registered_def)
  ultimately show ?thesis using Some by (auto simp: unregisterConn_def Let_def)
qed

section \<open>Properties\<close>


definition sub_a :: subscription where
  "sub_a = \<lparr>sub_conn = 1, sub_id = ''7'', sub_method = ''Photos.List'', sub_keys = [''photos'', ''users''],
     sub_params = ''[]'', wantsPatch = True\<rparr>"

definition sub_b :: subscription where
  "sub_b = \<lparr>sub_conn = 2, sub_id = ''7'', sub_method = ''Users.List'', sub_keys = [''users''],
     sub_params = ''[]'', wantsPatch = False\<rparr>"

definition sm_ab :: subscriptionManager where
  "sm_ab = fst (subscribe_register (Some 3) False sub_b
     (fst (subscribe_register (Some 3) False sub_a newSubscriptionManager)))"

lemma sm_ab_reachable: "(sm_step (Some 3))\<^sup>*\<^sup>* newSubscriptionManager sm_ab"
proof -
  let ?sm = "fst (subscribe_register (Some 3) False sub_a newSubscriptionManager)"
  have "sm_step (Some 3) newSubscriptionManager ?sm"
    by (rule sm_subscribe) (simp add: sub_a_def)
  moreover have "sm_step (Some 3) ?sm sm_ab"
    unfolding sm_ab_def by (rule sm_subscribe) (simp add: sub_b_def)
  ultimately show ?thesis by simp
qed


lemma sm_ab_inv: "sm_inv (Some 3) sm_ab"
  by (rule sm_ts.inv_reachable [OF refl sm_ab_reachable])



text \<open>
  Property C7. A subscribe whose handler collected trigger keys: a new ID on an open connection
  below its cap is registered as sent; a known ID gets the new keys, params and patch support;
  a new ID on a closed connection or at the cap is refused and nothing changes, and \<open>limited\<close> is
  reported exactly when the open connection is at its cap. No other subscription is affected.
\<close>

theorem subscribe_register_view:
  assumes inv: "sm_inv mx sm" and keys: "sub_keys sub \<noteq> []"
    and res: "subscribe_register mx closed sub sm = (sm', ok, limited)"
  shows "(case sub_view sm (sub_conn sub, sub_id sub) of
      Some old \<Rightarrow>
        ok \<and> \<not> limited \<and>
        sub_view sm' = (sub_view sm)((sub_conn sub, sub_id sub) \<mapsto>
          old\<lparr>sub_keys := sub_keys sub, sub_params := sub_params sub, wantsPatch := wantsPatch sub\<rparr>)
    | None \<Rightarrow>
        (ok \<longleftrightarrow> \<not> closed \<and> \<not> limited) \<and>
        (limited \<longleftrightarrow> \<not> closed \<and>
           (\<exists>m > 0. mx = Some m \<and> int (length (conn_subs sm (sub_conn sub))) = m)) \<and>
        sub_view sm' =
          (if ok then (sub_view sm)((sub_conn sub, sub_id sub) \<mapsto> sub) else sub_view sm))"
proof -
  have ci: "conn_index_inv sm" and cap: "cap_inv mx sm"
    using inv by (simp_all add: sm_inv_def)
  show ?thesis
  proof (cases "sub_view sm (sub_conn sub, sub_id sub)")
    case None
    then have new: "get sm (sub_conn sub) (sub_id sub) = None" by (simp add: sub_view_def)
    have reg: "register mx closed (sm_next sm) (snd (new_subscription sub sm)) = (sm', ok, limited)"
      using res by (simp add: subscribe_register_new [OF keys new])
    have "ok \<longleftrightarrow> \<not> closed \<and> \<not> limited"
      using reg by (auto simp: register_def Let_def split: if_splits)
    moreover have "limited \<longleftrightarrow> \<not> closed \<and> (\<exists>m > 0. mx = Some m \<and> int (length (conn_subs sm (sub_conn sub))) \<ge> m)"
      using reg new
      by (cases mx) (auto simp: register_def new_subscription_def Let_def get_def split: if_splits)
    then have "limited \<longleftrightarrow> \<not> closed \<and> (\<exists>m > 0. mx = Some m \<and> int (length (conn_subs sm (sub_conn sub))) = m)"
      using cap by (auto simp: cap_inv_def intro: antisym)
    ultimately show ?thesis
      using None subscribe_view_new [OF ci keys new res] by simp
  next
    case (Some old)
    then show ?thesis
      using subscribe_view_again [OF ci keys Some, of mx closed] res keys
      by (auto simp: sub_view_def subscribe_register_again)
  qed
qed

theorem subscribe_register_view_witness:
  "sub_view (fst (subscribe_register (Some 3) False sub_b sm_ab)) (2, ''7'') = Some sub_b"
proof -
  obtain sm' ok l where r: "subscribe_register (Some 3) False sub_b sm_ab = (sm', ok, l)"
    by (cases "subscribe_register (Some 3) False sub_b sm_ab") auto
  have v: "sub_view sm_ab (2, ''7'') = Some sub_b" by (simp add: sm_ab_def sub_view_def get_def conn_subs_def
      subscribe_register_def has_def new_subscription_def register_def newSubscriptionManager_def
      sub_a_def sub_b_def Let_def idx_add_def idx_members_def)
  show ?thesis
    using subscribe_register_view [OF sm_ab_inv _ r] v r by (simp add: sub_b_def)
qed

text \<open>
  Property C3. A flush of the refresh queue re-executes every registered subscription that depends
  on one of the queued keys exactly once, however often and under however many of the keys it
  appears, and no other subscription; the observer is told the fan-out of each queued key in order.
\<close>

theorem refresh_exactly_once:
  assumes "sm_inv mx sm"
  shows "distinct (fst (processRefreshQueue sm keys)) \<and>
    set (fst (processRefreshQueue sm keys)) =
      {p. registered sm p \<and> (\<exists>k\<in>set keys. k \<in> set (sub_keys (sm_heap sm p)))} \<and>
    snd (processRefreshQueue sm keys) = map (\<lambda>k. (k, length (getSubscriptionsForKey sm k))) keys"
proof -
  have "key_index_inv sm" using assms by (simp add: sm_inv_def)
  then show ?thesis
    by (simp add: processRefreshQueue_def refresh_targets_fst refresh_targets_snd
        sm_fan.fanout_set sm_fan.fanout_distinct)
qed

theorem refresh_exactly_once_witness:
  "distinct (fst (processRefreshQueue sm_ab [''users'', ''photos'', ''users''])) \<and>
   length (fst (processRefreshQueue sm_ab [''users'', ''photos'', ''users''])) = 2"
proof -
  have "length (fst (processRefreshQueue sm_ab [''users'', ''photos'', ''users''])) = 2"
    by code_simp
  then show ?thesis
    using refresh_exactly_once [OF sm_ab_inv, of "[''users'', ''photos'', ''users'']"] by blast
qed

text \<open>
  Closing a connection drops its subscriptions for good: the call reports every
  subscription the connection held, no later flush re-executes a subscription of that connection,
  whatever keys are queued, and the subscriptions of the other connections are served as before.
\<close>

theorem closed_connection_gets_no_refresh:
  assumes inv: "sm_inv mx sm"
  shows "set (fst (processRefreshQueue (fst (unregisterConn c sm)) keys)) =
      {p \<in> set (fst (processRefreshQueue sm keys)). sub_conn (sm_heap sm p) \<noteq> c} \<and>
    set (snd (unregisterConn c sm)) = {p. registered sm p \<and> sub_conn (sm_heap sm p) = c}"
proof
  have ki: "key_index_inv sm" and ki': "key_index_inv (fst (unregisterConn c sm))"
    using inv sm_inv_unregisterConn [OF inv, of c] by (simp_all add: sm_inv_def)
  have h: "sm_heap (fst (unregisterConn c sm)) = sm_heap sm"
    by (auto simp: unregisterConn_def Let_def split: option.splits)
  have r: "registered (fst (unregisterConn c sm)) p \<longleftrightarrow> registered sm p \<and> sub_conn (sm_heap sm p) \<noteq> c" for p
    by (simp add: registered_def get_unregisterConn h)
  show "set (fst (processRefreshQueue (fst (unregisterConn c sm)) keys)) =
      {p \<in> set (fst (processRefreshQueue sm keys)). sub_conn (sm_heap sm p) \<noteq> c}"
    unfolding processRefreshQueue_def refresh_targets_fst sm_fan.fanout_set [OF ki]
      sm_fan.fanout_set [OF ki'] h r by auto
next
  have ci: "conn_index_inv sm" using inv by (simp add: sm_inv_def)
  show "set (snd (unregisterConn c sm)) = {p. registered sm p \<and> sub_conn (sm_heap sm p) = c}"
    by (rule removed_by_close [OF ci])
qed

theorem closed_connection_gets_no_refresh_witness:
  "set (fst (processRefreshQueue (fst (unregisterConn 1 sm_ab)) [''users''])) =
     {p \<in> set (fst (processRefreshQueue sm_ab [''users''])). sub_conn (sm_heap sm_ab p) \<noteq> 1}"
  using closed_connection_gets_no_refresh [OF sm_ab_inv, of 1 "[''users'']"] by blast

text \<open>
  Composite trigger keys are separated by NUL, so keys built from the same number of
  NUL-free parts, or more generally from nonempty lists of NUL-free parts, coincide only when the
  parts do: a trigger can only reach subscriptions that registered the very same parts.
\<close>

theorem compositeKey_inject:
  assumes "xs \<noteq> []" "ys \<noteq> []"
    and "CHR 0x00 \<notin> set (concat xs)" "CHR 0x00 \<notin> set (concat ys)"
  shows "compositeKey xs = compositeKey ys \<longleftrightarrow> xs = ys"
  using assms join_inject [of xs ys "CHR 0x00"] by (auto simp: compositeKey_def)

theorem compositeKey_inject_witness:
  "(compositeKey [''user'', ''12''] = compositeKey [''user1'', ''2'']) = ([''user'', ''12''] = [''user1'', ''2''])"
  by (rule compositeKey_inject) simp_all

text \<open>
  A patch reaches every subscriber of the key exactly once, as a patch frame or as a
  full refresh, by whether it declared patch support.
\<close>

theorem patch_targets_partition:
  assumes "sm_inv mx sm" and "patch_targets sm keys = (patched, refreshed)"
  shows "distinct (patched @ refreshed) \<and>
    set patched = {p. registered sm p \<and> compositeKey keys \<in> set (sub_keys (sm_heap sm p)) \<and> wantsPatch (sm_heap sm p)} \<and>
    set refreshed = {p. registered sm p \<and> compositeKey keys \<in> set (sub_keys (sm_heap sm p)) \<and> \<not> wantsPatch (sm_heap sm p)}"
proof -
  have ki: "key_index_inv sm" using assms by (simp add: sm_inv_def)
  define subs where "subs = getSubscriptionsForKey sm (compositeKey keys)"
  have d: "distinct subs" using ki
    by (simp add: subs_def getSubscriptionsForKey_def key_index_inv_def idx_members_distinct)
  have m: "set subs = {p. registered sm p \<and> compositeKey keys \<in> set (sub_keys (sm_heap sm p))}"
    unfolding subs_def by (rule sm_fan.for_key_exact [OF ki])
  have eq: "patched = filter (\<lambda>p. wantsPatch (sm_heap sm p)) subs"
    "refreshed = filter (\<lambda>p. \<not> wantsPatch (sm_heap sm p)) subs"
    using assms(2) by (simp_all add: patch_targets_def Let_def subs_def)
  have "distinct (patched @ refreshed)" using d by (auto simp: eq)
  moreover have "set patched = {p \<in> set subs. wantsPatch (sm_heap sm p)}"
    "set refreshed = {p \<in> set subs. \<not> wantsPatch (sm_heap sm p)}" by (auto simp: eq)
  ultimately show ?thesis unfolding m by blast
qed

theorem patch_targets_partition_witness:
  "distinct (fst (patch_targets sm_ab [''users'']) @ snd (patch_targets sm_ab [''users'']))"
  using patch_targets_partition [OF sm_ab_inv, of "[''users'']"] by (metis prod.collapse)

text \<open>
  \<open>register\<close> itself does not look for an entry under the same ID. Two overlapping
  subscribes that both found the ID unknown both call it: the second registration succeeds and
  takes the ID over, while the first subscription stays in the key index, from where every
  trigger keeps re-executing it; neither an unsubscribe nor the close of the connection removes it.
\<close>

theorem register_overwrite_orphans:
  "let (p, sm1) = new_subscription sub_a newSubscriptionManager;
       (q, sm2) = new_subscription sub_a sm1;
       (sm3, ok1, l1) = register (Some 3) False p sm2;
       (sm4, ok2, l2) = register (Some 3) False q sm3;
       sm5 = fst (unregisterConn 1 (fst (unregister 1 ''7'' sm4)))
   in ok1 \<and> ok2 \<and> p \<noteq> q \<and> get sm4 1 ''7'' = Some q \<and>
      byConn sm5 = [] \<and> getSubscriptionsForKey sm5 ''users'' = [p]"
  by code_simp

end
