(* ===== verification/Aprot_Server.thy ===== *)
theory Aprot_Server
  imports Aprot_Connection Aprot_Subscriptions
begin

text \<open>
  The server (\<open>server.go\<close>): its options, the set of connections and the index of connections by
  user, registration and shutdown, the event loop \<open>run\<close>, and the execution of a handler through
  the middleware chain (\<open>buildHandler\<close>, \<open>invoke\<close>, \<open>Invoke\<close>).

  A connection is its ID. What the server needs of a connection's own state (its user, whether it
  is detached, whether it is closed) is kept here as functions of the ID. Sections of code under
  \<open>s.mu\<close> are atomic steps.
\<close>

section \<open>Options\<close>

text \<open>A \<open>time.Duration\<close> is a signed 64-bit count of nanoseconds.\<close>

type_synonym duration = "64 word"

definition second :: duration where
  "second = 1000000000"

record stream_chunking =
  MaxItems :: int
  MaxBytes :: int
  MaxDelay :: duration

record server_options =
  ReconnectInterval :: int
  ReconnectMaxInterval :: int
  ReconnectMaxAttempts :: int
  MaxMessageSize :: int
  WriteTimeout :: duration
  PingInterval :: duration
  PongTimeout :: duration
  MaxConcurrentRequests :: int
  MaxServerConcurrentRequests :: int
  MaxSubscriptions :: int
  AuthTimeout :: duration
  opt_AllowAnonymous :: bool
  opt_StreamChunking :: "stream_chunking option"

definition defaultServerOptions :: server_options where
  "defaultServerOptions = \<lparr>ReconnectInterval = 1000, ReconnectMaxInterval = 10000,
     ReconnectMaxAttempts = 0, MaxMessageSize = 4 * 2 ^ 20, WriteTimeout = 30 * second,
     PingInterval = 30 * second, PongTimeout = 60 * second, MaxConcurrentRequests = 256,
     MaxServerConcurrentRequests = 10000, MaxSubscriptions = 1024, AuthTimeout = 10 * second,
     opt_AllowAnonymous = False, opt_StreamChunking = None\<rparr>"

definition fill_chunking :: "stream_chunking \<Rightarrow> stream_chunking" where
  "fill_chunking cfg =
     \<lparr>MaxItems = (if MaxItems cfg \<le> 0 then 128 else MaxItems cfg),
      MaxBytes = (if MaxBytes cfg \<le> 0 then 64 * 2 ^ 10 else MaxBytes cfg),
      MaxDelay = (if sint (MaxDelay cfg) \<le> 0 then 20000000 else MaxDelay cfg)\<rparr>"

definition merge_options :: "server_options \<Rightarrow> server_options \<Rightarrow> server_options" where
  "merge_options d opt =
     \<lparr>ReconnectInterval = (if ReconnectInterval opt > 0 then ReconnectInterval opt else ReconnectInterval d),
      ReconnectMaxInterval = (if ReconnectMaxInterval opt > 0 then ReconnectMaxInterval opt else ReconnectMaxInterval d),
      ReconnectMaxAttempts = (if ReconnectMaxAttempts opt > 0 then ReconnectMaxAttempts opt else ReconnectMaxAttempts d),
      MaxMessageSize = (if MaxMessageSize opt \<noteq> 0 then MaxMessageSize opt else MaxMessageSize d),
      WriteTimeout = (if WriteTimeout opt \<noteq> 0 then WriteTimeout opt else WriteTimeout d),
      PingInterval = (if PingInterval opt \<noteq> 0 then PingInterval opt else PingInterval d),
      PongTimeout = (if PongTimeout opt \<noteq> 0 then PongTimeout opt else PongTimeout d),
      MaxConcurrentRequests = (if MaxConcurrentRequests opt \<noteq> 0 then MaxConcurrentRequests opt
        else MaxConcurrentRequests d),
      MaxServerConcurrentRequests = (if MaxServerConcurrentRequests opt \<noteq> 0 then MaxServerConcurrentRequests opt
        else MaxServerConcurrentRequests d),
      MaxSubscriptions = (if MaxSubscriptions opt \<noteq> 0 then MaxSubscriptions opt else MaxSubscriptions d),
      AuthTimeout = (if AuthTimeout opt \<noteq> 0 then AuthTimeout opt else AuthTimeout d),
      opt_AllowAnonymous = opt_AllowAnonymous opt,
      opt_StreamChunking = (case opt_StreamChunking opt of
          None \<Rightarrow> opt_StreamChunking d | Some cfg \<Rightarrow> Some (fill_chunking cfg))\<rparr>"

text \<open>The options of the server that \<open>NewServer\<close> builds, with or without an argument.\<close>

definition newServer_options :: "server_options option \<Rightarrow> server_options" where
  "newServer_options opts =
     (let options = (case opts of None \<Rightarrow> defaultServerOptions
                     | Some opt \<Rightarrow> merge_options defaultServerOptions opt)
      in if sint (PingInterval options) > 0 \<and> sint (PongTimeout options) > 0 \<and>
            sint (PongTimeout options) \<le> sint (PingInterval options)
         then options\<lparr>PongTimeout := 2 * PingInterval options\<rparr> else options)"

definition advertisedMaxMessageSize :: "int \<Rightarrow> int" where
  "advertisedMaxMessageSize limit = (if limit \<le> 0 then 0 else limit)"

record config_message =
  cfg_reconnectInterval :: int
  cfg_reconnectMaxInterval :: int
  cfg_reconnectMaxAttempts :: int
  cfg_binaryFrames :: bool
  cfg_maxMessageSize :: int

definition configMessage :: "server_options \<Rightarrow> bool \<Rightarrow> config_message" where
  "configMessage opts binaryFrames =
     \<lparr>cfg_reconnectInterval = ReconnectInterval opts, cfg_reconnectMaxInterval = ReconnectMaxInterval opts,
      cfg_reconnectMaxAttempts = ReconnectMaxAttempts opts, cfg_binaryFrames = binaryFrames,
      cfg_maxMessageSize = advertisedMaxMessageSize (MaxMessageSize opts)\<rparr>"

definition lower_char :: "char \<Rightarrow> char" where
  "lower_char c = (if 65 \<le> byte c \<and> byte c \<le> 90 then char_of (byte c + 32) else c)"

text \<open>
  The \<open>binary\<close> query parameter of the upgrade request, \<open>None\<close> when absent. The result is the
  choice, or the offending value.
\<close>

definition wsBinaryFromRequest :: "string option \<Rightarrow> string + bool" where
  "wsBinaryFromRequest q =
     (case q of
        None \<Rightarrow> Inr True
      | Some v \<Rightarrow>
          (let l = map lower_char v
           in if l \<in> {''1'', ''true'', ''yes'', ''on''} then Inr True
              else if l \<in> {''0'', ''false'', ''no'', ''off''} then Inr False
              else Inl v))"

fun connectionRejectedMessage :: "'v go_error option \<Rightarrow> 'v frame" where
  "connectionRejectedMessage (Some (ProtocolError a code m c d)) = ErrorMessage [] code m d"
| "connectionRejectedMessage (Some err) = ErrorMessage [] CodeConnectionRejected (error_str err) None"
| "connectionRejectedMessage None = ErrorMessage [] CodeConnectionRejected ''connection rejected'' None"

section \<open>Connections and users\<close>

text \<open>
  \<open>departed\<close> marks the connections whose teardown (the body of \<open>run\<close>, or the rejecting branches
  of the accept path) has already removed them from the user index.
\<close>

record server =
  conns :: "conn_ptr list"
  userConns :: "(string, conn_ptr) goindex"
  conn_user :: "conn_ptr \<Rightarrow> string"
  conn_detached :: "conn_ptr \<Rightarrow> bool"
  conn_closed :: "conn_ptr \<Rightarrow> bool"
  departed :: "conn_ptr \<Rightarrow> bool"
  stopping :: bool

definition newServer :: server where
  "newServer = \<lparr>conns = [], userConns = [], conn_user = (\<lambda>_. []), conn_detached = (\<lambda>_. False),
     conn_closed = (\<lambda>_. False), departed = (\<lambda>_. False), stopping = False\<rparr>"

definition associateUser :: "conn_ptr \<Rightarrow> string \<Rightarrow> server \<Rightarrow> server" where
  "associateUser c u s = s\<lparr>userConns := idx_add u c (userConns s)\<rparr>"

definition disassociateUser :: "conn_ptr \<Rightarrow> server \<Rightarrow> server" where
  "disassociateUser c s =
     (let u = conn_user s c in if u = [] then s else s\<lparr>userConns := idx_remove u c (userConns s)\<rparr>)"

definition SetUserID :: "conn_ptr \<Rightarrow> string \<Rightarrow> server \<Rightarrow> server" where
  "SetUserID c u s =
     (let old = conn_user s c;
          s1 = s\<lparr>conn_user := (conn_user s)(c := u)\<rparr>
      in if conn_detached s c then s1
         else
           let s2 = (if old \<noteq> [] \<and> old \<noteq> u then s1\<lparr>userConns := idx_remove old c (userConns s1)\<rparr> else s1)
           in if u \<noteq> [] then associateUser c u s2 else s2)"

text \<open>
  \<open>PushToUser\<close> in its two phases: the snapshot under the lock, and the sends to the connections of
  the snapshot whose current user is still the addressee (in the state at the time of the sends).
\<close>

definition push_snapshot :: "string \<Rightarrow> server \<Rightarrow> conn_ptr list" where
  "push_snapshot u s = idx_members (userConns s) u"

definition push_send :: "string \<Rightarrow> conn_ptr list \<Rightarrow> server \<Rightarrow> conn_ptr list" where
  "push_send u cs s = filter (\<lambda>c. conn_user s c = u) cs"

definition PushToUser :: "string \<Rightarrow> server \<Rightarrow> conn_ptr list" where
  "PushToUser u s = push_send u (push_snapshot u s) s"

definition close_conn :: "conn_ptr \<Rightarrow> server \<Rightarrow> server \<times> bool" where
  "close_conn c s = (if conn_closed s c then (s, False) else (s\<lparr>conn_closed := (conn_closed s)(c := True)\<rparr>, True))"

fun disconnect_all :: "string \<Rightarrow> conn_ptr list \<Rightarrow> server \<Rightarrow> nat \<Rightarrow> server \<times> nat" where
  "disconnect_all u [] s n = (s, n)"
| "disconnect_all u (c # cs) s n =
     (if conn_user s c \<noteq> u then disconnect_all u cs s n
      else case close_conn c s of (s', did) \<Rightarrow> disconnect_all u cs s' (if did then Suc n else n))"

definition DisconnectUser :: "string \<Rightarrow> server \<Rightarrow> server \<times> nat" where
  "DisconnectUser u s = (if u = [] then (s, 0) else disconnect_all u (idx_members (userConns s) u) s 0)"

definition Broadcast :: "server \<Rightarrow> conn_ptr list" where
  "Broadcast s = conns s"

definition ConnectionCount :: "server \<Rightarrow> nat" where
  "ConnectionCount s = length (conns s)"

section \<open>Registration, the event loop and shutdown\<close>

definition registerConn :: "conn_ptr \<Rightarrow> server \<Rightarrow> server \<times> bool" where
  "registerConn c s =
     (if stopping s then (s, False) else (s\<lparr>conns := List.insert c (conns s)\<rparr>, True))"

text \<open>
  The accept path of \<open>ServeHTTP\<close> from the connect hooks on: \<open>hooks\<close> is what they do to the server
  (they may set the user) and whether they accept. A rejected connection leaves the user index.
\<close>

definition accept_conn :: "(server \<Rightarrow> server \<times> bool) \<Rightarrow> conn_ptr \<Rightarrow> server \<Rightarrow> server \<times> bool" where
  "accept_conn hooks c s =
     (case hooks s of (s1, ok) \<Rightarrow>
        let drop = (\<lambda>s. (disassociateUser c s)\<lparr>departed := (departed s)(c := True)\<rparr>)
        in if \<not> ok then (drop s1, False)
           else case registerConn c s1 of (s2, reg) \<Rightarrow> if reg then (s2, True) else (drop s2, False))"

datatype run_event = Unregister conn_ptr | StopSignal

text \<open>One turn of the loop of \<open>run\<close>: the new state, and whether the loop returns.\<close>

definition unregister_conn :: "conn_ptr \<Rightarrow> server \<Rightarrow> server" where
  "unregister_conn c s =
     (if c \<in> set (conns s) then
        fst (close_conn c ((disassociateUser c (s\<lparr>conns := removeAll c (conns s)\<rparr>))
                             \<lparr>departed := (departed s)(c := True)\<rparr>))
      else s)"

fun run_turn :: "run_event \<Rightarrow> server \<Rightarrow> server \<times> bool" where
  "run_turn (Unregister c) s =
     (let s' = unregister_conn c s in (s', stopping s' \<and> conns s' = []))"
| "run_turn StopSignal s = (s, conns s = [])"

text \<open>The loop over the events it receives; \<open>None\<close> when it is still waiting after the last one.\<close>

fun run :: "run_event list \<Rightarrow> server \<Rightarrow> server option" where
  "run [] s = None"
| "run (e # es) s = (case run_turn e s of (s', finished) \<Rightarrow> if finished then Some s' else run es s')"

section \<open>Middleware and invocation\<close>

type_synonym ('c, 'q, 'o) handler = "'c \<Rightarrow> 'q \<Rightarrow> 'o"

fun wrap_middleware :: "(('c, 'q, 'o) handler \<Rightarrow> ('c, 'q, 'o) handler) list \<Rightarrow> nat \<Rightarrow>
    ('c, 'q, 'o) handler \<Rightarrow> ('c, 'q, 'o) handler" where
  "wrap_middleware mws 0 h = h"
| "wrap_middleware mws (Suc i) h = wrap_middleware mws i ((mws ! i) h)"

definition buildHandler :: "(('c, 'q, 'o) handler \<Rightarrow> ('c, 'q, 'o) handler) list \<Rightarrow>
    (('c, 'q, 'o) handler \<Rightarrow> ('c, 'q, 'o) handler) list \<Rightarrow> ('c, 'q, 'o) handler \<Rightarrow> ('c, 'q, 'o) handler" where
  "buildHandler serverMW handlerMW final =
     wrap_middleware serverMW (length serverMW) (wrap_middleware handlerMW (length handlerMW) final)"

text \<open>
  What a call into the handler chain does: it returns, fails, panics, or panics with
  \<open>http.ErrAbortHandler\<close>; on the way it queues refresh triggers.
\<close>

datatype 'v outcome = Returned "'v result" | Failed "'v go_error" | Panicked | Aborted

datatype 'v invoke_result = Invoked "'v result" | InvokeError "'v go_error" | Repanic

text \<open>
  \<open>invoke\<close>: \<open>resolved\<close> is \<open>principalResolved(ctx)\<close>; \<open>provider\<close> is what the principal provider of the
  connection in the context does, \<open>None\<close> without a connection or a provider; \<open>queue\<close> holds the
  triggers already in the caller's refresh queue, \<open>None\<close> when there is none; \<open>call\<close> is the handler
  chain, returning its outcome and the triggers it queued. The result is that of the call, the
  caller's queue afterwards, and the triggers flushed here.
\<close>

definition invoke ::
  "bool \<Rightarrow> 'v outcome option \<Rightarrow> string list option \<Rightarrow> 'v outcome \<times> string list \<Rightarrow>
     'v invoke_result \<times> string list option \<times> string list" where
  "invoke resolved provider queue call =
     (let perr = (if resolved then None
                  else case provider of
                    None \<Rightarrow> None
                  | Some (Returned _) \<Rightarrow> None
                  | Some (Failed e) \<Rightarrow> Some (InvokeError e)
                  | Some Panicked \<Rightarrow> Some (InvokeError panicError)
                  | Some Aborted \<Rightarrow> Some Repanic)
      in case perr of
           Some r \<Rightarrow> (r, queue, [])
         | None \<Rightarrow>
             (case call of (out, keys) \<Rightarrow>
                let queue' = map_option (\<lambda>ks. ks @ keys) queue
                in case out of
                     Returned v \<Rightarrow> (Invoked v, queue', if queue = None then keys else [])
                   | Failed e \<Rightarrow> (InvokeError e, queue', [])
                   | Panicked \<Rightarrow> (InvokeError panicError, queue', [])
                   | Aborted \<Rightarrow> (Repanic, queue', [])))"

text \<open>\<open>Invoke\<close>: the lookup over every registration mode, then \<open>invoke\<close>.\<close>

definition Invoke ::
  "(string \<Rightarrow> handler_kind option) \<Rightarrow> string \<Rightarrow> bool \<Rightarrow> 'v outcome option \<Rightarrow> string list option \<Rightarrow>
     'v outcome \<times> string list \<Rightarrow> 'v invoke_result \<times> string list option \<times> string list" where
  "Invoke lookup meth resolved provider queue call =
     (case lookup meth of
        None \<Rightarrow> (InvokeError (NewError CodeMethodNotFound (''method not found: '' @ meth)), queue, [])
      | Some kind \<Rightarrow>
          if kind \<noteq> HandlerKindUnary
          then (InvokeError (NewError CodeInvalidRequest (''streaming handlers cannot be invoked: '' @ meth)), queue, [])
          else invoke resolved provider queue call)"

section \<open>The user index\<close>

text \<open>
  Every way the program changes the server state. \<open>SetUserID\<close> runs on a live connection (from a
  connect hook, the auth hook on the read loop, or middleware); its three critical sections are one
  step, which assumes that one connection does not run two of them at once.
\<close>

inductive srv_step :: "server \<Rightarrow> server \<Rightarrow> bool" where
  srv_set_user: "\<not> departed s c \<Longrightarrow> srv_step s (SetUserID c u s)"
| srv_accept: "\<not> departed s c \<Longrightarrow>
     srv_step s (fst (accept_conn (\<lambda>s. (fold (SetUserID c) us s, ok)) c s))"
| srv_unregister: "srv_step s (unregister_conn c s)"
| srv_disconnect: "srv_step s (fst (DisconnectUser u s))"
| srv_close: "srv_step s (fst (close_conn c s))"
| srv_detached: "conn_user s c = [] \<Longrightarrow> c \<notin> set (conns s) \<Longrightarrow>
     srv_step s (s\<lparr>conn_detached := (conn_detached s)(c := True)\<rparr>)"
| srv_stop: "srv_step s (s\<lparr>stopping := True\<rparr>)"

definition user_inv :: "server \<Rightarrow> bool" where
  "user_inv s \<longleftrightarrow> idx_wf (userConns s) \<and>
     (\<forall>u c. c \<in> set (idx_members (userConns s) u) \<longleftrightarrow>
        u \<noteq> [] \<and> conn_user s c = u \<and> \<not> conn_detached s c \<and> \<not> departed s c)"

lemma user_inv_frame:
  assumes "user_inv s" "userConns t = userConns s" "conn_user t = conn_user s"
    "conn_detached t = conn_detached s" "departed t = departed s"
  shows "user_inv t"
  using assms by (simp add: user_inv_def)

lemma SetUserID_frame [simp]:
  "conn_detached (SetUserID c u s) = conn_detached s" "departed (SetUserID c u s) = departed s"
  "conns (SetUserID c u s) = conns s" "stopping (SetUserID c u s) = stopping s"
  "conn_closed (SetUserID c u s) = conn_closed s"
  "conn_user (SetUserID c u s) = (conn_user s)(c := u)"
  by (simp_all add: SetUserID_def associateUser_def Let_def)

lemma SetUserID_members:
  "set (idx_members (userConns (SetUserID c u s)) v) =
     (if conn_detached s c then set (idx_members (userConns s) v)
      else if v = u \<and> u \<noteq> [] then insert c (set (idx_members (userConns s) v))
      else if v = conn_user s c \<and> v \<noteq> [] \<and> v \<noteq> u then set (idx_members (userConns s) v) - {c}
      else set (idx_members (userConns s) v))"
  by (auto simp: SetUserID_def associateUser_def Let_def goidx.mem_add goidx.mem_remove)

lemma SetUserID_wf: "idx_wf (userConns s) \<Longrightarrow> idx_wf (userConns (SetUserID c u s))"
  by (simp add: SetUserID_def associateUser_def Let_def goidx.wf_add goidx.wf_remove)

lemma user_inv_SetUserID:
  assumes inv: "user_inv s" and live: "\<not> departed s c"
  shows "user_inv (SetUserID c u s)"
  unfolding user_inv_def
proof (intro conjI allI)
  show "idx_wf (userConns (SetUserID c u s))" using inv by (simp add: user_inv_def SetUserID_wf)
  have mem: "d \<in> set (idx_members (userConns s) v) \<longleftrightarrow>
      v \<noteq> [] \<and> conn_user s d = v \<and> \<not> conn_detached s d \<and> \<not> departed s d" for v d
    using inv by (simp add: user_inv_def)
  fix v d
  show "d \<in> set (idx_members (userConns (SetUserID c u s)) v) \<longleftrightarrow>
      v \<noteq> [] \<and> conn_user (SetUserID c u s) d = v \<and> \<not> conn_detached (SetUserID c u s) d \<and>
      \<not> departed (SetUserID c u s) d"
    using live by (auto simp: SetUserID_members mem)
qed

lemma user_inv_fold_SetUserID:
  "user_inv s \<Longrightarrow> \<not> departed s c \<Longrightarrow> user_inv (fold (SetUserID c) us s)"
  by (induction us arbitrary: s) (simp_all add: user_inv_SetUserID)

lemma user_inv_depart:
  assumes "user_inv s"
  shows "user_inv ((disassociateUser c s)\<lparr>departed := (departed s)(c := True)\<rparr>)"
  using assms
  by (auto simp: user_inv_def disassociateUser_def Let_def goidx.mem_remove goidx.wf_remove)

lemma fold_SetUserID_frame: "departed (fold (SetUserID c) us s) = departed s"
  by (induction us arbitrary: s) auto

lemma user_inv_accept:
  assumes "user_inv s" "\<not> departed s c"
  shows "user_inv (fst (accept_conn (\<lambda>s. (fold (SetUserID c) us s, ok)) c s))"
proof -
  have i: "user_inv (fold (SetUserID c) us s)" using user_inv_fold_SetUserID [OF assms] .
  moreover have "user_inv ((fold (SetUserID c) us s)\<lparr>conns := xs\<rparr>)" for xs
    by (rule user_inv_frame [OF i]) simp_all
  ultimately show ?thesis
    by (auto simp: accept_conn_def registerConn_def Let_def user_inv_depart)
qed

lemma close_conn_frame [simp]:
  "userConns (fst (close_conn c s)) = userConns s" "conn_user (fst (close_conn c s)) = conn_user s"
  "conn_detached (fst (close_conn c s)) = conn_detached s" "departed (fst (close_conn c s)) = departed s"
  "conns (fst (close_conn c s)) = conns s" "stopping (fst (close_conn c s)) = stopping s"
  "conn_closed (fst (close_conn c s)) = (conn_closed s)(c := True)"
  by (auto simp: close_conn_def fun_eq_iff)

lemma user_inv_close: "user_inv s \<Longrightarrow> user_inv (fst (close_conn c s))"
  by (rule user_inv_frame) simp_all

lemma user_inv_unregister:
  assumes "user_inv s"
  shows "user_inv (unregister_conn c s)"
proof -
  have "user_inv (s\<lparr>conns := removeAll c (conns s)\<rparr>)" by (rule user_inv_frame [OF assms]) simp_all
  from user_inv_close [OF user_inv_depart [OF this, of c], of c] assms show ?thesis
    by (simp add: unregister_conn_def)
qed

lemma close_conn_snd: "snd (close_conn c s) \<longleftrightarrow> \<not> conn_closed s c"
  by (simp add: close_conn_def)

lemma disconnect_all_spec:
  "distinct cs \<Longrightarrow> disconnect_all u cs s n =
     (s\<lparr>conn_closed := (\<lambda>c. conn_closed s c \<or> c \<in> set cs \<and> conn_user s c = u)\<rparr>,
      n + card {c \<in> set cs. conn_user s c = u \<and> \<not> conn_closed s c})"
proof (induction u cs s n rule: disconnect_all.induct)
  case (2 u c cs s n)
  show ?case
  proof (cases "conn_user s c = u \<and> \<not> conn_closed s c")
    case True
    let ?s = "s\<lparr>conn_closed := (conn_closed s)(c := True)\<rparr>"
    have cl: "close_conn c s = (?s, True)" using True by (simp add: close_conn_def)
    have "{d \<in> set (c # cs). conn_user s d = u \<and> \<not> conn_closed s d} =
        insert c {d \<in> set cs. conn_user ?s d = u \<and> \<not> conn_closed ?s d}"
      using True 2(3) by auto
    then have "card {d \<in> set (c # cs). conn_user s d = u \<and> \<not> conn_closed s d} =
        Suc (card {d \<in> set cs. conn_user ?s d = u \<and> \<not> conn_closed ?s d})"
      using 2(3) by simp
    then show ?thesis
      using True 2(2) [OF _ cl [symmetric]] 2(3) cl by (auto simp: fun_eq_iff)
  next
    case False
    then have "{d \<in> set (c # cs). conn_user s d = u \<and> \<not> conn_closed s d} =
        {d \<in> set cs. conn_user s d = u \<and> \<not> conn_closed s d}" by auto
    moreover have "(\<lambda>d. conn_closed s d \<or> d \<in> set (c # cs) \<and> conn_user s d = u) =
        (\<lambda>d. conn_closed s d \<or> d \<in> set cs \<and> conn_user s d = u)" using False by auto
    ultimately show ?thesis
      using False 2(1) 2(2) [of s False] 2(3) by (auto simp: close_conn_def)
  qed
qed simp

lemma user_inv_disconnect:
  assumes "user_inv s"
  shows "user_inv (fst (DisconnectUser u s))"
proof -
  have "distinct (idx_members (userConns s) u)" using assms by (simp add: user_inv_def idx_members_distinct)
  then show ?thesis
    using assms by (auto simp: DisconnectUser_def disconnect_all_spec intro: user_inv_frame)
qed

lemma user_inv_step: "srv_step s t \<Longrightarrow> user_inv s \<Longrightarrow> user_inv t"
proof (induction rule: srv_step.induct)
  case (srv_detached s c)
  then show ?case by (auto simp: user_inv_def)
next
  case (srv_stop s)
  then show ?case by (rule user_inv_frame) simp_all
qed (auto intro: user_inv_SetUserID user_inv_accept user_inv_unregister user_inv_disconnect user_inv_close)

interpretation user_ts: trans_sys "\<lambda>s. s = newServer" srv_step user_inv
proof
  show "user_inv s" if "s = newServer" for s using that by (auto simp: newServer_def user_inv_def)
qed (rule user_inv_step)

section \<open>Shutdown\<close>

text \<open>
  \<open>Stop\<close> up to the end of its close sweep, interleaved with connections that register, close and
  leave: it sets the flag, snapshots the connections, and closes the snapshot one by one.
\<close>

datatype stop_phase = Serving | Flagged | Sweeping "conn_ptr list" | Swept

inductive stop_step :: "stop_phase \<times> server \<Rightarrow> stop_phase \<times> server \<Rightarrow> bool" where
  stop_flag: "stop_step (Serving, s) (Flagged, s\<lparr>stopping := True\<rparr>)"
| stop_snapshot: "stop_step (Flagged, s) (Sweeping (conns s), s)"
| stop_close: "stop_step (Sweeping (c # cs), s) (Sweeping cs, fst (close_conn c s))"
| stop_end: "stop_step (Sweeping [], s) (Swept, s)"
| stop_register: "stop_step (ph, s) (ph, fst (registerConn c s))"
| stop_unregister: "stop_step (ph, s) (ph, unregister_conn c s)"
| stop_conn_closes: "stop_step (ph, s) (ph, fst (close_conn c s))"

inductive_cases stop_stepE: "stop_step (ph, s) t"

fun stop_inv :: "stop_phase \<times> server \<Rightarrow> bool" where
  "stop_inv (Serving, s) \<longleftrightarrow> \<not> stopping s"
| "stop_inv (Flagged, s) \<longleftrightarrow> stopping s"
| "stop_inv (Sweeping cs, s) \<longleftrightarrow> stopping s \<and> (\<forall>c\<in>set (conns s). conn_closed s c \<or> c \<in> set cs)"
| "stop_inv (Swept, s) \<longleftrightarrow> stopping s \<and> (\<forall>c\<in>set (conns s). conn_closed s c)"

lemma unregister_conn_frame [simp]:
  "conns (unregister_conn c s) = removeAll c (conns s)" "stopping (unregister_conn c s) = stopping s"
  by (auto simp: unregister_conn_def disassociateUser_def Let_def)

lemma unregister_conn_closed: "conn_closed s d \<Longrightarrow> conn_closed (unregister_conn c s) d"
  by (auto simp: unregister_conn_def disassociateUser_def Let_def)

lemma registerConn_stopping: "stopping s \<Longrightarrow> registerConn c s = (s, False)"
  by (simp add: registerConn_def)

lemma registerConn_frame [simp]: "stopping (fst (registerConn c s)) = stopping s"
  by (simp add: registerConn_def)

lemma stop_inv_register: "stop_inv (ph, s) \<Longrightarrow> stop_inv (ph, fst (registerConn c s))"
  by (cases ph) (auto simp: registerConn_stopping)

lemma stop_inv_unregister: "stop_inv (ph, s) \<Longrightarrow> stop_inv (ph, unregister_conn c s)"
  by (cases ph) (auto simp: unregister_conn_closed)

lemma stop_inv_close: "stop_inv (ph, s) \<Longrightarrow> stop_inv (ph, fst (close_conn c s))"
  by (cases ph) auto

lemma stop_inv_step: "stop_step x y \<Longrightarrow> stop_inv x \<Longrightarrow> stop_inv y"
  by (induction rule: stop_step.induct) (auto simp: stop_inv_register stop_inv_unregister stop_inv_close)

interpretation stop_ts: trans_sys "\<lambda>x. x = (Serving, newServer)" stop_step stop_inv
proof
  show "stop_inv x" if "x = (Serving, newServer)" for x using that by (simp add: newServer_def)
qed (rule stop_inv_step)

text \<open>The event loop ends once every connection it waits for has been unregistered.\<close>

lemma run_turn_progress:
  assumes "run_turn e s = (s', False)" "stopping s" "set (conns s) \<subseteq> {c. Unregister c \<in> set (e # es)}"
  shows "stopping s' \<and> set (conns s') \<subseteq> {c. Unregister c \<in> set es} \<and> conns s' \<noteq> []"
  using assms by (cases e) (auto simp: Let_def)

lemma run_ends:
  "stopping s \<Longrightarrow> es \<noteq> [] \<Longrightarrow> set (conns s) \<subseteq> {c. Unregister c \<in> set es} \<Longrightarrow> \<exists>s'. run es s = Some s'"
proof (induction es arbitrary: s)
  case (Cons e es)
  obtain s' fin where t: "run_turn e s = (s', fin)" by fastforce
  show ?case
  proof (cases fin)
    case True
    with t show ?thesis by simp
  next
    case False
    have p: "stopping s'" "set (conns s') \<subseteq> {c. Unregister c \<in> set es}" "conns s' \<noteq> []"
      using run_turn_progress [of e s s' es] t False Cons.prems by auto
    then have "es \<noteq> []" by (cases es) auto
    with Cons.IH [OF p(1) _ p(2)] t False show ?thesis by simp
  qed
qed simp

lemma run_empty: "run es s = Some s' \<Longrightarrow> conns s' = []"
proof (induction es arbitrary: s)
  case (Cons e es)
  then show ?case by (cases e) (auto simp: Let_def split: if_splits)
qed simp

lemma wrap_middleware_foldr: "i \<le> length mws \<Longrightarrow> wrap_middleware mws i h = foldr (\<lambda>mw h. mw h) (take i mws) h"
  by (induction mws i h rule: wrap_middleware.induct) (simp_all add: take_Suc_conv_app_nth)

section \<open>Properties\<close>

text \<open>
  Whatever options \<open>NewServer\<close> is given, every limit it leaves unset has its default,
  chunking thresholds are positive, and the read deadline is longer than the ping period or
  disabled, so that pings keep a healthy connection alive (for ping periods below \<open>2 ^ 62\<close>
  nanoseconds, where doubling cannot overflow).
\<close>

theorem newServer_options_sane:
  assumes "op = newServer_options opts" and "sint (PingInterval op) < 2 ^ 62"
  shows "(sint (PingInterval op) \<le> 0 \<or> sint (PongTimeout op) \<le> 0 \<or> sint (PingInterval op) < sint (PongTimeout op)) \<and>
    ReconnectInterval op > 0 \<and> ReconnectMaxInterval op > 0 \<and> MaxMessageSize op \<noteq> 0 \<and>
    MaxConcurrentRequests op \<noteq> 0 \<and> MaxSubscriptions op \<noteq> 0 \<and>
    (\<forall>cfg. opt_StreamChunking op = Some cfg \<longrightarrow> MaxItems cfg > 0 \<and> MaxBytes cfg > 0 \<and> sint (MaxDelay cfg) > 0)"
proof -
  let ?m = "case opts of None \<Rightarrow> defaultServerOptions | Some opt \<Rightarrow> merge_options defaultServerOptions opt"
  have ping: "PingInterval op = PingInterval ?m"
    using assms(1) by (simp add: newServer_options_def Let_def)
  have "sint (2 * PingInterval ?m) = 2 * sint (PingInterval ?m)" if "0 < sint (PingInterval ?m)"
    using sint_double [OF that] assms(2) unfolding ping .
  then have "sint (PingInterval op) \<le> 0 \<or> sint (PongTimeout op) \<le> 0 \<or> sint (PingInterval op) < sint (PongTimeout op)"
    using assms(1) by (auto simp: newServer_options_def Let_def)
  moreover have "ReconnectInterval ?m > 0 \<and> ReconnectMaxInterval ?m > 0 \<and> MaxMessageSize ?m \<noteq> 0 \<and>
    MaxConcurrentRequests ?m \<noteq> 0 \<and> MaxSubscriptions ?m \<noteq> 0"
    by (simp add: merge_options_def defaultServerOptions_def split: option.split)
  moreover have "MaxItems cfg > 0 \<and> MaxBytes cfg > 0 \<and> sint (MaxDelay cfg) > 0"
    if "opt_StreamChunking ?m = Some cfg" for cfg
    using that by (auto simp: merge_options_def defaultServerOptions_def fill_chunking_def split: option.splits if_splits)
  ultimately show ?thesis using assms(1) by (auto simp: newServer_options_def Let_def)
qed

theorem newServer_options_sane_witness:
  "sint (PongTimeout (newServer_options None)) \<le> 0 \<or>
   sint (PingInterval (newServer_options None)) < sint (PongTimeout (newServer_options None))"
proof -
  have "sint (PingInterval (newServer_options None)) < 2 ^ 62 \<and> 0 < sint (PingInterval (newServer_options None))"
    by code_simp
  with newServer_options_sane [OF refl, of None] show ?thesis by linarith
qed



text \<open>
  A push decided on a stale snapshot never reaches another user: whatever happened
  between the snapshot and the sends, only connections whose user at the time of the send is the
  addressee are sent to, and after a connection changed its user a push for the old one skips it.
\<close>

theorem push_never_misdelivered:
  "set (push_send u cs s') = {c \<in> set cs. conn_user s' c = u} \<and>
   (v \<noteq> u \<longrightarrow> c \<notin> set (push_send u (push_snapshot u s) (SetUserID c v s)))"
  by (auto simp: push_send_def)

theorem push_never_misdelivered_witness:
  "5 \<notin> set (push_send ''ann'' (push_snapshot ''ann'' (SetUserID 5 ''ann'' newServer))
     (SetUserID 5 ''bob'' (SetUserID 5 ''ann'' newServer)))"
  using push_never_misdelivered [of "''ann''" "[]" newServer "''bob''" 5 "SetUserID 5 ''ann'' newServer"] by simp

text \<open>
  \<open>SetUserID\<close> on a connection that has already left (a handler or middleware that is
  still running after the disconnect) puts the connection back into the user index, where nothing
  removes it any more: the next push is addressed to the dead connection.
\<close>

theorem late_SetUserID_leaks:
  "let s1 = fst (accept_conn (\<lambda>s. (s, True)) 7 newServer);
       s2 = unregister_conn 7 s1;
       s3 = SetUserID 7 ''ann'' s2
   in conns s3 = [] \<and> conn_closed s3 7 \<and> PushToUser ''ann'' s3 = [7] \<and> PushToUser ''ann'' (unregister_conn 7 s3) = [7]"
  by code_simp

text \<open>
  Property C16. Graceful shutdown leaves no connection behind: however connections register, close
  and leave while \<open>Stop\<close> runs, once its sweep is over every registered connection is closed, and no
  connection can be registered any more.
\<close>

theorem stop_closes_every_connection:
  assumes "stop_step\<^sup>*\<^sup>* (Serving, newServer) (Swept, s)"
  shows "(\<forall>c\<in>set (conns s). conn_closed s c) \<and> (\<forall>c. registerConn c s = (s, False))"
proof -
  have "stop_inv (Swept, s)" by (rule stop_ts.inv_reachable [OF refl assms])
  then show ?thesis by (simp add: registerConn_stopping)
qed

theorem stop_closes_every_connection_witness:
  "conn_closed (fst (close_conn 3 ((fst (registerConn 3 newServer))\<lparr>stopping := True\<rparr>))) 3"
proof -
  let ?s = "(fst (registerConn 3 newServer))\<lparr>stopping := True\<rparr>"
  have c: "conns ?s = [3]" by (simp add: registerConn_def newServer_def)
  have "stop_step (Serving, newServer) (Serving, fst (registerConn 3 newServer))" by (rule stop_register)
  moreover have "stop_step (Serving, fst (registerConn 3 newServer)) (Flagged, ?s)" by (rule stop_flag)
  moreover have "stop_step (Flagged, ?s) (Sweeping [3], ?s)" using stop_snapshot [of ?s] c by simp
  moreover have "stop_step (Sweeping [3], ?s) (Sweeping [], fst (close_conn 3 ?s))" by (rule stop_close)
  moreover have "stop_step (Sweeping [], fst (close_conn 3 ?s)) (Swept, fst (close_conn 3 ?s))" by (rule stop_end)
  ultimately have "stop_step\<^sup>*\<^sup>* (Serving, newServer) (Swept, fst (close_conn 3 ?s))"
    by (meson converse_rtranclp_into_rtranclp rtranclp.rtrancl_refl)
  then show ?thesis using stop_closes_every_connection [of "fst (close_conn 3 ?s)"] c by simp
qed

text \<open>
  Property C39. The event loop of a stopping server returns, and only when no connection is left: it
  ends as soon as every remaining connection has reported its end, in whatever order the reports
  and the stop signal come.
\<close>

theorem run_returns:
  assumes "stopping s" and "es \<noteq> []" and "set (conns s) \<subseteq> {c. Unregister c \<in> set es}"
  shows "\<exists>s'. run es s = Some s' \<and> conns s' = []"
  using run_ends [OF assms] run_empty by blast

theorem run_returns_witness:
  "\<exists>s'. run [StopSignal, Unregister 4] (newServer\<lparr>stopping := True, conns := [4]\<rparr>) = Some s' \<and> conns s' = []"
  by (rule run_returns) simp_all

text \<open>
  The middleware chain: server middleware is outermost and handler middleware inside
  it, each in registration order, with the handler innermost. So with middleware that records
  entering and leaving, a call enters the server's in order, then the handler group's, and leaves
  in the reverse order.
\<close>

theorem middleware_order:
  "buildHandler serverMW handlerMW final = foldr (\<lambda>mw h. mw h) (serverMW @ handlerMW) final \<and>
   buildHandler (map (\<lambda>n h c q. (n, True) # h c q @ [(n, False)]) ns) (map (\<lambda>n h c q. (n, True) # h c q @ [(n, False)]) ms)
     (\<lambda>c q. []) ctx req = map (\<lambda>n. (n, True)) (ns @ ms) @ map (\<lambda>n. (n, False)) (rev (ns @ ms))"
proof -
  have b: "buildHandler smw hmw f = foldr (\<lambda>mw h. mw h) (smw @ hmw) f" for smw hmw and f :: "('c, 'q, 'o) handler"
    by (simp add: buildHandler_def wrap_middleware_foldr)
  have "foldr (\<lambda>mw h. mw h) (map (\<lambda>n h c q. (n, True) # h c q @ [(n, False)]) xs) (\<lambda>c q. []) ctx req =
      map (\<lambda>n. (n, True)) xs @ map (\<lambda>n. (n, False)) (rev xs)" for xs
    by (induction xs) simp_all
  from this [of "ns @ ms"] show ?thesis by (simp add: buildHandler_def wrap_middleware_foldr)
qed

text \<open>
  Refresh triggers queued by a call are flushed exactly when the call succeeds and
  the queue is \<open>invoke\<close>'s own; a caller's queue is never flushed here and receives the triggers
  instead; a failing or panicking call flushes nothing. A panic turns into the generic internal
  error, and a principal that is already resolved keeps the connection's provider from running.
\<close>

theorem invoke_flush_and_panic:
  assumes "invoke resolved provider queue (out, keys) = (r, q, flushed)"
  shows "flushed = (if queue = None \<and> (\<exists>v. r = Invoked v) then keys else []) \<and>
    ((\<exists>v. r = Invoked v) \<longrightarrow> q = map_option (\<lambda>ks. ks @ keys) queue) \<and>
    (out = Panicked \<longrightarrow> \<not> (\<exists>v. r = Invoked v)) \<and> (resolved \<and> out = Panicked \<longrightarrow> r = InvokeError panicError) \<and>
    (\<not> resolved \<and> provider = Some Panicked \<longrightarrow> r = InvokeError panicError) \<and>
    (resolved \<longrightarrow> invoke True None queue (out, keys) = (r, q, flushed))"
  using assms by (cases out) (auto simp: invoke_def Let_def split: outcome.splits option.splits if_splits)

theorem invoke_flush_and_panic_witness:
  "snd (snd (invoke True None None (Returned (Plain (3 :: int)), [''photos'']))) = [''photos'']"
proof -
  have "invoke True None None (Returned (Plain (3 :: int)), [''photos'']) = (Invoked (Plain 3), None, [''photos''])"
    by (simp add: invoke_def)
  then show ?thesis using invoke_flush_and_panic by fastforce
qed

end
