(* ===== verification/Aprot_Streaming.thy ===== *)
theory Aprot_Streaming
  imports Aprot_Server "HOL-Library.Sublist"
begin

text \<open>
  Streaming handlers: \<open>streamIterator\<close> of \<open>connection.go\<close>, the chunker of \<open>stream_chunk.go\<close> and the
  completion hooks of \<open>context.go\<close>.

  The iteration is a sequence of events: the iterator yields an item, the \<open>MaxDelay\<close> timer of the
  chunker fires, or the request context is cancelled; they may come in any order, the timer at any
  time. The iterator keeps the contract of \<open>iter.Seq\<close>: it does not yield again once \<open>yield\<close> returned
  false. What the transport answers to the \<open>n\<close>-th send is a parameter.
\<close>

section \<open>Sending\<close>

record 'v sink =
  sent :: "'v frame list"
  attempts :: nat

text \<open>\<open>sendJSONCtx\<close>; \<open>res n\<close> is the error of the \<open>n\<close>-th send (a closed connection included).\<close>

definition sendJSONCtx ::
  "'v wire \<Rightarrow> (nat \<Rightarrow> 'v go_error option) \<Rightarrow> 'v frame \<Rightarrow> 'v sink \<Rightarrow> 'v sink \<times> 'v go_error option" where
  "sendJSONCtx w res msg k =
     (case marshalJSON w msg of
        Some e \<Rightarrow> (k, Some (OtherError 0 e []))
      | None \<Rightarrow>
          (case res (attempts k) of
             Some e \<Rightarrow> (k\<lparr>attempts := Suc (attempts k)\<rparr>, Some e)
           | None \<Rightarrow> (k\<lparr>sent := sent k @ [msg], attempts := Suc (attempts k)\<rparr>, None)))"

section \<open>The chunker\<close>

record 'v chunker =
  sc_items :: "'v list"
  sc_bytes :: int
  sc_timer :: bool
  sc_err :: "'v go_error option"

definition newStreamChunker :: "'v chunker" where
  "newStreamChunker = \<lparr>sc_items = [], sc_bytes = 0, sc_timer = False, sc_err = None\<rparr>"

definition flushLocked ::
  "'v wire \<Rightarrow> (nat \<Rightarrow> 'v go_error option) \<Rightarrow> string \<Rightarrow> 'v chunker \<times> 'v sink \<Rightarrow>
     ('v chunker \<times> 'v sink) \<times> 'v go_error option" where
  "flushLocked w res reqID s =
     (let sc = (fst s)\<lparr>sc_timer := False\<rparr>; k = snd s
      in if sc_items sc = [] then ((sc, k), sc_err sc)
         else
           (case sendJSONCtx w res (StreamChunkMessage reqID (sc_items sc)) k of (k', err) \<Rightarrow>
              let sc' = sc\<lparr>sc_items := [], sc_bytes := 0\<rparr>
              in case err of
                   None \<Rightarrow> ((sc', k'), None)
                 | Some e \<Rightarrow> ((if sc_err sc' = None then sc'\<lparr>sc_err := Some e\<rparr> else sc', k'), Some e)))"

text \<open>\<open>len v\<close> is the length of the encoded item.\<close>

definition chunk_add ::
  "'v wire \<Rightarrow> (nat \<Rightarrow> 'v go_error option) \<Rightarrow> string \<Rightarrow> stream_chunking \<Rightarrow> ('v \<Rightarrow> nat) \<Rightarrow> 'v \<Rightarrow> 'v chunker \<times> 'v sink \<Rightarrow>
     ('v chunker \<times> 'v sink) \<times> 'v go_error option" where
  "chunk_add w res reqID cfg len v s =
     (case marshal_err w v of
        Some e \<Rightarrow>
          (let err = OtherError 0 e []
           in ((if sc_err (fst s) = None then (fst s)\<lparr>sc_err := Some err\<rparr> else fst s, snd s), Some err))
      | None \<Rightarrow>
          (case sc_err (fst s) of
             Some e \<Rightarrow> (s, Some e)
           | None \<Rightarrow>
               (let sc = (fst s)\<lparr>sc_items := sc_items (fst s) @ [v], sc_bytes := sc_bytes (fst s) + int (len v)\<rparr>
                in if int (length (sc_items sc)) \<ge> MaxItems cfg \<or> sc_bytes sc \<ge> MaxBytes cfg
                   then flushLocked w res reqID (sc, snd s)
                   else ((if length (sc_items sc) = 1 then sc\<lparr>sc_timer := True\<rparr> else sc, snd s), None))))"

definition delayFlush ::
  "'v wire \<Rightarrow> (nat \<Rightarrow> 'v go_error option) \<Rightarrow> string \<Rightarrow> 'v chunker \<times> 'v sink \<Rightarrow> 'v chunker \<times> 'v sink" where
  "delayFlush w res reqID s = (if sc_err (fst s) = None then fst (flushLocked w res reqID s) else s)"

definition chunk_close ::
  "'v wire \<Rightarrow> (nat \<Rightarrow> 'v go_error option) \<Rightarrow> string \<Rightarrow> 'v chunker \<times> 'v sink \<Rightarrow>
     ('v chunker \<times> 'v sink) \<times> 'v go_error option" where
  "chunk_close w res reqID s = flushLocked w res reqID s"

section \<open>The iteration\<close>

datatype 'v stream_event = Yield 'v | Timer | Cancel cancel_cause

record 'v stream =
  st_chunk :: "'v chunker"
  st_sink :: "'v sink"
  st_canceled :: "cancel_cause option"
  st_stopped :: bool
  st_err :: "'v go_error option"
  itemCount :: nat

definition stream_init :: "'v stream" where
  "stream_init = \<lparr>st_chunk = newStreamChunker, st_sink = \<lparr>sent = [], attempts = 0\<rparr>, st_canceled = None,
     st_stopped = False, st_err = None, itemCount = 0\<rparr>"

text \<open>
  The parameters of one streaming request: encoding, transport, request ID and the chunking
  options, \<open>None\<close> when chunking is off. The yield callback is the case \<open>Yield\<close>.
\<close>

record 'v stream_env =
  se_wire :: "'v wire"
  se_res :: "nat \<Rightarrow> 'v go_error option"
  se_id :: string
  se_cfg :: "stream_chunking option"
  se_len :: "'v \<Rightarrow> nat"

definition yield_send :: "'v stream_env \<Rightarrow> 'v \<Rightarrow> 'v chunker \<times> 'v sink \<Rightarrow>
    ('v chunker \<times> 'v sink) \<times> 'v go_error option" where
  "yield_send e v s =
     (case se_cfg e of
        Some cfg \<Rightarrow> chunk_add (se_wire e) (se_res e) (se_id e) cfg (se_len e) v s
      | None \<Rightarrow> (case sendJSONCtx (se_wire e) (se_res e) (StreamItemMessage (se_id e) v) (snd s) of
                   (k, err) \<Rightarrow> ((fst s, k), err)))"

fun stream_step :: "'v stream_env \<Rightarrow> 'v stream_event \<Rightarrow> 'v stream \<Rightarrow> 'v stream" where
  "stream_step e (Cancel cause) st =
     (if st_canceled st = None then st\<lparr>st_canceled := Some cause\<rparr> else st)"
| "stream_step e Timer st =
     (case se_cfg e of
        None \<Rightarrow> st
      | Some cfg \<Rightarrow>
          (case delayFlush (se_wire e) (se_res e) (se_id e) (st_chunk st, st_sink st) of (sc, k) \<Rightarrow>
             st\<lparr>st_chunk := sc, st_sink := k\<rparr>))"
| "stream_step e (Yield v) st =
     (if st_stopped st then st
      else if st_canceled st \<noteq> None then st\<lparr>st_stopped := True\<rparr>
      else case yield_send e v (st_chunk st, st_sink st) of ((sc, k), err) \<Rightarrow>
        (case err of
           Some x \<Rightarrow> st\<lparr>st_chunk := sc, st_sink := k, st_err := Some x, st_stopped := True\<rparr>
         | None \<Rightarrow> st\<lparr>st_chunk := sc, st_sink := k, itemCount := Suc (itemCount st)\<rparr>))"

definition stream_events :: "'v stream_env \<Rightarrow> 'v stream_event list \<Rightarrow> 'v stream" where
  "stream_events e evs = fold (stream_step e) evs stream_init"

text \<open>
  What follows the iteration: a recovered panic becomes the stream's error, a partial chunk is
  flushed, the completion hooks get the final cause and the item count, and the terminal frame is
  sent (\<open>closed\<close> is the state of the connection then). The result is the frames handed to the
  transport, the argument of the hooks, and the error reported to the observer.
\<close>

definition stream_flush :: "'v stream_env \<Rightarrow> bool \<Rightarrow> 'v stream \<Rightarrow> 'v stream" where
  "stream_flush e panicked st =
     (let st1 = (if panicked then st\<lparr>st_err := Some panicError\<rparr> else st)
      in case se_cfg e of
           None \<Rightarrow> st1
         | Some cfg \<Rightarrow>
             (case chunk_close (se_wire e) (se_res e) (se_id e) (st_chunk st1, st_sink st1) of ((sc, k), err) \<Rightarrow>
                let st2 = st1\<lparr>st_chunk := sc, st_sink := k\<rparr>
                in if err \<noteq> None \<and> st_err st1 = None then st2\<lparr>st_err := err\<rparr> else st2))"

definition final_cause :: "'v stream \<Rightarrow> 'v go_error option" where
  "final_cause st = (case st_canceled st of Some cause \<Rightarrow> Some (CancelReason cause) | None \<Rightarrow> st_err st)"

definition end_error :: "'v stream \<Rightarrow> 'v go_error option" where
  "end_error st =
     (case st_err st of
        None \<Rightarrow> None
      | Some err \<Rightarrow>
          if st_canceled st = None \<and> \<not> same_error err (CancelReason ErrConnectionClosed) then Some err else None)"

definition streamIterator ::
  "'v stream_env \<Rightarrow> 'v error_mappings \<Rightarrow> 'v stream_event list option \<Rightarrow> bool \<Rightarrow> bool \<Rightarrow>
     'v frame list \<times> ('v go_error option \<times> nat) \<times> 'v go_error option" where
  "streamIterator e ms seq panicked cl =
     (case seq of
        None \<Rightarrow> (sendStreamEnd (se_wire e) ms cl (se_id e) None, (None, 0), None)
      | Some evs \<Rightarrow>
          (let st = stream_flush e panicked (stream_events e evs)
           in (sent (st_sink st) @ sendStreamEnd (se_wire e) ms cl (se_id e) (end_error st),
               (final_cause st, itemCount st), end_error st)))"

text \<open>
  \<open>streamHooks.run\<close>: every hook is called once, in order, with the same arguments; a panicking hook
  is logged and does not stop the others. A hook is its name and whether it panics; the result is
  the calls made and the panics logged.
\<close>

fun run_hooks :: "(nat \<times> bool) list \<Rightarrow> 'a \<Rightarrow> (nat \<times> 'a) list \<times> nat list" where
  "run_hooks [] x = ([], [])"
| "run_hooks ((h, panics) # hs) x =
     (case run_hooks hs x of (calls, logged) \<Rightarrow> ((h, x) # calls, if panics then h # logged else logged))"

section \<open>What reaches the client\<close>

fun frame_items :: "'v frame \<Rightarrow> 'v list" where
  "frame_items (StreamItemMessage i v) = [v]"
| "frame_items (StreamChunkMessage i vs) = vs"
| "frame_items f = []"

definition delivered :: "'v frame list \<Rightarrow> 'v list" where
  "delivered fs = concat (map frame_items fs)"

fun yielded :: "'v stream_event list \<Rightarrow> 'v list" where
  "yielded [] = []"
| "yielded (Yield v # evs) = v # yielded evs"
| "yielded (_ # evs) = yielded evs"

lemma delivered_append [simp]: "delivered (fs @ gs) = delivered fs @ delivered gs"
  by (simp add: delivered_def)

lemma delivered_Nil [simp]: "delivered [] = []"
  by (simp add: delivered_def)

lemma delivered_chunk [simp]: "delivered [StreamChunkMessage i vs] = vs"
  by (simp add: delivered_def)

lemma delivered_item [simp]: "delivered [StreamItemMessage i v] = [v]"
  by (simp add: delivered_def)

lemma yielded_append [simp]: "yielded (xs @ ys) = yielded xs @ yielded ys"
  by (induction xs rule: yielded.induct) simp_all

definition content :: "'v chunker \<times> 'v sink \<Rightarrow> 'v list" where
  "content s = delivered (sent (snd s)) @ sc_items (fst s)"

lemma sendJSONCtx_cases:
  assumes "sendJSONCtx w res msg k = (k', err)"
  shows "(err = None \<and> sent k' = sent k @ [msg]) \<or> (err \<noteq> None \<and> sent k' = sent k)"
  using assms by (auto simp: sendJSONCtx_def split: option.splits)

lemma flush_content:
  assumes "flushLocked w res i s = (s', err)"
  shows "sc_items (fst s') = [] \<and>
    (content s' = content s \<and> sc_err (fst s') = sc_err (fst s) \<or>
     content s' = delivered (sent (snd s)) \<and> sc_err (fst s') \<noteq> None)"
  using assms
  by (auto simp: flushLocked_def content_def Let_def split: if_splits prod.splits option.splits
      dest!: sendJSONCtx_cases)

lemma flush_prefix:
  assumes "flushLocked w res i s = (s', err)"
  shows "prefix (content s') (content s) \<and> (sc_err (fst s') = None \<longrightarrow> sc_err (fst s) = None \<and> content s' = content s)"
  using flush_content [OF assms] by (auto simp: content_def)

lemma chunk_add_content:
  assumes "chunk_add w res i cfg len v s = (s', err)"
  shows "prefix (content s') (content s @ [v]) \<and>
    (sc_err (fst s) \<noteq> None \<longrightarrow> prefix (content s') (content s)) \<and>
    (sc_err (fst s') = None \<longrightarrow> sc_err (fst s) = None \<and> content s' = content s @ [v])"
proof (cases "marshal_err w v = None \<and> sc_err (fst s) = None")
  case False
  then show ?thesis using assms
    by (cases "marshal_err w v"; cases "sc_err (fst s)") (auto simp: chunk_add_def Let_def content_def)
next
  case True
  define sc where "sc = (fst s)\<lparr>sc_items := sc_items (fst s) @ [v], sc_bytes := sc_bytes (fst s) + int (len v)\<rparr>"
  have c: "content (sc, snd s) = content s @ [v]" "sc_err sc = None" using True by (simp_all add: content_def sc_def)
  show ?thesis
  proof (cases "int (length (sc_items sc)) \<ge> MaxItems cfg \<or> sc_bytes sc \<ge> MaxBytes cfg")
    case T: True
    then have "flushLocked w res i (sc, snd s) = (s', err)"
      using assms True unfolding chunk_add_def sc_def by (simp add: Let_def)
    from flush_prefix [OF this] c True show ?thesis by auto
  next
    case F: False
    then have "s' = (if length (sc_items sc) = 1 then sc\<lparr>sc_timer := True\<rparr> else sc, snd s)"
      using assms True unfolding chunk_add_def sc_def by (auto simp: Let_def split: if_splits)
    then have "content s' = content (sc, snd s) \<and> sc_err (fst s') = sc_err sc" by (simp add: content_def)
    with c True show ?thesis by simp
  qed
qed

lemma delayFlush_content:
  "prefix (content (delayFlush w res i s)) (content s) \<and>
   (sc_err (fst (delayFlush w res i s)) = None \<longrightarrow> sc_err (fst s) = None \<and> content (delayFlush w res i s) = content s)"
proof (cases "sc_err (fst s) = None")
  case True
  obtain s' err where f: "flushLocked w res i s = (s', err)" by fastforce
  with True flush_prefix [OF f] show ?thesis by (simp add: delayFlush_def)
qed (auto simp: delayFlush_def)

lemma yield_send_content:
  assumes "yield_send e v s = (s', err)" "se_cfg e = None \<longrightarrow> fst s = newStreamChunker"
  shows "prefix (content s') (content s @ [v]) \<and>
    (sc_err (fst s) \<noteq> None \<longrightarrow> prefix (content s') (content s)) \<and>
    (err = None \<and> sc_err (fst s') = None \<longrightarrow> content s' = content s @ [v]) \<and>
    (sc_err (fst s') = None \<longrightarrow> sc_err (fst s) = None) \<and>
    (se_cfg e = None \<longrightarrow> fst s' = newStreamChunker)"
proof (cases "se_cfg e")
  case None
  obtain k' er where k: "sendJSONCtx (se_wire e) (se_res e) (StreamItemMessage (se_id e) v) (snd s) = (k', er)"
    by fastforce
  then have "s' = (fst s, k')" "err = er" using assms(1) None by (auto simp: yield_send_def)
  then show ?thesis using sendJSONCtx_cases [OF k] assms(2) None
    by (auto simp: content_def newStreamChunker_def)
next
  case (Some cfg)
  then have "chunk_add (se_wire e) (se_res e) (se_id e) cfg (se_len e) v s = (s', err)"
    using assms(1) by (simp add: yield_send_def)
  from chunk_add_content [OF this] Some show ?thesis by auto
qed

definition stream_inv :: "'v stream_env \<Rightarrow> 'v list \<Rightarrow> 'v stream \<Rightarrow> bool" where
  "stream_inv e ys st \<longleftrightarrow> prefix (content (st_chunk st, st_sink st)) ys \<and>
     (\<not> st_stopped st \<and> sc_err (st_chunk st) = None \<longrightarrow> content (st_chunk st, st_sink st) = ys) \<and>
     (se_cfg e = None \<longrightarrow> st_chunk st = newStreamChunker)"

lemma stream_inv_step:
  assumes inv: "stream_inv e ys st"
  shows "stream_inv e (ys @ yielded [ev]) (stream_step e ev st)"
proof (cases ev)
  case (Cancel cause)
  then show ?thesis using inv by (simp add: stream_inv_def)
next
  case Timer
  show ?thesis
  proof (cases "se_cfg e")
    case None
    then show ?thesis using inv Timer by simp
  next
    case (Some cfg)
    then show ?thesis
      using inv Timer delayFlush_content [of "se_wire e" "se_res e" "se_id e" "(st_chunk st, st_sink st)"]
      by (auto simp: stream_inv_def split: prod.splits intro: prefix_order.trans)
  qed
next
  case (Yield v)
  show ?thesis
  proof (cases "st_stopped st \<or> st_canceled st \<noteq> None")
    case True
    then show ?thesis using inv Yield by (auto simp: stream_inv_def)
  next
    case False
    obtain sc k err where y: "yield_send e v (st_chunk st, st_sink st) = ((sc, k), err)" by (metis surj_pair)
    note c = yield_send_content [OF y]
    have base: "prefix (content (sc, k)) (ys @ [v])"
    proof (cases "sc_err (st_chunk st) = None")
      case True
      then have "content (st_chunk st, st_sink st) = ys" using inv False by (simp add: stream_inv_def)
      then show ?thesis using c inv by (auto simp: stream_inv_def)
    next
      case E: False
      then have "prefix (content (sc, k)) (content (st_chunk st, st_sink st))" using c inv by (simp add: stream_inv_def)
      then show ?thesis using inv by (meson prefixI prefix_order.trans stream_inv_def)
    qed
    show ?thesis
      using base False y Yield c inv by (auto simp: stream_inv_def split: option.splits)
  qed
qed

lemma stream_inv_events: "stream_inv e (yielded evs) (stream_events e evs)"
proof (induction evs rule: rev_induct)
  case Nil
  then show ?case
    by (simp add: stream_events_def stream_inv_def stream_init_def content_def newStreamChunker_def)
next
  case (snoc ev evs)
  from stream_inv_step [OF this, of ev] show ?case by (simp add: stream_events_def)
qed

lemma stream_flush_prefix:
  assumes "stream_inv e ys st"
  shows "prefix (delivered (sent (st_sink (stream_flush e panicked st)))) ys"
proof (cases "se_cfg e")
  case None
  then show ?thesis using assms
    by (auto simp: stream_flush_def stream_inv_def content_def newStreamChunker_def)
next
  case (Some cfg)
  obtain s' err where f: "flushLocked (se_wire e) (se_res e) (se_id e) (st_chunk st, st_sink st) = (s', err)" by fastforce
  have "delivered (sent (snd s')) = content s'" using flush_content [OF f] by (simp add: content_def)
  moreover have "prefix (content s') ys"
    using flush_prefix [OF f] assms by (auto simp: stream_inv_def intro: prefix_order.trans)
  ultimately show ?thesis
    using f Some by (cases s') (auto simp: stream_flush_def chunk_close_def Let_def)
qed

section \<open>Undisturbed streams\<close>

text \<open>No cancellation, no failing send, and every item encodes.\<close>

definition undisturbed :: "'v stream_env \<Rightarrow> 'v stream_event list \<Rightarrow> bool" where
  "undisturbed e evs \<longleftrightarrow> utf8_valid (se_id e) \<and> (\<forall>n. se_res e n = None) \<and>
     (\<forall>v\<in>set (yielded evs). marshal_err (se_wire e) v = None) \<and> (\<forall>cause. Cancel cause \<notin> set evs)"

definition smooth :: "'v stream_env \<Rightarrow> 'v chunker \<Rightarrow> bool" where
  "smooth e sc \<longleftrightarrow> sc_err sc = None \<and> (\<forall>v\<in>set (sc_items sc). marshal_err (se_wire e) v = None)"

definition calm :: "'v stream_env \<Rightarrow> 'v list \<Rightarrow> 'v stream \<Rightarrow> bool" where
  "calm e ys st \<longleftrightarrow> smooth e (st_chunk st) \<and> \<not> st_stopped st \<and> st_canceled st = None \<and> st_err st = None \<and>
     itemCount st = length ys"

lemma flush_smooth:
  assumes "smooth e (fst s)" "utf8_valid (se_id e)" "\<forall>n. se_res e n = None"
    and "flushLocked (se_wire e) (se_res e) (se_id e) s = (s', err)"
  shows "smooth e (fst s') \<and> err = None"
proof -
  have "marshalJSON (se_wire e) (StreamChunkMessage (se_id e) (sc_items (fst s))) = None"
    using assms(1,2) by (simp add: first_err_None smooth_def)
  with assms show ?thesis
    by (auto simp: flushLocked_def sendJSONCtx_def smooth_def Let_def split: if_splits prod.splits option.splits)
qed

lemma yield_smooth:
  assumes "smooth e (fst s)" "utf8_valid (se_id e)" "\<forall>n. se_res e n = None" "marshal_err (se_wire e) v = None"
    and "yield_send e v s = (s', err)"
  shows "smooth e (fst s') \<and> err = None"
proof (cases "se_cfg e")
  case None
  then show ?thesis using assms by (auto simp: yield_send_def sendJSONCtx_def first_err_None split: option.splits)
next
  case (Some cfg)
  define sc where "sc = (fst s)\<lparr>sc_items := sc_items (fst s) @ [v], sc_bytes := sc_bytes (fst s) + int (se_len e v)\<rparr>"
  have sm: "smooth e (fst (sc, snd s))" using assms(1,4) by (auto simp: smooth_def sc_def)
  have "sc_err (fst s) = None" using assms(1) by (simp add: smooth_def)
  then have "chunk_add (se_wire e) (se_res e) (se_id e) cfg (se_len e) v s =
      (if int (length (sc_items sc)) \<ge> MaxItems cfg \<or> sc_bytes sc \<ge> MaxBytes cfg
       then flushLocked (se_wire e) (se_res e) (se_id e) (sc, snd s)
       else ((if length (sc_items sc) = 1 then sc\<lparr>sc_timer := True\<rparr> else sc, snd s), None))"
    using assms(4) by (simp add: chunk_add_def Let_def sc_def)
  then show ?thesis
    using Some assms(5) flush_smooth [OF sm assms(2,3), of s' err] sm
    by (auto simp: yield_send_def smooth_def split: if_splits)
qed

lemma calm_events:
  assumes "undisturbed e evs"
  shows "calm e (yielded evs) (stream_events e evs)"
  using assms
proof (induction evs rule: rev_induct)
  case Nil
  then show ?case by (simp add: stream_events_def calm_def stream_init_def newStreamChunker_def smooth_def)
next
  case (snoc ev evs)
  have u: "undisturbed e evs" "utf8_valid (se_id e)" "\<forall>n. se_res e n = None"
    using snoc.prems by (auto simp: undisturbed_def)
  let ?st = "stream_events e evs"
  have calm: "calm e (yielded evs) ?st" by (rule snoc.IH [OF u(1)])
  have "calm e (yielded evs @ yielded [ev]) (stream_step e ev ?st)"
  proof (cases ev)
    case (Cancel cause)
    then show ?thesis using snoc.prems by (auto simp: undisturbed_def)
  next
    case Timer
    obtain s' err where f: "flushLocked (se_wire e) (se_res e) (se_id e) (st_chunk ?st, st_sink ?st) = (s', err)" by fastforce
    show ?thesis using Timer calm flush_smooth [OF _ u(2,3) f]
      by (cases s') (auto simp: calm_def delayFlush_def f split: option.splits prod.splits)
  next
    case (Yield v)
    obtain sc k err where y: "yield_send e v (st_chunk ?st, st_sink ?st) = ((sc, k), err)" by (metis surj_pair)
    have "marshal_err (se_wire e) v = None" using snoc.prems Yield by (simp add: undisturbed_def)
    from yield_smooth [OF _ u(2,3) this y] calm y Yield show ?thesis by (simp add: calm_def)
  qed
  then show ?case by (simp add: stream_events_def)
qed

lemma undisturbed_flush:
  assumes u: "undisturbed e evs"
  shows "delivered (sent (st_sink (stream_flush e False (stream_events e evs)))) = yielded evs \<and>
    st_err (stream_flush e False (stream_events e evs)) = None \<and>
    st_canceled (stream_flush e False (stream_events e evs)) = None \<and>
    itemCount (stream_flush e False (stream_events e evs)) = length (yielded evs)"
proof -
  let ?st = "stream_events e evs"
  have calm: "calm e (yielded evs) ?st" and inv: "stream_inv e (yielded evs) ?st"
    using calm_events [OF u] stream_inv_events by blast+
  have c: "content (st_chunk ?st, st_sink ?st) = yielded evs"
    using calm inv by (simp add: calm_def stream_inv_def smooth_def)
  show ?thesis
  proof (cases "se_cfg e")
    case None
    then show ?thesis using c inv calm
      by (auto simp: stream_flush_def content_def stream_inv_def newStreamChunker_def calm_def)
  next
    case (Some cfg)
    obtain s' err where f: "flushLocked (se_wire e) (se_res e) (se_id e) (st_chunk ?st, st_sink ?st) = (s', err)" by fastforce
    have "smooth e (fst s') \<and> err = None"
      using flush_smooth [OF _ _ _ f] calm u by (simp add: calm_def undisturbed_def)
    moreover from this have "delivered (sent (snd s')) = yielded evs"
      using flush_content [OF f] c by (auto simp: content_def smooth_def)
    ultimately show ?thesis using f Some calm
      by (cases s') (auto simp: stream_flush_def chunk_close_def Let_def calm_def)
  qed
qed

section \<open>Frames of a stream\<close>

definition item_frames :: "string \<Rightarrow> 'v sink \<Rightarrow> bool" where
  "item_frames i k \<longleftrightarrow> (\<forall>f\<in>set (sent k). (\<exists>v. f = StreamItemMessage i v) \<or> (\<exists>vs. f = StreamChunkMessage i vs))"

lemma flush_item_frames:
  "flushLocked w res i s = (s', err) \<Longrightarrow> item_frames i (snd s) \<Longrightarrow> item_frames i (snd s')"
  by (auto simp: flushLocked_def item_frames_def Let_def split: if_splits prod.splits option.splits
      dest!: sendJSONCtx_cases)

lemma yield_item_frames:
  "yield_send e v s = (s', err) \<Longrightarrow> item_frames (se_id e) (snd s) \<Longrightarrow> item_frames (se_id e) (snd s')"
proof (cases "se_cfg e")
  case None
  assume "yield_send e v s = (s', err)" "item_frames (se_id e) (snd s)"
  with None show ?thesis
    by (auto simp: yield_send_def item_frames_def split: prod.splits dest!: sendJSONCtx_cases)
next
  case (Some cfg)
  assume "yield_send e v s = (s', err)" "item_frames (se_id e) (snd s)"
  with Some show ?thesis
    by (auto simp: yield_send_def chunk_add_def Let_def split: option.splits if_splits dest: flush_item_frames)
qed

lemma stream_step_item_frames:
  assumes "item_frames (se_id e) (st_sink st)"
  shows "item_frames (se_id e) (st_sink (stream_step e ev st))"
proof (cases ev)
  case (Yield v)
  obtain sc k err where y: "yield_send e v (st_chunk st, st_sink st) = ((sc, k), err)" by (metis surj_pair)
  from yield_item_frames [OF y] assms show ?thesis by (auto simp: Yield y split: option.splits)
next
  case Timer
  obtain s' err where f: "flushLocked (se_wire e) (se_res e) (se_id e) (st_chunk st, st_sink st) = (s', err)" by fastforce
  from flush_item_frames [OF f] assms show ?thesis
    by (cases s') (auto simp: Timer delayFlush_def f split: option.splits)
qed (use assms in simp)

lemma stream_events_item_frames: "item_frames (se_id e) (st_sink (stream_events e evs))"
proof (induction evs rule: rev_induct)
  case Nil
  then show ?case by (simp add: stream_events_def stream_init_def item_frames_def)
next
  case (snoc ev evs)
  from stream_step_item_frames [OF this] show ?case by (simp add: stream_events_def)
qed

lemma stream_flush_item_frames:
  assumes "item_frames (se_id e) (st_sink st)"
  shows "item_frames (se_id e) (st_sink (stream_flush e panicked st))"
proof -
  obtain s' err where f: "flushLocked (se_wire e) (se_res e) (se_id e) (st_chunk st, st_sink st) = (s', err)" by fastforce
  from flush_item_frames [OF f] assms show ?thesis
    by (cases s') (auto simp: stream_flush_def chunk_close_def Let_def f split: option.splits)
qed

lemma item_frames_no_answer: "item_frames i k \<Longrightarrow> f \<in> set (sent k) \<Longrightarrow> \<not> answers j f"
  by (auto simp: item_frames_def)

lemma stream_flush_canceled: "st_canceled (stream_flush e panicked st) = st_canceled st"
  by (auto simp: stream_flush_def Let_def split: option.splits prod.splits)

lemma stream_canceled_iff: "st_canceled (stream_events e evs) \<noteq> None \<longleftrightarrow> (\<exists>cause. Cancel cause \<in> set evs)"
proof (induction evs rule: rev_induct)
  case (snoc ev evs)
  have "st_canceled (stream_step e ev st) = None \<longleftrightarrow> st_canceled st = None \<and> (\<forall>cause. ev \<noteq> Cancel cause)" for st
    by (cases ev) (auto split: option.splits prod.splits)
  with snoc show ?case by (auto simp: stream_events_def)
qed (simp add: stream_events_def stream_init_def)

lemma sendStreamEnd_last:
  assumes "utf8_valid i" "case err of None \<Rightarrow> True | Some x \<Rightarrow> utf8_valid (client_text x)"
  shows "\<exists>m d. sendStreamEnd w ms False i err = [StreamEndMessage i (errorCode ms err) m d]"
proof (cases err)
  case None
  then show ?thesis using assms by (simp add: sendStreamEnd_def)
next
  case (Some x)
  obtain d where "stream_end_msg ms i (Some x) = StreamEndMessage i (errorCode ms (Some x)) (client_text x) d"
    using stream_end_msg_text by blast
  then show ?thesis using Some assms by (auto simp: sendStreamEnd_def Let_def split: option.splits)
qed

lemma stream_ends:
  assumes "streamIterator e ms seq panicked False = (fs, (cause, n), err)" and "utf8_valid (se_id e)"
    and "case err of None \<Rightarrow> True | Some x \<Rightarrow> utf8_valid (client_text x)"
  shows "(\<exists>gs m d. fs = gs @ [StreamEndMessage (se_id e) (errorCode ms err) m d] \<and>
      (\<forall>g\<in>set gs. \<forall>i. \<not> answers i g)) \<and>
    (\<forall>evs c. seq = Some evs \<and> Cancel c \<in> set evs \<longrightarrow> err = None \<and> (\<exists>c'. cause = Some (CancelReason c')))"
proof -
  obtain m d where last: "sendStreamEnd (se_wire e) ms False (se_id e) err = [StreamEndMessage (se_id e) (errorCode ms err) m d]"
    using sendStreamEnd_last [OF assms(2,3)] by blast
  show ?thesis
  proof (cases seq)
    case None
    then show ?thesis using assms(1) last by (auto simp: streamIterator_def)
  next
    case (Some evs)
    let ?st = "stream_flush e panicked (stream_events e evs)"
    have fs: "fs = sent (st_sink ?st) @ sendStreamEnd (se_wire e) ms False (se_id e) err"
      and er: "err = end_error ?st" and ca: "cause = final_cause ?st"
      using assms(1) Some by (auto simp: streamIterator_def Let_def)
    have "\<forall>g\<in>set (sent (st_sink ?st)). \<forall>i. \<not> answers i g"
      using item_frames_no_answer [OF stream_flush_item_frames [OF stream_events_item_frames]] by blast
    moreover have "err = None \<and> (\<exists>c'. cause = Some (CancelReason c'))" if mem: "Cancel c \<in> set evs" for c
    proof -
      obtain c' where "st_canceled ?st = Some c'"
        using iffD2 [OF stream_canceled_iff exI, OF mem, of e] by (auto simp: stream_flush_canceled)
      then show ?thesis by (simp add: er ca end_error_def final_cause_def split: option.split)
    qed
    ultimately show ?thesis unfolding fs last Some by auto
  qed
qed

section \<open>Properties\<close>

text \<open>
  Property C10. Chunking is transparent: whatever the thresholds, the sizes of the items and the
  moments the flush timer fires, a stream that is not cut short delivers exactly the items the
  handler yielded, in order, the same as without chunking, and its terminal frame carries no error.
\<close>

theorem chunking_transparent:
  assumes "undisturbed e evs" and "streamIterator e ms (Some evs) False cl = (fs, hook, err)"
  shows "delivered fs = yielded evs \<and> hook = (None, length (yielded evs)) \<and> err = None \<and>
    delivered fs = delivered (fst (streamIterator (e\<lparr>se_cfg := None\<rparr>) ms (Some (map Yield (yielded evs))) False cl))"
proof -
  have ye: "yielded (map Yield xs) = xs" for xs :: "'a list" by (induction xs) simp_all
  have u': "undisturbed (e\<lparr>se_cfg := None\<rparr>) (map Yield (yielded evs))"
    using assms(1) by (auto simp: undisturbed_def ye)
  have no: "delivered (sendStreamEnd w ms cl i x) = []" for w i and x :: "'a go_error option"
    using sendStreamEnd_frames [of _ w ms cl i x] unfolding delivered_def
    by (intro iffD2 [OF concat_eq_Nil_conv]) (force elim!: frame_error.elims)
  show ?thesis
    using undisturbed_flush [OF assms(1)] undisturbed_flush [OF u'] assms(2)
    by (auto simp: streamIterator_def Let_def no ye final_cause_def end_error_def)
qed

text \<open>
  A stream never delivers anything the handler did not yield, out of order or twice:
  under any cancellation, failing sends, items that do not encode and a panic, chunked or not, what
  reaches the transport before the terminal frame is a prefix of the yielded items.
\<close>

theorem stream_delivers_prefix:
  "prefix (delivered (fst (streamIterator e ms (Some evs) panicked cl))) (yielded evs)"
proof -
  have no: "delivered (sendStreamEnd w ms cl i x) = []" for w i and x :: "'a go_error option"
    using sendStreamEnd_frames [of _ w ms cl i x] unfolding delivered_def
    by (intro iffD2 [OF concat_eq_Nil_conv]) (force elim!: frame_error.elims)
  show ?thesis
    using stream_flush_prefix [OF stream_inv_events] by (simp add: streamIterator_def Let_def no)
qed

definition env3 :: "int stream_env" where
  "env3 = \<lparr>se_wire = example_wire, se_res = (\<lambda>_. None), se_id = ''9'',
     se_cfg = Some \<lparr>MaxItems = 2, MaxBytes = 1000, MaxDelay = 1\<rparr>, se_len = (\<lambda>_. 1)\<rparr>"

theorem chunking_transparent_witness:
  "delivered (fst (streamIterator env3 [] (Some [Yield 1, Timer, Yield 2, Yield 3]) False False)) = [1, 2, 3]"
proof -
  have "undisturbed env3 [Yield 1, Timer, Yield 2, Yield 3]"
    by (simp add: undisturbed_def env3_def example_wire_def utf8_valid_ascii_Cons byte_def)
  from chunking_transparent [OF this, of "[]" False] show ?thesis
    by (metis prod.collapse yielded.simps(1,2,3))
qed



text \<open>
  Completion hooks: each registered hook is called exactly once, in registration
  order, with the stream's outcome, whichever of the others panic; every panic is logged.
\<close>

theorem hooks_all_run:
  "fst (run_hooks hs x) = map (\<lambda>(h, p). (h, x)) hs \<and> snd (run_hooks hs x) = map fst (filter snd hs)"
  by (induction hs x rule: run_hooks.induct) (auto split: prod.splits)

end
