(* ===== verification/Aprot_Dispatch.thy ===== *)
theory Aprot_Dispatch
  imports Aprot_Streaming
begin

text \<open>
  One execution of a request, a subscribe or a server-driven refresh from the start of its
  goroutine to its last frame: \<open>handleRequest\<close>, \<open>runSubscribe\<close> and \<open>refreshSubscription\<close> of
  \<open>connection.go\<close>. What consumer code does during the execution (the principal provider, the
  handler chain, the iterator) and what the environment does (cancellation, the state of the
  connection) is the parameter \<open>exec\<close>; the table of in-flight requests is the subject of
  \<open>Aprot_Connection\<close>.
\<close>

section \<open>Executions\<close>

text \<open>
  \<^item> \<open>x_provider\<close>: the outcome of the principal provider, \<open>None\<close> when none is set;
  \<^item> \<open>x_auth_canceled\<close>: the context was already cancelled when the provider failed;
  \<^item> \<open>x_call\<close>: the outcome of the handler chain and the triggers it queued;
  \<^item> \<open>x_canceled\<close>, \<open>x_late_canceled\<close>: the context was cancelled when the chain returned, or by the
    time of the second check of a subscribe or refresh;
  \<^item> \<open>x_keys\<close>: the trigger keys the handler collected;
  \<^item> \<open>x_closed\<close>, \<open>x_binary\<close>: the connection is closed, its transport has binary frames;
  \<^item> \<open>x_stream\<close>: the events of the iterator and whether it panicked.
\<close>

record 'v exec =
  x_provider :: "'v outcome option"
  x_auth_canceled :: bool
  x_call :: "'v outcome \<times> string list"
  x_canceled :: bool
  x_late_canceled :: bool
  x_keys :: "string list"
  x_closed :: bool
  x_binary :: bool
  x_stream :: "'v stream_event list option \<times> bool"

record 'v dispatch_env =
  de_wire :: "'v wire"
  de_errors :: "'v error_mappings"
  de_chunking :: "stream_chunking option"
  de_len :: "'v \<Rightarrow> nat"
  de_res :: "nat \<Rightarrow> 'v go_error option"

definition stream_env_of :: "'v dispatch_env \<Rightarrow> string \<Rightarrow> 'v stream_env" where
  "stream_env_of e i = \<lparr>se_wire = de_wire e, se_res = de_res e, se_id = i, se_cfg = de_chunking e, se_len = de_len e\<rparr>"

text \<open>The deferred recover of each path: the generic error frame.\<close>

definition backstop :: "'v dispatch_env \<Rightarrow> 'v exec \<Rightarrow> string \<Rightarrow> 'v frame list" where
  "backstop e x i = sendError (de_wire e) (x_closed x) i CodeInternalError ''handler panicked''"

definition canceled_frame :: "'v dispatch_env \<Rightarrow> 'v exec \<Rightarrow> string \<Rightarrow> 'v frame list" where
  "canceled_frame e x i = sendError (de_wire e) (x_closed x) i CodeCanceled ''request canceled''"

text \<open>
  The principal stage of a request or subscribe: \<open>None\<close> when the execution goes on, otherwise the
  frames and the code it ends with.
\<close>

definition principal_stage :: "'v dispatch_env \<Rightarrow> 'v exec \<Rightarrow> string \<Rightarrow> ('v frame list \<times> int) option" where
  "principal_stage e x i =
     (case x_provider x of
        None \<Rightarrow> None
      | Some (Returned p) \<Rightarrow> None
      | Some (Failed err) \<Rightarrow>
          if x_auth_canceled x then Some (canceled_frame e x i, CodeCanceled)
          else Some (sendErrorFor (de_wire e) (de_errors e) (x_closed x) i err)
      | Some _ \<Rightarrow> Some (backstop e x i, CodeInternalError))"

text \<open>The call of the handler: through \<open>invoke\<close> for a unary handler, directly for a stream.\<close>

definition call_stage :: "handler_kind \<Rightarrow> 'v exec \<Rightarrow> 'v invoke_result \<times> string list" where
  "call_stage kind x =
     (if kind = HandlerKindUnary then
        (case invoke (x_provider x \<noteq> None) (x_provider x) (Some []) (x_call x) of (r, q, fl) \<Rightarrow>
           (r, case q of None \<Rightarrow> [] | Some ks \<Rightarrow> ks))
      else
        (case x_call x of
           (Returned v, keys) \<Rightarrow> (Invoked v, keys)
         | (Failed err, keys) \<Rightarrow> (InvokeError err, keys)
         | (_, keys) \<Rightarrow> (Repanic, keys)))"

text \<open>The result is the frames, the code reported to the observer, and the triggers flushed.\<close>

definition handleRequest ::
  "'v dispatch_env \<Rightarrow> handler_kind \<Rightarrow> string \<Rightarrow> 'v exec \<Rightarrow> 'v frame list \<times> int \<times> string list" where
  "handleRequest e kind i x =
     (case principal_stage e x i of
        Some (fs, code) \<Rightarrow> (fs, code, [])
      | None \<Rightarrow>
          (case call_stage kind x of (r, queue) \<Rightarrow>
             if r = Repanic then (backstop e x i, CodeInternalError, [])
             else if x_canceled x then (canceled_frame e x i, CodeCanceled, [])
             else case r of
                 InvokeError err \<Rightarrow>
                   (case sendErrorFor (de_wire e) (de_errors e) (x_closed x) i err of (fs, code) \<Rightarrow> (fs, code, []))
               | Invoked v \<Rightarrow>
                   if kind = HandlerKindUnary
                   then (sendResponse (de_wire e) (x_binary x) (x_closed x) i v, 0, queue)
                   else (case streamIterator (stream_env_of e i) (de_errors e) (fst (x_stream x)) (snd (x_stream x)) (x_closed x) of
                           (fs, hook, err) \<Rightarrow> (fs, errorCode (de_errors e) err, queue))
               | Repanic \<Rightarrow> ([], 0, [])))"

text \<open>
  \<open>runSubscribe\<close>, on the subscription manager. \<open>sub\<close> carries the connection, ID, method, params and
  patch support of the frame; the handler's keys are added here.
\<close>

definition runSubscribe ::
  "'v dispatch_env \<Rightarrow> int option \<Rightarrow> subscription \<Rightarrow> 'v exec \<Rightarrow> subscriptionManager \<Rightarrow>
     subscriptionManager \<times> 'v frame list \<times> int \<times> string list" where
  "runSubscribe e maxSubs sub x sm =
     (let i = sub_id sub
      in case principal_stage e x i of
        Some (fs, code) \<Rightarrow> (sm, fs, code, [])
      | None \<Rightarrow>
          (case call_stage HandlerKindUnary x of (r, queue) \<Rightarrow>
             if r = Repanic then (sm, backstop e x i, CodeInternalError, [])
             else if x_canceled x then (sm, canceled_frame e x i, CodeCanceled, [])
             else case r of
                 InvokeError err \<Rightarrow>
                   (case sendErrorFor (de_wire e) (de_errors e) (x_closed x) i err of (fs, code) \<Rightarrow> (sm, fs, code, []))
               | Invoked v \<Rightarrow>
                   if x_late_canceled x then (sm, [], CodeCanceled, [])
                   else
                     (case subscribe_register maxSubs (x_closed x) (sub\<lparr>sub_keys := x_keys x\<rparr>) sm of (sm', ok, limited) \<Rightarrow>
                        if ok then (sm', sendResponse (de_wire e) (x_binary x) (x_closed x) i v, 0, queue)
                        else if limited
                        then (sm', sendError (de_wire e) (x_closed x) i CodeTooManyRequests ''subscription limit reached'',
                              CodeTooManyRequests, [])
                        else (sm', [], 0, []))
               | Repanic \<Rightarrow> (sm, [], 0, [])))"

text \<open>
  \<open>refreshSubscription\<close>: \<open>known\<close> tells whether the method is registered, \<open>started\<close> whether
  \<open>registerRefresh\<close> let the refresh run. The handler runs without a refresh queue and without
  \<open>invoke\<close>. The result is the manager, the frames, and the triggers flushed.
\<close>

definition refreshSubscription ::
  "'v dispatch_env \<Rightarrow> bool \<Rightarrow> bool \<Rightarrow> subscription \<Rightarrow> 'v exec \<Rightarrow> subscriptionManager \<Rightarrow>
     subscriptionManager \<times> 'v frame list \<times> string list" where
  "refreshSubscription e known started sub x sm =
     (let i = sub_id sub; send_err = (\<lambda>err. fst (sendErrorFor (de_wire e) (de_errors e) (x_closed x) i err))
      in if \<not> has sm (sub_conn sub) i \<or> \<not> known \<or> \<not> started then (sm, [], [])
         else case x_provider x of
             Some (Failed err) \<Rightarrow> (sm, if x_auth_canceled x then [] else send_err err, [])
           | Some Panicked \<Rightarrow> (sm, backstop e x i, [])
           | Some Aborted \<Rightarrow> (sm, backstop e x i, [])
           | _ \<Rightarrow>
               (case fst (x_call x) of
                  Panicked \<Rightarrow> (sm, backstop e x i, [])
                | Aborted \<Rightarrow> (sm, backstop e x i, [])
                | Failed err \<Rightarrow> (sm, if x_canceled x then [] else send_err err, [])
                | Returned v \<Rightarrow>
                    if x_canceled x \<or> x_late_canceled x then (sm, [], [])
                    else (if x_keys x \<noteq> [] then updateKeys (sub_conn sub) i (x_keys x) sm else sm,
                          sendResponse (de_wire e) (x_binary x) (x_closed x) i v, [])))"

section \<open>Lemmas\<close>

text \<open>Errors of consumer code that would be reported have a text that encodes.\<close>

fun outcome_ok :: "'v outcome \<Rightarrow> bool" where
  "outcome_ok (Failed err) \<longleftrightarrow> utf8_valid (client_text err)"
| "outcome_ok _ \<longleftrightarrow> True"

definition exec_ok :: "'v dispatch_env \<Rightarrow> string \<Rightarrow> 'v exec \<Rightarrow> bool" where
  "exec_ok e i x \<longleftrightarrow> wire_ok (de_wire e) \<and> utf8_valid i \<and> \<not> x_closed x \<and> outcome_ok (fst (x_call x)) \<and>
     (case x_provider x of None \<Rightarrow> True | Some p \<Rightarrow> outcome_ok p)"

text \<open>One frame that settles request \<open>i\<close>, reporting \<open>code\<close> (or a result, when it is 0).\<close>

definition settles :: "string \<Rightarrow> int \<Rightarrow> 'v frame list \<Rightarrow> bool" where
  "settles i code fs \<longleftrightarrow> (\<exists>f. fs = [f] \<and> answers i f \<and> frame_error f = Some (i, code))"

lemma utf8_fixed_texts:
  "utf8_valid ''handler panicked''" "utf8_valid ''request canceled''" "utf8_valid ''subscription limit reached''"
  by (simp_all add: utf8_valid_ascii_Cons byte_def)

lemma sendError_settles:
  "utf8_valid i \<Longrightarrow> utf8_valid m \<Longrightarrow> settles i code (sendError w False i code m)"
  by (simp add: settles_def sendError_open)

lemma backstop_settles: "exec_ok e i x \<Longrightarrow> settles i CodeInternalError (backstop e x i)"
  by (simp add: exec_ok_def backstop_def sendError_settles utf8_fixed_texts)

lemma canceled_settles: "exec_ok e i x \<Longrightarrow> settles i CodeCanceled (canceled_frame e x i)"
  by (simp add: exec_ok_def canceled_frame_def sendError_settles utf8_fixed_texts)

lemma sendErrorFor_settles:
  assumes "exec_ok e i x" "utf8_valid (client_text err)"
    and "sendErrorFor (de_wire e) (de_errors e) (x_closed x) i err = (fs, code)"
  shows "settles i code fs"
proof -
  have x: "x_closed x = False" "utf8_valid i" using assms(1) by (simp_all add: exec_ok_def)
  obtain d where "fst (sendErrorFor (de_wire e) (de_errors e) False i err) =
      [ErrorMessage i (errorCode (de_errors e) (Some err)) (client_text err) d]"
    using sendErrorFor_open [OF x(2) assms(2)] by blast
  moreover have "code = errorCode (de_errors e) (Some err)"
    using sendErrorFor_code [of "de_wire e" "de_errors e" "x_closed x" i err] assms(3) by simp
  ultimately show ?thesis using assms(3) x by (simp add: settles_def)
qed

lemma principal_stage_settles:
  assumes "exec_ok e i x" "principal_stage e x i = Some (fs, code)"
  shows "settles i code fs"
  using assms backstop_settles [OF assms(1)] canceled_settles [OF assms(1)]
    sendErrorFor_settles [OF assms(1)]
  by (auto simp: principal_stage_def exec_ok_def split: option.splits outcome.splits if_splits)

lemma principal_stage_continues:
  "principal_stage e x i = None \<Longrightarrow> x_provider x = None \<or> (\<exists>p. x_provider x = Some (Returned p))"
  by (auto simp: principal_stage_def split: option.splits outcome.splits if_splits)

lemma call_stage_unary:
  assumes "principal_stage e x i = None"
  shows "call_stage HandlerKindUnary x =
    (case x_call x of
       (Returned v, ks) \<Rightarrow> (Invoked v, ks) | (Failed err, ks) \<Rightarrow> (InvokeError err, ks)
     | (Panicked, ks) \<Rightarrow> (InvokeError panicError, ks) | (Aborted, ks) \<Rightarrow> (Repanic, ks))"
  using principal_stage_continues [OF assms]
  by (auto simp: call_stage_def invoke_def Let_def split: outcome.splits prod.splits)

lemma panicError_text: "client_text (panicError :: 'v go_error) = ''handler panicked''"
  by (simp add: panicError_def NewError_def)

lemma unary_error_text:
  assumes "exec_ok e i x" "principal_stage e x i = None" "call_stage HandlerKindUnary x = (InvokeError err, q)"
  shows "utf8_valid (client_text err)"
  using assms by (auto simp: call_stage_unary [OF assms(2)] exec_ok_def panicError_text utf8_fixed_texts
      split: outcome.splits prod.splits)

text \<open>The last frame settles the request and no earlier one does.\<close>

definition settled_last :: "string \<Rightarrow> 'v frame list \<Rightarrow> bool" where
  "settled_last i fs \<longleftrightarrow> (\<exists>gs f. fs = gs @ [f] \<and> answers i f \<and> (\<forall>g\<in>set gs. \<not> answers i g))"

lemma settles_last: "settles i code fs \<Longrightarrow> settled_last i fs"
  by (auto simp: settles_def settled_last_def)

lemma response_settled_last:
  assumes "exec_ok e i x"
  shows "settled_last i (sendResponse (de_wire e) b (x_closed x) i v)"
proof -
  have x: "wire_ok (de_wire e)" "utf8_valid i" "x_closed x = False" using assms by (simp_all add: exec_ok_def)
  obtain f where "sendResponse (de_wire e) b False i v = [f]" "answers i f"
    using response_sent [OF x(1,2)] by blast
  then show ?thesis by (simp add: settled_last_def x)
qed

lemma response_one_frame:
  assumes "wire_ok w" "utf8_valid i"
  shows "length (sendResponse w b False i v) = 1"
proof -
  obtain f where "sendResponse w b False i v = [f]" using response_sent [OF assms] by blast
  then show ?thesis by simp
qed

definition stream_of :: "'v dispatch_env \<Rightarrow> string \<Rightarrow> 'v exec \<Rightarrow>
    'v frame list \<times> ('v go_error option \<times> nat) \<times> 'v go_error option" where
  "stream_of e i x = streamIterator (stream_env_of e i) (de_errors e) (fst (x_stream x)) (snd (x_stream x)) (x_closed x)"

lemma stream_settled_last:
  assumes "exec_ok e i x" "stream_of e i x = (fs, hook, err)"
    and "case err of None \<Rightarrow> True | Some y \<Rightarrow> utf8_valid (client_text y)"
  shows "settled_last i fs"
proof -
  obtain cause n where h: "hook = (cause, n)" by fastforce
  have x: "x_closed x = False" "utf8_valid i" using assms(1) by (simp_all add: exec_ok_def)
  have id: "se_id (stream_env_of e i) = i" by (simp add: stream_env_of_def)
  have r: "streamIterator (stream_env_of e i) (de_errors e) (fst (x_stream x)) (snd (x_stream x)) False = (fs, (cause, n), err)"
    using assms(2) by (simp add: stream_of_def x h)
  obtain gs m d where "fs = gs @ [StreamEndMessage i (errorCode (de_errors e) err) m d]" "\<forall>g\<in>set gs. \<forall>i. \<not> answers i g"
    using stream_ends [OF r] x(2) assms(3) unfolding id by blast
  then show ?thesis by (auto simp: settled_last_def)
qed

lemma sendErrorFor_last:
  assumes "exec_ok e i x" "utf8_valid (client_text err)"
    and "sendErrorFor (de_wire e) (de_errors e) (x_closed x) i err = (fs, code)"
  shows "settled_last i fs"
  using sendErrorFor_settles [OF assms] by (rule settles_last)

lemma settles_length: "settles i code fs \<Longrightarrow> length fs = 1"
  by (auto simp: settles_def)

lemma stream_call_error:
  "exec_ok e i x \<Longrightarrow> kind \<noteq> HandlerKindUnary \<Longrightarrow> call_stage kind x = (InvokeError err, q) \<Longrightarrow> utf8_valid (client_text err)"
  by (auto simp: call_stage_def exec_ok_def split: prod.splits outcome.splits)

lemma subscribe_register_refused:
  "subscribe_register mx cl sub sm = (sm', False, l) \<Longrightarrow> sub_view sm' = sub_view sm \<or> \<not> conn_index_inv sm"
  using sub_view_new [of sm sub]
  by (auto simp: subscribe_register_def new_subscription_def split: if_splits dest!: register_refused)

section \<open>Properties\<close>


definition denv :: "int dispatch_env" where
  "denv = \<lparr>de_wire = example_wire, de_errors = [(OtherError 7 ''not found'' [], 1001)], de_chunking = None,
     de_len = (\<lambda>_. 1), de_res = (\<lambda>_. None)\<rparr>"

definition exec1 :: "int exec" where
  "exec1 = \<lparr>x_provider = None, x_auth_canceled = False, x_call = (Returned (Plain 4), [''photos'']),
     x_canceled = False, x_late_canceled = False, x_keys = [''photos''], x_closed = False, x_binary = True,
     x_stream = (None, False)\<rparr>"

lemma exec1_ok: "exec_ok denv ''1'' exec1"
  using example_wire_ok by (simp add: exec_ok_def denv_def exec1_def utf8_valid_ascii_Cons byte_def)


text \<open>
  The code an observer is told can differ from what the client gets: a result that
  does not encode is answered with an internal error, while the request is reported with code 0.
\<close>

theorem unencodable_result_reported_as_success:
  "handleRequest denv HandlerKindUnary ''1'' (exec1\<lparr>x_call := (Returned (Plain (- 1)), [])\<rparr>) =
     ([ErrorMessage ''1'' CodeInternalError (encodeFailed @ ''unsupported value'') None], 0, [])"
  by (simp add: handleRequest_def principal_stage_def call_stage_def exec1_def denv_def invoke_def
      sendResponse_def sendError_def sendJSON_def example_wire_def encodeFailed_def utf8_valid_ascii_Cons byte_def
      code_defs)


definition sub_new :: subscription where
  "sub_new = \<lparr>sub_conn = 3, sub_id = ''1'', sub_method = ''Photos.List'', sub_keys = [], sub_params = ''[]'',
     wantsPatch = False\<rparr>"


text \<open>
  A server-driven refresh never adds or drops a subscription, changes nothing but the
  keys of the one it re-executes, and never starts further refreshes; unless the handler panics, a
  refresh that was cancelled sends nothing.
\<close>

theorem refresh_contained:
  assumes inv: "sm_inv mx sm" and r: "refreshSubscription e known started sub x sm = (sm', fs, flushed)"
  shows "flushed = [] \<and> sm_inv mx sm' \<and>
    (\<exists>ks. sub_view sm' = (sub_view sm)((sub_conn sub, sub_id sub) :=
        map_option (sub_keys_update (\<lambda>old. case ks of None \<Rightarrow> old | Some k \<Rightarrow> k)) (sub_view sm (sub_conn sub, sub_id sub)))) \<and>
    (x_canceled x \<and> x_auth_canceled x \<and> fst (x_call x) \<notin> {Panicked, Aborted} \<and>
       x_provider x \<notin> {Some Panicked, Some Aborted} \<longrightarrow> fs = [] \<and> sm' = sm)"
proof -
  have ci: "conn_index_inv sm" using inv by (simp add: sm_inv_def)
  have upd: "sm' = sm \<or> sm' = updateKeys (sub_conn sub) (sub_id sub) (x_keys x) sm"
    and fl: "flushed = []"
    using r by (auto simp: refreshSubscription_def Let_def split: if_splits option.splits outcome.splits)
  have same: "sub_view sm = (sub_view sm)((sub_conn sub, sub_id sub) :=
      map_option (sub_keys_update (\<lambda>old. case None of None \<Rightarrow> old | Some k \<Rightarrow> k)) (sub_view sm (sub_conn sub, sub_id sub)))"
    by (cases "sub_view sm (sub_conn sub, sub_id sub)") auto
  have view: "\<exists>ks. sub_view sm' = (sub_view sm)((sub_conn sub, sub_id sub) :=
        map_option (sub_keys_update (\<lambda>old. case ks of None \<Rightarrow> old | Some k \<Rightarrow> k)) (sub_view sm (sub_conn sub, sub_id sub)))"
    using upd
  proof
    assume "sm' = sm"
    with same show ?thesis by blast
  next
    assume "sm' = updateKeys (sub_conn sub) (sub_id sub) (x_keys x) sm"
    with sub_view_updateKeys [OF ci, of "sub_conn sub" "sub_id sub" "x_keys x"] show ?thesis
      by (intro exI [of _ "Some (x_keys x)"]) simp
  qed
  moreover have "sm_inv mx sm'" using upd inv sm_inv_updateKeys by blast
  moreover have "fs = [] \<and> sm' = sm" if "x_canceled x" "x_auth_canceled x" "fst (x_call x) \<notin> {Panicked, Aborted}"
    "x_provider x \<notin> {Some Panicked, Some Aborted}"
    using r that by (auto simp: refreshSubscription_def Let_def split: if_splits option.splits outcome.splits)
  ultimately show ?thesis using fl by blast
qed

theorem refresh_contained_witness:
  "snd (snd (refreshSubscription denv True True sub_b (exec1\<lparr>x_canceled := True\<rparr>) sm_ab)) = []"
proof -
  obtain sm' fs fl where r: "refreshSubscription denv True True sub_b (exec1\<lparr>x_canceled := True\<rparr>) sm_ab = (sm', fs, fl)"
    by (metis surj_pair)
  from refresh_contained [OF sm_ab_inv r] show ?thesis by (simp add: r)
qed

end
