(* ===== verification/Aprot_Transport.thy ===== *)
theory Aprot_Transport
  imports Aprot_Server "HOL-Library.Sublist"
begin

text \<open>
  The transports of a connection: the outbound queues and write pumps of the WebSocket and of the
  byte-stream transport (\<open>transport_ws.go\<close>, \<open>transport_stream.go\<close>), the line framing of the latter,
  and the binary frames, together with the client's side of the wire (\<open>client/wire.go\<close>).
  Bytes are 8-bit words; the JSON of a binary frame's header is a parameter.
\<close>

unbundle bit_operations_syntax

type_synonym bytes = "8 word list"

section \<open>Binary frames\<close>

record binaryFrameHeader =
  Version :: "8 word"
  hdr_type :: string
  hdr_id :: string
  hdr_contentType :: string

definition binaryFrameVersion :: "8 word" where
  "binaryFrameVersion = 1"

text \<open>\<open>binary.BigEndian.PutUint32\<close> and \<open>Uint32\<close>.\<close>

definition put_uint32 :: "32 word \<Rightarrow> bytes" where
  "put_uint32 n = [ucast (drop_bit 24 n), ucast (drop_bit 16 n), ucast (drop_bit 8 n), ucast n]"

fun get_uint32 :: "bytes \<Rightarrow> 32 word" where
  "get_uint32 [a, b, c, d] =
     ucast d OR push_bit 8 (ucast c) OR push_bit 16 (ucast b) OR push_bit 24 (ucast a)"
| "get_uint32 _ = 0"

datatype frame_error = Header_Marshal string | Header_Too_Large nat | Too_Short | Length_Exceeds | Header_Unmarshal string

text \<open>\<open>enc\<close> is the JSON encoding of a header, or the error it fails with.\<close>

definition encodeBinaryFrame ::
  "(binaryFrameHeader \<Rightarrow> string + bytes) \<Rightarrow> binaryFrameHeader \<Rightarrow> bytes \<Rightarrow> frame_error + bytes" where
  "encodeBinaryFrame enc header payload =
     (case enc (header\<lparr>Version := binaryFrameVersion\<rparr>) of
        Inl err \<Rightarrow> Inl (Header_Marshal err)
      | Inr headerData \<Rightarrow>
          if length headerData > 2 ^ 32 - 1 then Inl (Header_Too_Large (length headerData))
          else Inr (put_uint32 (word_of_nat (length headerData)) @ headerData @ payload))"

definition decodeBinaryFrame ::
  "(bytes \<Rightarrow> string + binaryFrameHeader) \<Rightarrow> bytes \<Rightarrow> frame_error + binaryFrameHeader \<times> bytes" where
  "decodeBinaryFrame dec data =
     (if length data < 4 then Inl Too_Short
      else
        let n = unat (get_uint32 (take 4 data)); rest = drop 4 data
        in if n > length rest then Inl Length_Exceeds
           else case dec (take n rest) of
                  Inl err \<Rightarrow> Inl (Header_Unmarshal err)
                | Inr h \<Rightarrow> Inr (h, drop n rest))"

section \<open>Newline-delimited framing\<close>

definition nl :: "8 word" where "nl = 10"
definition cr :: "8 word" where "cr = 13"

text \<open>\<open>writePump\<close> and \<open>writeStreamFrame\<close> of the server, \<open>streamConn.write\<close> of the client.\<close>

definition write_line :: "bytes \<Rightarrow> bytes" where
  "write_line data = data @ [nl]"

text \<open>\<open>bufio.ScanLines\<close>: the lines of the input, the last one also without a terminator.\<close>

fun split_lines :: "bytes \<Rightarrow> bytes \<Rightarrow> bytes list" where
  "split_lines acc [] = (if acc = [] then [] else [acc])"
| "split_lines acc (b # bs) = (if b = nl then acc # split_lines [] bs else split_lines (acc @ [b]) bs)"

definition drop_cr :: "bytes \<Rightarrow> bytes" where
  "drop_cr line = (if line \<noteq> [] \<and> last line = cr then butlast line else line)"

text \<open>
  \<open>bytes.TrimSpace\<close> leaves nothing: the line consists of UTF-8 encoded white space, as
  \<open>unicode.IsSpace\<close> defines it.
\<close>

fun blank :: "bytes \<Rightarrow> bool" where
  "blank [] = True"
| "blank (b # bs) =
     (if b \<in> {9, 10, 11, 12, 13, 32} then blank bs
      else case bs of
        c # cs \<Rightarrow>
          if b = 0xC2 then (c = 0x85 \<or> c = 0xA0) \<and> blank cs
          else
            (case cs of
               d # ds \<Rightarrow>
                 ((b = 0xE1 \<and> c = 0x9A \<and> d = 0x80) \<or>
                  (b = 0xE2 \<and> c = 0x80 \<and> (0x80 \<le> d \<and> d \<le> 0x8A \<or> d \<in> {0xA8, 0xA9, 0xAF})) \<or>
                  (b = 0xE2 \<and> c = 0x81 \<and> d = 0x9F) \<or>
                  (b = 0xE3 \<and> c = 0x80 \<and> d = 0x80)) \<and> blank ds
             | [] \<Rightarrow> False)
      | [] \<Rightarrow> False)"

text \<open>
  \<open>readLoop\<close>: the messages handed to the connection, up to the first line over the limit. A limit
  that is not positive, or not below \<open>MaxInt32 - 2\<close>, is replaced by the scanner's own bound.
\<close>

definition read_limit :: "int \<Rightarrow> int \<times> int" where
  "read_limit limit =
     (if limit > 0 \<and> limit < 2 ^ 31 - 1 - 2 then (limit, limit + 2) else (0, 2 ^ 31 - 1))"

fun read_lines :: "int \<times> int \<Rightarrow> bytes list \<Rightarrow> bytes list" where
  "read_lines lb [] = []"
| "read_lines lb (raw # raws) =
     (let line = drop_cr raw
      in if int (length raw) + 1 > snd lb then []
         else if fst lb > 0 \<and> int (length line) > fst lb then []
         else if blank line then read_lines lb raws
         else line # read_lines lb raws)"

definition readLoop :: "int \<Rightarrow> bytes \<Rightarrow> bytes list" where
  "readLoop limit input = read_lines (read_limit limit) (split_lines [] input)"

text \<open>The client's check against the limit the config frame advertises, and its two callers.\<close>

definition setOutboundLimit :: "int \<Rightarrow> int" where
  "setOutboundLimit n = (if n < 0 then 0 else n)"

definition check :: "int \<Rightarrow> nat \<Rightarrow> bool" where
  "check mx n \<longleftrightarrow> \<not> (mx > 0 \<and> int n > mx)"

definition ws_write :: "int \<Rightarrow> bytes \<Rightarrow> bytes option" where
  "ws_write mx data = (if check mx (length data) then Some data else None)"

definition stream_write :: "int \<Rightarrow> bytes \<Rightarrow> bytes option" where
  "stream_write mx data = (if check mx (length data + 1) then Some (write_line data) else None)"

section \<open>Outbound queues\<close>

text \<open>
  The state of a transport: the channel \<open>send\<close>, whether \<open>done\<close> is closed, what is on the wire, and
  whether the write pump still runs or ended on a write error. \<open>accepted\<close> records the frames whose
  send returned nil, \<open>before_close\<close> those among them accepted before the close.
\<close>

record 'f pump =
  send_q :: "'f list"
  done_closed :: bool
  on_wire :: "'f list"
  pump_on :: bool
  write_failed :: bool
  accepted :: "'f list"
  before_close :: "'f list"

definition new_transport :: "'f pump" where
  "new_transport = \<lparr>send_q = [], done_closed = False, on_wire = [], pump_on = True, write_failed = False,
     accepted = [], before_close = []\<rparr>"

definition capacity :: nat where "capacity = 256"

text \<open>
  A send enqueues when there is room, also after the close: a \<open>select\<close> takes any ready case. It may
  instead report the close or the cancelled context without any effect.
\<close>

definition enqueue :: "'f \<Rightarrow> 'f pump \<Rightarrow> 'f pump" where
  "enqueue f t = t\<lparr>send_q := send_q t @ [f], accepted := accepted t @ [f]\<rparr>"

definition close_transport :: "'f pump \<Rightarrow> 'f pump" where
  "close_transport t = t\<lparr>done_closed := True,
     before_close := (if done_closed t then before_close t else accepted t)\<rparr>"

definition pump_write :: "'f pump \<Rightarrow> 'f pump" where
  "pump_write t = (case send_q t of [] \<Rightarrow> t | f # q \<Rightarrow> t\<lparr>send_q := q, on_wire := on_wire t @ [f]\<rparr>)"

definition pump_fail :: "'f pump \<Rightarrow> 'f pump" where
  "pump_fail t = t\<lparr>pump_on := False, write_failed := True, send_q := tl (send_q t)\<rparr>"

definition drainSend :: "'f pump \<Rightarrow> 'f pump" where
  "drainSend t = t\<lparr>send_q := [], on_wire := on_wire t @ send_q t\<rparr>"

text \<open>\<open>drain\<close> is what the pump does when it sees \<open>done\<close>: \<open>drainSend\<close> on a WebSocket, nothing on a stream.\<close>

inductive transport_step :: "('f pump \<Rightarrow> 'f pump) \<Rightarrow> 'f pump \<Rightarrow> 'f pump \<Rightarrow> bool" for drain where
  tr_send: "length (send_q t) < capacity \<Longrightarrow> transport_step drain t (enqueue f t)"
| tr_close: "transport_step drain t (close_transport t)"
| tr_write: "pump_on t \<Longrightarrow> send_q t \<noteq> [] \<Longrightarrow> transport_step drain t (pump_write t)"
| tr_fail: "pump_on t \<Longrightarrow> send_q t \<noteq> [] \<Longrightarrow> transport_step drain t (pump_fail t)"
| tr_done: "pump_on t \<Longrightarrow> done_closed t \<Longrightarrow> transport_step drain t ((drain t)\<lparr>pump_on := False\<rparr>)"

abbreviation ws_step :: "'f pump \<Rightarrow> 'f pump \<Rightarrow> bool" where
  "ws_step \<equiv> transport_step drainSend"

abbreviation stream_transport_step :: "'f pump \<Rightarrow> 'f pump \<Rightarrow> bool" where
  "stream_transport_step \<equiv> transport_step (\<lambda>t. t)"

section \<open>The contract of a write pump\<close>

text \<open>
  What every transport promises: frames are written in the order they were accepted, each at most
  once. \<open>draining_pump\<close> adds that the pump empties the queue when it sees the close.
\<close>

locale write_pump =
  fixes drain :: "'f pump \<Rightarrow> 'f pump"
  assumes drain_content: "on_wire (drain t) @ send_q (drain t) = on_wire t @ send_q t"
    and drain_frame: "accepted (drain t) = accepted t" "before_close (drain t) = before_close t"
      "done_closed (drain t) = done_closed t" "write_failed (drain t) = write_failed t"
begin

definition fifo_inv :: "'f pump \<Rightarrow> bool" where
  "fifo_inv t \<longleftrightarrow> prefix (on_wire t) (accepted t) \<and>
     (write_failed t \<longrightarrow> \<not> pump_on t) \<and>
     (\<not> write_failed t \<longrightarrow> accepted t = on_wire t @ send_q t) \<and>
     prefix (before_close t) (accepted t)"

lemma fifo_step: "transport_step drain t t' \<Longrightarrow> fifo_inv t \<Longrightarrow> fifo_inv t'"
proof (induction rule: transport_step.induct)
  case (tr_send t f)
  then show ?case by (auto simp: fifo_inv_def enqueue_def)
next
  case (tr_close t)
  then show ?case by (auto simp: fifo_inv_def close_transport_def)
next
  case (tr_write t)
  then show ?case by (auto simp: fifo_inv_def pump_write_def split: list.splits)
next
  case (tr_fail t)
  then show ?case by (auto simp: fifo_inv_def pump_fail_def)
next
  case (tr_done t)
  then have "\<not> write_failed t" by (auto simp: fifo_inv_def)
  then have "accepted t = on_wire (drain t) @ send_q (drain t)" using tr_done by (simp add: fifo_inv_def drain_content)
  then have "prefix (on_wire (drain t)) (accepted t)" by (metis prefixI)
  moreover have "prefix (before_close t) (accepted t)" using tr_done unfolding fifo_inv_def by blast
  ultimately show ?case
    using \<open>accepted t = on_wire (drain t) @ send_q (drain t)\<close> \<open>\<not> write_failed t\<close>
    unfolding fifo_inv_def by (intro conjI impI) (simp_all add: drain_frame)
qed

lemma fifo_reachable: "(transport_step drain)\<^sup>*\<^sup>* new_transport t \<Longrightarrow> fifo_inv t"
proof (induction rule: rtranclp_induct)
  case base
  then show ?case by (simp add: fifo_inv_def new_transport_def)
qed (rule fifo_step)

end

locale draining_pump = write_pump drain for drain :: "'f pump \<Rightarrow> 'f pump" +
  assumes drain_empty: "send_q (drain t) = []"
begin

definition drained_inv :: "'f pump \<Rightarrow> bool" where
  "drained_inv t \<longleftrightarrow> fifo_inv t \<and>
     (\<not> pump_on t \<and> \<not> write_failed t \<longrightarrow> done_closed t \<and> prefix (before_close t) (on_wire t))"

lemma drained_step: "transport_step drain t t' \<Longrightarrow> drained_inv t \<Longrightarrow> drained_inv t'"
proof -
  assume step: "transport_step drain t t'" and inv: "drained_inv t"
  then have "fifo_inv t'" using fifo_step by (auto simp: drained_inv_def)
  moreover have "\<not> pump_on t' \<and> \<not> write_failed t' \<longrightarrow> done_closed t' \<and> prefix (before_close t') (on_wire t')"
    using step inv
  proof (induction rule: transport_step.induct)
    case (tr_done t)
    then have "accepted t = on_wire (drain t)"
      using drain_content [of t] drain_empty [of t] by (auto simp: drained_inv_def fifo_inv_def)
    with tr_done show ?case by (auto simp: drained_inv_def fifo_inv_def drain_frame)
  qed (auto simp: drained_inv_def enqueue_def close_transport_def pump_write_def pump_fail_def split: list.splits)
  ultimately show ?thesis by (simp add: drained_inv_def)
qed

lemma drained_reachable: "(transport_step drain)\<^sup>*\<^sup>* new_transport t \<Longrightarrow> drained_inv t"
proof (induction rule: rtranclp_induct)
  case base
  then show ?case by (simp add: drained_inv_def fifo_inv_def new_transport_def)
qed (rule drained_step)

end

interpretation stream_pump: write_pump "\<lambda>t. t"
  by unfold_locales simp_all

interpretation ws_pump: draining_pump drainSend
  by unfold_locales (simp_all add: drainSend_def)

section \<open>Framing lemmas\<close>

lemma get_put_uint32: "get_uint32 (put_uint32 n) = n"
proof -
  have "(ucast (ucast n :: 8 word) OR push_bit 8 (ucast (ucast (drop_bit 8 n) :: 8 word)) OR
      push_bit 16 (ucast (ucast (drop_bit 16 n) :: 8 word)) OR push_bit 24 (ucast (ucast (drop_bit 24 n) :: 8 word)) :: 32 word) = n"
  proof (rule bit_word_eqI)
    fix k assume "k < LENGTH(32)"
    then have "k < 32" by simp
    then consider "k < 8" | "8 \<le> k" "k < 16" | "16 \<le> k" "k < 24" | "24 \<le> k" "k < 32" by linarith
    then show "bit (ucast (ucast n :: 8 word) OR push_bit 8 (ucast (ucast (drop_bit 8 n) :: 8 word)) OR
      push_bit 16 (ucast (ucast (drop_bit 16 n) :: 8 word)) OR push_bit 24 (ucast (ucast (drop_bit 24 n) :: 8 word)) :: 32 word) k = bit n k"
      by cases (auto simp: bit_simps)
  qed
  then show ?thesis by (simp add: put_uint32_def)
qed

lemma length_put_uint32 [simp]: "length (put_uint32 n) = 4"
  by (simp add: put_uint32_def)

text \<open>A message that can travel on a line: what \<open>json.Marshal\<close> produces.\<close>

definition line_ok :: "bytes \<Rightarrow> bool" where
  "line_ok data \<longleftrightarrow> nl \<notin> set data \<and> \<not> blank data \<and> last data \<noteq> cr"

lemma split_lines_line:
  "nl \<notin> set data \<Longrightarrow> split_lines acc (data @ nl # rest) = (acc @ data) # split_lines [] rest"
  by (induction data arbitrary: acc) auto

lemma split_lines_write:
  "\<forall>d\<in>set ds. nl \<notin> set d \<Longrightarrow> split_lines [] (concat (map write_line ds)) = ds"
  by (induction ds) (simp_all add: write_line_def split_lines_line)

lemma line_ok_drop_cr: "line_ok d \<Longrightarrow> drop_cr d = d"
  by (simp add: line_ok_def drop_cr_def)

lemma read_lines_ok:
  assumes "\<forall>d\<in>set ds. line_ok d \<and> int (length d) + 1 \<le> snd lb \<and> (fst lb > 0 \<longrightarrow> int (length d) \<le> fst lb)"
  shows "read_lines lb ds = ds"
  using assms by (induction ds) (auto simp: line_ok_drop_cr Let_def, auto simp: line_ok_def)

lemma read_lines_prefix_ok:
  assumes "\<forall>d\<in>set ds. line_ok d \<and> int (length d) + 1 \<le> snd lb \<and> (fst lb > 0 \<longrightarrow> int (length d) \<le> fst lb)"
  shows "read_lines lb (ds @ es) = ds @ read_lines lb es"
  using assms by (induction ds) (auto simp: line_ok_drop_cr Let_def, auto simp: line_ok_def)

lemma check_fits:
  assumes "0 \<le> mx" "mx < 2 ^ 31 - 3" "check mx (length d + 1)" "int (length d) + 1 < 2 ^ 31"
  shows "int (length d) + 1 \<le> snd (read_limit mx) \<and> (fst (read_limit mx) > 0 \<longrightarrow> int (length d) \<le> fst (read_limit mx))"
  using assms by (auto simp: read_limit_def check_def)

section \<open>Properties\<close>

text \<open>
  Binary frames round-trip: what the server's encoder produces for a header and a
  payload, the client's decoder takes apart into the same header (with the protocol version set)
  and the same payload, for any JSON codec that decodes what it encodes; the encoder refuses
  exactly the headers that do not encode or whose length does not fit 32 bits.
\<close>

theorem binary_frame_roundtrip:
  assumes codec: "\<And>h b. enc h = Inr b \<Longrightarrow> dec b = Inr h"
  shows "case encodeBinaryFrame enc h payload of
      Inr frame \<Rightarrow> decodeBinaryFrame dec frame = Inr (h\<lparr>Version := binaryFrameVersion\<rparr>, payload)
    | Inl err \<Rightarrow> (\<exists>e. enc (h\<lparr>Version := binaryFrameVersion\<rparr>) = Inl e) \<or>
        (\<exists>b. enc (h\<lparr>Version := binaryFrameVersion\<rparr>) = Inr b \<and> length b \<ge> 2 ^ 32)"
proof (cases "enc (h\<lparr>Version := binaryFrameVersion\<rparr>)")
  case (Inl e)
  then show ?thesis by (simp add: encodeBinaryFrame_def)
next
  case (Inr b)
  show ?thesis
  proof (cases "length b > 2 ^ 32 - 1")
    case True
    then show ?thesis using Inr by (simp add: encodeBinaryFrame_def)
  next
    case False
    have "unat (word_of_nat (length b) :: 32 word) = length b"
      using False by (simp add: unat_of_nat)
    then show ?thesis using False Inr codec [OF Inr]
      by (simp add: encodeBinaryFrame_def decodeBinaryFrame_def get_put_uint32)
  qed
qed

definition enc1 :: "binaryFrameHeader \<Rightarrow> string + bytes" where
  "enc1 h = (if h = \<lparr>Version = 1, hdr_type = ''response'', hdr_id = ''7'', hdr_contentType = ''image/png''\<rparr>
     then Inr [123, 125] else Inl ''unsupported'')"

definition dec1 :: "bytes \<Rightarrow> string + binaryFrameHeader" where
  "dec1 b = (if b = [123, 125] then Inr \<lparr>Version = 1, hdr_type = ''response'', hdr_id = ''7'', hdr_contentType = ''image/png''\<rparr>
     else Inl ''syntax error'')"

theorem binary_frame_roundtrip_witness:
  "decodeBinaryFrame dec1 [0, 0, 0, 2, 123, 125, 9, 8, 7] =
     Inr (\<lparr>Version = 1, hdr_type = ''response'', hdr_id = ''7'', hdr_contentType = ''image/png''\<rparr>, [9, 8, 7])"
proof -
  let ?h = "\<lparr>Version = 0, hdr_type = ''response'', hdr_id = ''7'', hdr_contentType = ''image/png''\<rparr>"
  have codec: "dec1 b = Inr h" if "enc1 h = Inr b" for h b
    using that by (auto simp: enc1_def dec1_def split: if_splits)
  have e: "encodeBinaryFrame enc1 ?h [9, 8, 7] = Inr [0, 0, 0, 2, 123, 125, 9, 8, 7]"
    by (simp add: encodeBinaryFrame_def enc1_def binaryFrameVersion_def put_uint32_def)
  show ?thesis
    using binary_frame_roundtrip [of enc1 dec1 ?h "[9, 8, 7]", OF codec] unfolding e by (simp add: binaryFrameVersion_def)
qed

text \<open>
  Property C38. Line framing round-trips: any sequence of messages that the client's size check
  admits under the limit the server advertised is read back by the server's read loop as exactly
  that sequence. A message over the limit ends the connection after the messages before it.
\<close>

theorem line_framing_roundtrip:
  assumes "0 \<le> mx" "mx < 2 ^ 31 - 3"
    and "\<forall>d\<in>set ds. line_ok d \<and> check mx (length d + 1) \<and> int (length d) + 1 < 2 ^ 31"
    and "line_ok big" "mx > 0" "int (length big) > mx"
  shows "readLoop mx (concat (map write_line ds)) = ds \<and>
    readLoop mx (concat (map write_line (ds @ [big]))) = ds"
proof -
  have fits: "\<forall>d\<in>set ds. line_ok d \<and> int (length d) + 1 \<le> snd (read_limit mx) \<and>
      (fst (read_limit mx) > 0 \<longrightarrow> int (length d) \<le> fst (read_limit mx))"
    using assms(3) check_fits [OF assms(1,2)] by blast
  have lines: "\<forall>d\<in>set (ds @ [big]). nl \<notin> set d" using assms(3,4) by (auto simp: line_ok_def)
  then have "split_lines [] (concat (map write_line ds)) = ds"
    "split_lines [] (concat (map write_line (ds @ [big]))) = ds @ [big]"
    using split_lines_write [of ds] split_lines_write [of "ds @ [big]"] by auto
  moreover have "read_lines (read_limit mx) [big] = []"
    using assms(2,4-6) by (simp add: Let_def line_ok_drop_cr read_limit_def)
  ultimately show ?thesis
    using read_lines_ok [OF fits] read_lines_prefix_ok [OF fits, of "[big]"] by (simp add: readLoop_def)
qed

theorem line_framing_roundtrip_witness:
  "readLoop 5 (concat (map write_line [[123, 125], [123, 32, 125]])) = [[123, 125], [123, 32, 125]]"
proof -
  have "\<forall>d\<in>set [[123, 125], [123, 32, 125 :: 8 word]]. line_ok d \<and> check 5 (length d + 1) \<and> int (length d) + 1 < 2 ^ 31"
    by (simp add: line_ok_def check_def nl_def cr_def)
  moreover have "line_ok ([65, 65, 65, 65, 65, 65 :: 8 word])"
    by (simp add: line_ok_def nl_def cr_def)
  ultimately show ?thesis
    using line_framing_roundtrip [of 5 "[[123, 125], [123, 32, 125]]" "[65, 65, 65, 65, 65, 65]"] by simp
qed

text \<open>
  A message of exactly the advertised size is accepted by the server's read loop, but
  the client's byte-stream connection refuses it, counting the newline against the limit; over a
  WebSocket the same message is sent.
\<close>

theorem exact_limit_refused_on_stream:
  assumes "line_ok d" "mx = int (length d)" "mx < 2 ^ 31 - 3"
  shows "readLoop mx (write_line d) = [d] \<and> stream_write mx d = None \<and> ws_write mx d = Some d"
proof -
  have "d \<noteq> []" using assms(1) by (auto simp: line_ok_def)
  moreover have "split_lines [] (write_line d) = [d]"
    using split_lines_write [of "[d]"] assms(1) by (simp add: line_ok_def)
  moreover have "read_lines (read_limit mx) [d] = [d]"
    using assms by (intro read_lines_ok) (auto simp: read_limit_def)
  ultimately show ?thesis using assms(2) by (simp add: readLoop_def stream_write_def ws_write_def check_def)
qed

theorem exact_limit_refused_on_stream_witness:
  "readLoop 2 (write_line [123, 125]) = [[123, 125]] \<and> stream_write 2 [123, 125] = None"
  using exact_limit_refused_on_stream [of "[123, 125]" 2] by (simp add: line_ok_def nl_def cr_def)

text \<open>
  Property C22. A WebSocket delivers what was sent before the close: frames go out in the order they
  were accepted, and once the write pump has ended without a write error, every frame accepted
  before the close is on the wire, as a caller that sends a last frame and closes relies on.
\<close>

theorem ws_send_then_close:
  assumes "ws_step\<^sup>*\<^sup>* new_transport t"
  shows "prefix (on_wire t) (accepted t) \<and>
    (\<not> pump_on t \<and> \<not> write_failed t \<longrightarrow> prefix (before_close t) (on_wire t))"
  using ws_pump.drained_reachable [OF assms]
  by (simp add: ws_pump.drained_inv_def ws_pump.fifo_inv_def)

theorem ws_send_then_close_witness:
  "prefix [''auth_error''] (on_wire ((drainSend (close_transport (enqueue ''auth_error'' new_transport)))\<lparr>pump_on := False\<rparr>))"
proof -
  let ?a = "enqueue ''auth_error'' new_transport"
  have "ws_step new_transport ?a" by (rule tr_send) (simp add: new_transport_def capacity_def)
  moreover have "ws_step ?a (close_transport ?a)" by (rule tr_close)
  moreover have "ws_step (close_transport ?a) ((drainSend (close_transport ?a))\<lparr>pump_on := False\<rparr>)"
    by (rule tr_done) (simp_all add: close_transport_def enqueue_def new_transport_def)
  ultimately have "ws_step\<^sup>*\<^sup>* new_transport ((drainSend (close_transport ?a))\<lparr>pump_on := False\<rparr>)"
    by (meson converse_rtranclp_into_rtranclp rtranclp.rtrancl_refl)
  from ws_send_then_close [OF this] show ?thesis
    by (simp add: drainSend_def close_transport_def enqueue_def new_transport_def)
qed

text \<open>
  The byte-stream transport does not: a frame accepted before the close can be lost
  without any write error, because its pump leaves as soon as it sees the close. A client whose
  token is rejected there may see the end of the stream instead of the \<open>auth_error\<close> frame.
\<close>

theorem stream_loses_last_frame:
  "\<exists>t. stream_transport_step\<^sup>*\<^sup>* new_transport t \<and> before_close t = [''auth_error''] \<and> \<not> pump_on t \<and>
     \<not> write_failed t \<and> on_wire t = []"
proof -
  let ?a = "enqueue ''auth_error'' new_transport"
  have "stream_transport_step new_transport ?a" by (rule tr_send) (simp add: new_transport_def capacity_def)
  moreover have "stream_transport_step ?a (close_transport ?a)" by (rule tr_close)
  moreover have "stream_transport_step (close_transport ?a) ((close_transport ?a)\<lparr>pump_on := False\<rparr>)"
    by (rule tr_done) (simp_all add: close_transport_def enqueue_def new_transport_def)
  ultimately have "stream_transport_step\<^sup>*\<^sup>* new_transport ((close_transport ?a)\<lparr>pump_on := False\<rparr>)"
    by (meson converse_rtranclp_into_rtranclp rtranclp.rtrancl_refl)
  then show ?thesis
    by (intro exI [of _ "(close_transport ?a)\<lparr>pump_on := False\<rparr>"] conjI)
      (assumption | simp add: close_transport_def enqueue_def new_transport_def)+
qed

end
