(* ===== verification/Aprot_Tasks.thy ===== *)
theory Aprot_Tasks
  imports Aprot_Protocol
begin

text \<open>
  The task system of \<open>tasks/\<close>: the tree of task nodes with its lifecycle (\<open>task_tree.go\<close>), the
  server-wide manager of shared tasks with its throttled progress updates (\<open>shared_task.go\<close>), and
  the entry points that start, finish and cancel tasks (\<open>api.go\<close>, \<open>interceptor.go\<close>).

  A tree of nodes is a datatype; a node is identified by its ID, which \<open>allocID\<close> keeps unique. An
  operation on a node of a tree is \<open>at_node\<close>. Each section under a node's lock is one step; pushes
  to clients are left out, the broadcast of progress values excepted.
\<close>

section \<open>Task IDs\<close>

text \<open>\<open>itoa\<close>: digits are written from the end of the buffer while the number is positive.\<close>

function itoa_loop :: "int \<Rightarrow> string \<Rightarrow> string" where
  "itoa_loop n buf = (if n > 0 then itoa_loop (n div 10) (digit_char (nat (n mod 10)) # buf) else buf)"
  by pat_completeness auto
termination by (relation "measure (\<lambda>(n, buf). nat n)") auto

declare itoa_loop.simps [simp del]

definition itoa :: "int \<Rightarrow> string" where
  "itoa n = (if n = 0 then ''0'' else itoa_loop n [])"

section \<open>Nodes\<close>

datatype status = StCreated | StRunning | StCompleted | StFailed

record node =
  n_id :: string
  n_title :: string
  n_status :: status
  n_error :: string
  n_current :: i64
  n_total :: i64
  middlewareEnded :: bool
  middlewareEndErr :: "string option"
  end_signals :: nat

datatype tree = Node (node_of: node) (children: "tree list")

definition new_node :: "string \<Rightarrow> string \<Rightarrow> node" where
  "new_node i title = \<lparr>n_id = i, n_title = title, n_status = StCreated, n_error = [], n_current = 0, n_total = 0,
     middlewareEnded = False, middlewareEndErr = None, end_signals = 0\<rparr>"

definition terminal :: "status \<Rightarrow> bool" where
  "terminal s \<longleftrightarrow> s = StCompleted \<or> s = StFailed"

text \<open>\<open>end_signals\<close> counts the sends on the channel that \<open>next()\<close> waits on; \<open>None\<close> is a nil error.\<close>

definition signalMiddlewareEnd :: "string option \<Rightarrow> node \<Rightarrow> node" where
  "signalMiddlewareEnd err n =
     (if middlewareEnded n then n
      else n\<lparr>middlewareEnded := True, middlewareEndErr := err, end_signals := Suc (end_signals n)\<rparr>)"

definition setStatus :: "status \<Rightarrow> node \<Rightarrow> node" where
  "setStatus s n =
     (if n_status n = StCompleted \<or> n_status n = StFailed then n
      else if s = StCompleted then signalMiddlewareEnd None (n\<lparr>n_status := s\<rparr>) else n\<lparr>n_status := s\<rparr>)"

definition setFailed :: "string \<Rightarrow> node \<Rightarrow> node" where
  "setFailed msg n =
     (if n_status n = StCompleted \<or> n_status n = StFailed then n
      else signalMiddlewareEnd (Some msg) (n\<lparr>n_status := StFailed, n_error := msg\<rparr>))"

definition setProgress :: "i64 \<Rightarrow> i64 \<Rightarrow> node \<Rightarrow> node" where
  "setProgress cur tot n = n\<lparr>n_current := cur, n_total := tot\<rparr>"

definition stepProgress :: "i64 \<Rightarrow> node \<Rightarrow> node" where
  "stepProgress step n = n\<lparr>n_current := n_current n + step\<rparr>"

text \<open>The part of \<open>failTop\<close> and \<open>completeTop\<close> that acts on the node itself.\<close>

definition complete_node :: "node \<Rightarrow> node" where
  "complete_node n =
     (if n_status n \<noteq> StRunning \<and> n_status n \<noteq> StCreated then n
      else signalMiddlewareEnd None (n\<lparr>n_status := StCompleted\<rparr>))"

text \<open>The body of the loop of \<open>failChildren\<close> on one child.\<close>

definition fail_child :: "string \<Rightarrow> node \<Rightarrow> node" where
  "fail_child msg n =
     (if n_status n = StRunning \<or> n_status n = StCreated
      then signalMiddlewareEnd (Some msg) (n\<lparr>n_status := StFailed, n_error := msg\<rparr>) else n)"

fun fail_subtree :: "string \<Rightarrow> tree \<Rightarrow> tree" where
  "fail_subtree msg (Node n cs) = Node (fail_child msg n) (map (fail_subtree msg) cs)"

fun failChildren :: "string \<Rightarrow> tree \<Rightarrow> tree" where
  "failChildren msg (Node n cs) = Node n (map (fail_subtree msg) cs)"

text \<open>An operation on the node with a given ID, and the addition of a child there.\<close>

fun at_node :: "string \<Rightarrow> (node \<Rightarrow> node) \<Rightarrow> tree \<Rightarrow> tree" where
  "at_node i f (Node n cs) = Node (if n_id n = i then f n else n) (map (at_node i f) cs)"

fun addChild :: "string \<Rightarrow> tree \<Rightarrow> tree \<Rightarrow> tree" where
  "addChild i t (Node n cs) = Node n (map (addChild i t) cs @ (if n_id n = i then [t] else []))"

text \<open>\<open>createChild\<close>: the new node is added as created and then set running.\<close>

definition createChild :: "string \<Rightarrow> string \<Rightarrow> string \<Rightarrow> tree \<Rightarrow> tree" where
  "createChild parent i title t = at_node i (setStatus StRunning) (addChild parent (Node (new_node i title) []) t)"

fun nodes :: "tree \<Rightarrow> node list" where
  "nodes (Node n cs) = n # concat (map nodes cs)"

fun collectIDs :: "tree \<Rightarrow> string list" where
  "collectIDs (Node n cs) = concat (map (\<lambda>c. n_id (node_of c) # collectIDs c) cs)"

section \<open>Shared tasks\<close>

record shared_task =
  sh_tree :: tree
  sh_canceled :: bool
  ownerConnID :: u64
  ownerUserID :: string
  topLevel :: bool

definition completeTop :: "shared_task \<Rightarrow> shared_task" where
  "completeTop s =
     (case sh_tree s of Node n cs \<Rightarrow>
        if n_status n \<noteq> StRunning \<and> n_status n \<noteq> StCreated then s
        else s\<lparr>sh_tree := Node (complete_node n) cs, sh_canceled := True\<rparr>)"

definition failTop :: "string \<Rightarrow> shared_task \<Rightarrow> shared_task" where
  "failTop msg s =
     (case sh_tree s of Node n cs \<Rightarrow>
        if n_status n \<noteq> StRunning \<and> n_status n \<noteq> StCreated then s
        else s\<lparr>sh_tree := failChildren msg (Node (fail_child msg n) cs), sh_canceled := True\<rparr>)"

definition ownedBy :: "u64 \<Rightarrow> string \<Rightarrow> shared_task \<Rightarrow> bool" where
  "ownedBy connID userID s \<longleftrightarrow>
     (if ownerUserID s \<noteq> [] then userID \<noteq> [] \<and> ownerUserID s = userID
      else ownerConnID s \<noteq> 0 \<and> ownerConnID s = connID)"

definition startedOn :: "u64 \<Rightarrow> shared_task \<Rightarrow> bool" where
  "startedOn connID s \<longleftrightarrow> ownerConnID s \<noteq> 0 \<and> ownerConnID s = connID"

text \<open>The flags \<open>IsOwner\<close> and \<open>StartedHere\<close> of \<open>sharedSnapshotForConn\<close>.\<close>

definition sharedSnapshotForConn :: "u64 \<Rightarrow> string \<Rightarrow> shared_task \<Rightarrow> bool \<times> bool" where
  "sharedSnapshotForConn connID userID s =
     (if \<not> topLevel s then (False, False) else (ownedBy connID userID s, startedOn connID s))"

section \<open>Throttled progress\<close>

text \<open>
  The throttle of one task node: the time of the last broadcast (\<open>None\<close> before the first), the
  suppressed value, and whether the trailing timer is armed. Times are in nanoseconds.
\<close>

definition progressThrottleInterval :: int where
  "progressThrottleInterval = 50000000"

record throttle =
  th_last :: "int option"
  th_pending :: "(int \<times> int) option"
  th_timer :: bool

definition newThrottle :: throttle where
  "newThrottle = \<lparr>th_last = None, th_pending = None, th_timer = False\<rparr>"

definition window_over :: "int \<Rightarrow> throttle \<Rightarrow> bool" where
  "window_over now pt \<longleftrightarrow> (case th_last pt of None \<Rightarrow> True | Some l \<Rightarrow> now - l \<ge> progressThrottleInterval)"

text \<open>The progress branch of \<open>sendUpdate\<close> on the throttle of the node; the second component is the value broadcast, if any.\<close>

definition throttle_update :: "int \<Rightarrow> int \<times> int \<Rightarrow> throttle \<Rightarrow> throttle \<times> (int \<times> int) option" where
  "throttle_update now v pt =
     (if window_over now pt then (pt\<lparr>th_last := Some now, th_pending := None\<rparr>, Some v)
      else (pt\<lparr>th_pending := Some v, th_timer := True\<rparr>, None))"

definition throttle_flush :: "int \<Rightarrow> throttle \<Rightarrow> throttle \<times> (int \<times> int) option" where
  "throttle_flush now pt =
     (let pt' = pt\<lparr>th_timer := False\<rparr>
      in case th_pending pt of
           None \<Rightarrow> (pt', None)
         | Some v \<Rightarrow> (pt'\<lparr>th_pending := None, th_last := Some now\<rparr>, Some v))"

section \<open>The task manager\<close>

record taskManager =
  tm_tasks :: "(string, shared_task) gomap"
  tm_nextID :: int
  tm_throttles :: "(string, throttle) gomap"

definition newTaskManager :: taskManager where
  "newTaskManager = \<lparr>tm_tasks = [], tm_nextID = 0, tm_throttles = []\<rparr>"

definition allocID :: "taskManager \<Rightarrow> string \<times> taskManager" where
  "allocID tm = (''st'' @ itoa (tm_nextID tm + 1), tm\<lparr>tm_nextID := tm_nextID tm + 1\<rparr>)"

definition create :: "string \<Rightarrow> u64 \<Rightarrow> string \<Rightarrow> bool \<Rightarrow> taskManager \<Rightarrow> string \<times> taskManager" where
  "create title connID userID isTop tm =
     (case allocID tm of (i, tm') \<Rightarrow>
        (i, tm'\<lparr>tm_tasks := AList.update i
              \<lparr>sh_tree = Node (new_node i title) [], sh_canceled = False, ownerConnID = connID,
               ownerUserID = userID, topLevel = isTop\<rparr> (tm_tasks tm')\<rparr>))"

text \<open>\<open>remove\<close>, and the two operations on the throttles; each drops or reads the entries of node IDs.\<close>

definition remove_task :: "string \<Rightarrow> taskManager \<Rightarrow> taskManager" where
  "remove_task i tm =
     (let ids = i # (case map_of (tm_tasks tm) i of None \<Rightarrow> [] | Some s \<Rightarrow> collectIDs (sh_tree s))
      in tm\<lparr>tm_tasks := AList.delete i (tm_tasks tm),
            tm_throttles := fold AList.delete ids (tm_throttles tm)\<rparr>)"

definition sendUpdate ::
  "string \<Rightarrow> string option \<Rightarrow> (int \<times> int) option \<Rightarrow> int \<Rightarrow> taskManager \<Rightarrow>
     taskManager \<times> (string + int \<times> int) option" where
  "sendUpdate i output progress now tm =
     (case output of
        Some msg \<Rightarrow> (tm, Some (Inl msg))
      | None \<Rightarrow>
          (case progress of
             None \<Rightarrow> (tm, None)
           | Some v \<Rightarrow>
               let pt = (case map_of (tm_throttles tm) i of None \<Rightarrow> newThrottle | Some pt \<Rightarrow> pt)
               in case throttle_update now v pt of (pt', sent) \<Rightarrow>
                    (tm\<lparr>tm_throttles := AList.update i pt' (tm_throttles tm)\<rparr>, map_option Inr sent)))"

definition flushProgress :: "string \<Rightarrow> int \<Rightarrow> taskManager \<Rightarrow> taskManager \<times> (int \<times> int) option" where
  "flushProgress i now tm =
     (case map_of (tm_throttles tm) i of
        None \<Rightarrow> (tm, None)
      | Some pt \<Rightarrow>
          (case throttle_flush now pt of (pt', sent) \<Rightarrow>
             (tm\<lparr>tm_throttles := AList.update i pt' (tm_throttles tm)\<rparr>, sent)))"

definition stop_tasks :: "taskManager \<Rightarrow> taskManager" where
  "stop_tasks tm = tm\<lparr>tm_throttles := []\<rparr>"

definition map_task :: "string \<Rightarrow> (shared_task \<Rightarrow> shared_task) \<Rightarrow> taskManager \<Rightarrow> taskManager" where
  "map_task i f tm =
     (case map_of (tm_tasks tm) i of None \<Rightarrow> tm | Some s \<Rightarrow> tm\<lparr>tm_tasks := AList.update i (f s) (tm_tasks tm)\<rparr>)"

text \<open>
  The second half of \<open>startSharedTask\<close> and \<open>SharedSubTask\<close>, after the first broadcast: the status is
  stored without looking at it.
\<close>

definition start_running :: "shared_task \<Rightarrow> shared_task" where
  "start_running s = (case sh_tree s of Node n cs \<Rightarrow> s\<lparr>sh_tree := Node (n\<lparr>n_status := StRunning\<rparr>) cs\<rparr>)"

definition cancelTask :: "string \<Rightarrow> taskManager \<Rightarrow> taskManager \<times> bool" where
  "cancelTask i tm =
     (case map_of (tm_tasks tm) i of None \<Rightarrow> (tm, False) | Some s \<Rightarrow> (map_task i (failTop ''canceled'') tm, True))"

text \<open>
  \<open>CancelSharedTask\<close>: \<open>auth\<close> is the configured authorizer, from the task's descriptor to the error
  it returns, or \<open>None\<close> for the default policy. \<open>cancel_shared\<close> is the part that has a manager.
\<close>

record taskCancelInfo =
  ci_id :: string
  ci_title :: string
  ci_ownerConnID :: u64
  ci_ownerUserID :: string

definition cancelInfo :: "shared_task \<Rightarrow> taskCancelInfo" where
  "cancelInfo s = \<lparr>ci_id = n_id (node_of (sh_tree s)), ci_title = n_title (node_of (sh_tree s)),
     ci_ownerConnID = ownerConnID s, ci_ownerUserID = ownerUserID s\<rparr>"

definition cancel_shared ::
  "(taskCancelInfo \<Rightarrow> 'v go_error option) option \<Rightarrow> u64 \<Rightarrow> string \<Rightarrow> string \<Rightarrow> taskManager \<Rightarrow>
     taskManager \<times> 'v go_error option" where
  "cancel_shared auth connID userID i tm =
     (let forbidden = NewError CodeForbidden (''task not found: '' @ i)
      in case auth of
        Some a \<Rightarrow>
          (case map_of (tm_tasks tm) i of
             None \<Rightarrow> (tm, Some forbidden)
           | Some s \<Rightarrow>
               (case a (cancelInfo s) of
                  Some err \<Rightarrow> (tm, Some err)
                | None \<Rightarrow> (map_task i (failTop ''canceled'') tm, None)))
      | None \<Rightarrow>
          (case map_of (tm_tasks tm) i of
             None \<Rightarrow> (tm, Some forbidden)
           | Some s \<Rightarrow>
               if \<not> ownedBy connID userID s then (tm, Some forbidden)
               else (map_task i (failTop ''canceled'') tm, None)))"

definition CancelSharedTask ::
  "(taskCancelInfo \<Rightarrow> 'v go_error option) option \<Rightarrow> u64 \<Rightarrow> string \<Rightarrow> string \<Rightarrow> taskManager option \<Rightarrow>
     taskManager option \<times> 'v go_error option" where
  "CancelSharedTask auth connID userID i tmo =
     (case tmo of
        None \<Rightarrow> (None, Some (NewError CodeInternalError ''tasks not enabled''))
      | Some tm \<Rightarrow> apfst Some (cancel_shared auth connID userID i tm))"

definition CancelTaskByID :: "string \<Rightarrow> taskManager option \<Rightarrow> taskManager option \<times> bool" where
  "CancelTaskByID i tmo = (case tmo of None \<Rightarrow> (None, False) | Some tm \<Rightarrow> apfst Some (cancelTask i tm))"

definition FindSharedTask :: "string \<Rightarrow> taskManager option \<Rightarrow> shared_task option" where
  "FindSharedTask i tmo = (case tmo of None \<Rightarrow> None | Some tm \<Rightarrow> map_of (tm_tasks tm) i)"

text \<open>\<open>finalizeTaskSlot\<close> on the task in the slot, shared or request-scoped.\<close>

definition finalize_shared :: "string option \<Rightarrow> bool \<Rightarrow> shared_task \<Rightarrow> shared_task" where
  "finalize_shared err canceled s =
     (case err of Some e \<Rightarrow> failTop e s | None \<Rightarrow> if canceled then failTop ''canceled'' s else completeTop s)"

definition finalize_request :: "string option \<Rightarrow> bool \<Rightarrow> node \<Rightarrow> node" where
  "finalize_request err canceled n =
     (case err of Some e \<Rightarrow> setFailed e n
      | None \<Rightarrow> if canceled then setFailed ''canceled'' n else setStatus StCompleted n)"

section \<open>Nodes of a tree\<close>

lemma nodes_at_node: "nodes (at_node i f t) = map (\<lambda>n. if n_id n = i then f n else n) (nodes t)"
  by (induction t) (simp add: map_concat comp_def cong: map_cong)

lemma nodes_fail_subtree: "nodes (fail_subtree msg t) = map (fail_child msg) (nodes t)"
  by (induction t) (simp add: map_concat comp_def cong: map_cong)

lemma nodes_failChildren:
  "nodes (failChildren msg (Node n cs)) = n # map (fail_child msg) (concat (map nodes cs))"
  by (simp add: map_concat comp_def nodes_fail_subtree)

lemma nodes_addChild_mono: "set (nodes u) \<subseteq> set (nodes (addChild i t u))"
  by (induction u) force

lemma nodes_addChild_le: "set (nodes (addChild i t u)) \<subseteq> set (nodes u) \<union> set (nodes t)"
proof (induction u)
  case (Node n cs)
  then show ?case by (cases "n_id n = i") fastforce+
qed

lemma nodes_failTop:
  "nodes (sh_tree (failTop msg s)) =
     (if terminal (n_status (node_of (sh_tree s))) then nodes (sh_tree s) else map (fail_child msg) (nodes (sh_tree s)))"
proof (cases "sh_tree s")
  case (Node n cs)
  have "terminal (n_status n) \<longleftrightarrow> n_status n \<noteq> StRunning \<and> n_status n \<noteq> StCreated"
    by (cases "n_status n") (simp_all add: terminal_def)
  then show ?thesis
    by (simp add: failTop_def Node nodes_fail_subtree map_concat comp_def)
qed

lemma nodes_completeTop:
  "nodes (sh_tree (completeTop s)) = (case nodes (sh_tree s) of n # ns \<Rightarrow> complete_node n # ns)"
  by (cases "sh_tree s") (simp add: completeTop_def complete_node_def)

lemma set_collectIDs: "insert (n_id (node_of t)) (set (collectIDs t)) = n_id ` set (nodes t)"
proof (induction t)
  case (Node n cs)
  have "set (collectIDs (Node n cs)) = (\<Union>c\<in>set cs. insert (n_id (node_of c)) (set (collectIDs c)))" by auto
  also have "\<dots> = (\<Union>c\<in>set cs. n_id ` set (nodes c))" using Node by (intro SUP_cong refl) blast
  finally show ?case by auto
qed

section \<open>Lifecycle of a node\<close>

text \<open>The operations the program applies to a node.\<close>

inductive node_op :: "(node \<Rightarrow> node) \<Rightarrow> bool" where
  op_running: "node_op (setStatus StRunning)"
| op_completed: "node_op (setStatus StCompleted)"
| op_failed: "node_op (setFailed msg)"
| op_progress: "node_op (setProgress cur tot)"
| op_step: "node_op (stepProgress d)"
| op_complete_top: "node_op complete_node"
| op_fail: "node_op (fail_child msg)"

text \<open>
  The middleware of a node is told its end exactly when the node is completed or failed, once, with
  the error of the failure.
\<close>

definition node_inv :: "node \<Rightarrow> bool" where
  "node_inv n \<longleftrightarrow> middlewareEnded n = terminal (n_status n) \<and>
     end_signals n = (if terminal (n_status n) then 1 else 0) \<and>
     (n_status n = StFailed \<longrightarrow> middlewareEndErr n = Some (n_error n)) \<and>
     (n_status n = StCompleted \<longrightarrow> middlewareEndErr n = None)"

definition same_end :: "node \<Rightarrow> node \<Rightarrow> bool" where
  "same_end n n' \<longleftrightarrow> n_id n' = n_id n \<and> n_status n' = n_status n \<and> n_error n' = n_error n \<and>
     middlewareEndErr n' = middlewareEndErr n \<and> end_signals n' = end_signals n"

lemmas node_op_defs = setStatus_def setFailed_def setProgress_def stepProgress_def complete_node_def fail_child_def
  signalMiddlewareEnd_def terminal_def

lemma node_op_id: "node_op f \<Longrightarrow> n_id (f n) = n_id n"
  by (induction rule: node_op.induct) (auto simp: node_op_defs)

lemma node_op_inv:
  assumes "node_op f" "node_inv n"
  shows "node_inv (f n)"
  using assms by (induction rule: node_op.induct; cases "n_status n") (simp_all add: node_op_defs node_inv_def)

lemma node_op_absorbing:
  assumes "node_op f" "terminal (n_status n)"
  shows "same_end n (f n)"
  using assms by (induction rule: node_op.induct) (auto simp: node_op_defs same_end_def)

lemma new_node_inv: "node_inv (new_node i title)"
  by (simp add: node_inv_def new_node_def terminal_def)

text \<open>Every way the program changes a shared task once it runs.\<close>

inductive task_step :: "shared_task \<Rightarrow> shared_task \<Rightarrow> bool" where
  ts_node: "node_op f \<Longrightarrow> task_step s (s\<lparr>sh_tree := at_node i f (sh_tree s)\<rparr>)"
| ts_child: "i \<notin> n_id ` set (nodes (sh_tree s)) \<Longrightarrow> task_step s (s\<lparr>sh_tree := createChild parent i title (sh_tree s)\<rparr>)"
| ts_complete: "task_step s (completeTop s)"
| ts_fail: "task_step s (failTop msg s)"

inductive_cases task_stepE: "task_step s t"

definition task_inv :: "shared_task \<Rightarrow> bool" where
  "task_inv s \<longleftrightarrow> (\<forall>n\<in>set (nodes (sh_tree s)). node_inv n)"

lemma createChild_nodes:
  assumes "n \<in> set (nodes (createChild parent i title t))"
  shows "(\<exists>m\<in>set (nodes t). n = (if n_id m = i then setStatus StRunning m else m)) \<or>
    n = setStatus StRunning (new_node i title)"
proof -
  obtain m where m: "m \<in> set (nodes (addChild parent (Node (new_node i title) []) t))"
    "n = (if n_id m = i then setStatus StRunning m else m)"
    using assms by (auto simp: createChild_def nodes_at_node)
  then have "m \<in> set (nodes t) \<or> m = new_node i title" using nodes_addChild_le by fastforce
  moreover have "n_id (new_node i title) = i" by (simp add: new_node_def)
  ultimately show ?thesis using m(2) by auto
qed

lemma task_inv_step: "task_step s t \<Longrightarrow> task_inv s \<Longrightarrow> task_inv t"
proof (induction rule: task_step.induct)
  case (ts_node f s i)
  then show ?case by (auto simp: task_inv_def nodes_at_node node_op_inv)
next
  case (ts_child i s parent title)
  have "node_inv n" if "n \<in> set (nodes (createChild parent i title (sh_tree s)))" for n
    using createChild_nodes [OF that]
  proof
    assume "\<exists>m\<in>set (nodes (sh_tree s)). n = (if n_id m = i then setStatus StRunning m else m)"
    then show ?thesis using ts_child(2) node_op_inv [OF op_running] by (auto simp: task_inv_def)
  next
    assume "n = setStatus StRunning (new_node i title)"
    then show ?thesis using node_op_inv [OF op_running new_node_inv] by simp
  qed
  then show ?case by (simp add: task_inv_def)
next
  case (ts_complete s)
  then show ?case
    by (cases "sh_tree s") (auto simp: task_inv_def nodes_completeTop node_op_inv [OF op_complete_top])
next
  case (ts_fail s msg)
  then show ?case by (auto simp: task_inv_def nodes_failTop node_op_inv [OF op_fail])
qed

lemma task_step_keeps_end:
  assumes "task_step s t" "n \<in> set (nodes (sh_tree s))" "terminal (n_status n)"
  shows "\<exists>n'\<in>set (nodes (sh_tree t)). same_end n n'"
  using assms
proof (induction rule: task_step.induct)
  case (ts_node f s i)
  have "(if n_id n = i then f n else n) \<in> set (nodes (at_node i f (sh_tree s)))"
    unfolding nodes_at_node set_map using ts_node(2) by (rule imageI)
  moreover have "same_end n (if n_id n = i then f n else n)"
    using node_op_absorbing [OF ts_node(1,3)] by (auto simp: same_end_def)
  ultimately show ?case by auto
next
  case (ts_child i s parent title)
  then have "n_id n \<noteq> i" by auto
  then have "n \<in> set (nodes (createChild parent i title (sh_tree s)))"
    using ts_child(2) nodes_addChild_mono [of "sh_tree s" parent "Node (new_node i title) []"]
    by (force simp: createChild_def nodes_at_node)
  then show ?case by (auto simp: same_end_def)
next
  case (ts_complete s)
  then show ?case
    using node_op_absorbing [OF op_complete_top ts_complete(2)]
    by (cases "sh_tree s") (auto simp: nodes_completeTop same_end_def)
next
  case (ts_fail s msg)
  then show ?case
    using node_op_absorbing [OF op_fail ts_fail(2), of msg] by (auto simp: nodes_failTop same_end_def)
qed

lemma task_steps_keep_end:
  assumes "task_step\<^sup>*\<^sup>* s t" "n \<in> set (nodes (sh_tree s))" "terminal (n_status n)"
  shows "\<exists>n'\<in>set (nodes (sh_tree t)). same_end n n'"
  using assms(1)
proof (induction rule: rtranclp_induct)
  case base
  then show ?case using assms(2) by (auto simp: same_end_def)
next
  case (step t u)
  then obtain n' where n': "n' \<in> set (nodes (sh_tree t))" "same_end n n'" by blast
  then have "terminal (n_status n')" using assms(3) by (simp add: same_end_def)
  from task_step_keeps_end [OF step(2) n'(1) this] n'(2) show ?case by (auto simp: same_end_def)
qed

lemma started_node_inv: "node_inv ((new_node i title)\<lparr>n_status := StRunning\<rparr>)"
  by (simp add: node_inv_def new_node_def terminal_def)

interpretation task_ts: trans_sys
  "\<lambda>s. \<exists>s0 i title. sh_tree s0 = Node (new_node i title) [] \<and> s = start_running s0" task_step task_inv
proof
  show "task_inv s" if "\<exists>s0 i title. sh_tree s0 = Node (new_node i title) [] \<and> s = start_running s0" for s
    using that by (auto simp: task_inv_def start_running_def started_node_inv)
qed (rule task_inv_step)

section \<open>IDs\<close>

lemma itoa_loop_nat_str: "n > 0 \<Longrightarrow> itoa_loop n buf = nat_str (nat n) @ buf"
proof (induction n buf rule: itoa_loop.induct)
  case (1 n buf)
  show ?case
  proof (cases "n < 10")
    case True
    then have "n div 10 = 0" "n mod 10 = n" using 1(2) by auto
    then show ?thesis using 1(2) True by (simp add: itoa_loop.simps [of n] itoa_loop.simps [of 0] nat_str.simps [of "nat n"])
  next
    case False
    then have "nat_str (nat n) = nat_str (nat (n div 10)) @ [digit_char (nat (n mod 10))]"
      by (subst nat_str.simps) (simp add: nat_div_distrib nat_mod_distrib)
    then show ?thesis using 1 False by (simp add: itoa_loop.simps [of n])
  qed
qed

lemma itoa_nat_str: "n \<ge> 0 \<Longrightarrow> itoa n = nat_str (nat n)"
proof (cases "n = 0")
  case True
  have "digit_char 0 = CHR ''0''" by code_simp
  then show ?thesis using True by (simp add: itoa_def nat_str.simps [of 0])
qed (simp add: itoa_def itoa_loop_nat_str)

lemma length_nat_str: "n < 10 ^ k \<Longrightarrow> 0 < k \<Longrightarrow> length (nat_str n) \<le> k"
proof (induction k arbitrary: n)
  case (Suc k)
  show ?case
  proof (cases "n < 10")
    case True
    then show ?thesis by (simp add: nat_str.simps [of n])
  next
    case False
    then have "0 < k" using Suc.prems(1) by (cases k) simp_all
    moreover have "n div 10 < 10 ^ k" using Suc.prems(1) by auto
    ultimately have "length (nat_str (n div 10)) \<le> k" using Suc.IH by blast
    then show ?thesis using False by (simp add: nat_str.simps [of n])
  qed
qed simp

text \<open>Along any sequence of creations and removals, an ID in use was allocated before.\<close>

inductive tm_step :: "taskManager \<Rightarrow> taskManager \<Rightarrow> bool" where
  tm_create: "tm_step tm (snd (create title c u isTop tm))"
| tm_alloc: "tm_step tm (snd (allocID tm))"
| tm_remove: "tm_step tm (remove_task i tm)"
| tm_map: "tm_step tm (map_task i f tm)"
| tm_update: "tm_step tm (fst (sendUpdate i msg v now tm))"
| tm_flush: "tm_step tm (fst (flushProgress i now tm))"
| tm_stop: "tm_step tm (stop_tasks tm)"

definition tm_inv :: "taskManager \<Rightarrow> bool" where
  "tm_inv tm \<longleftrightarrow> tm_nextID tm \<ge> 0 \<and> gm_wf (tm_tasks tm) \<and>
     (\<forall>i s. map_of (tm_tasks tm) i = Some s \<longrightarrow> (\<exists>k. 0 < k \<and> k \<le> tm_nextID tm \<and> i = ''st'' @ itoa k))"

lemma tm_inv_step: "tm_step tm tm' \<Longrightarrow> tm_inv tm \<Longrightarrow> tm_inv tm'"
proof (induction rule: tm_step.induct)
  case (tm_create tm title c u isTop)
  let ?i = "''st'' @ itoa (tm_nextID tm + 1)"
  have "\<exists>k. 0 < k \<and> k \<le> tm_nextID tm + 1 \<and> j = ''st'' @ itoa k" if "j = ?i \<or> map_of (tm_tasks tm) j \<noteq> None" for j
    using that
  proof
    assume "j = ?i"
    then show ?thesis using tm_create by (intro exI [of _ "tm_nextID tm + 1"]) (simp add: tm_inv_def)
  next
    assume "map_of (tm_tasks tm) j \<noteq> None"
    then obtain k where "0 < k \<and> k \<le> tm_nextID tm \<and> j = ''st'' @ itoa k" using tm_create unfolding tm_inv_def by blast
    then show ?thesis by (intro exI [of _ k]) simp
  qed
  then have "\<forall>j s. map_of (tm_tasks (snd (create title c u isTop tm))) j = Some s \<longrightarrow>
      (\<exists>k. 0 < k \<and> k \<le> tm_nextID tm + 1 \<and> j = ''st'' @ itoa k)"
    by (auto simp: create_def allocID_def split: if_splits)
  then show ?case using tm_create by (simp add: tm_inv_def create_def allocID_def)
next
  case (tm_alloc tm)
  have "\<exists>k. 0 < k \<and> k \<le> tm_nextID tm + 1 \<and> j = ''st'' @ itoa k" if mem: "map_of (tm_tasks tm) j = Some s" for j s
  proof -
    obtain k where "0 < k \<and> k \<le> tm_nextID tm \<and> j = ''st'' @ itoa k" using tm_alloc mem unfolding tm_inv_def by blast
    then show ?thesis by (intro exI [of _ k]) simp
  qed
  then show ?case using tm_alloc by (simp add: tm_inv_def allocID_def)
next
  case (tm_remove tm i)
  then show ?case by (auto simp: tm_inv_def remove_task_def Let_def split: if_splits)
next
  case (tm_map tm i f)
  then show ?case by (auto simp: tm_inv_def map_task_def split: option.splits if_splits)
next
  case (tm_update tm i msg v now)
  then show ?case by (simp add: tm_inv_def sendUpdate_def Let_def split: option.splits prod.splits)
next
  case (tm_flush tm i now)
  then show ?case by (simp add: tm_inv_def flushProgress_def split: option.splits prod.splits)
next
  case (tm_stop tm)
  then show ?case by (simp add: tm_inv_def stop_tasks_def)
qed

interpretation tm_ts: trans_sys "\<lambda>tm. tm = newTaskManager" tm_step tm_inv
proof
  show "tm_inv tm" if "tm = newTaskManager" for tm using that by (simp add: newTaskManager_def tm_inv_def)
qed (rule tm_inv_step)

section \<open>Throttling\<close>

text \<open>
  A run of updates and timer firings for one task node. The trailing timer fires only while armed,
  at any later time. \<open>shown\<close> is what the clients have been told.
\<close>

datatype throttle_event = Update int "int \<times> int" | Fire int

fun throttle_run :: "throttle_event list \<Rightarrow> throttle \<times> (int \<times> (int \<times> int)) list \<Rightarrow>
    throttle \<times> (int \<times> (int \<times> int)) list" where
  "throttle_run [] s = s"
| "throttle_run (Update now v # es) s =
     (case throttle_update now v (fst s) of (pt, out) \<Rightarrow>
        throttle_run es (pt, snd s @ (case out of None \<Rightarrow> [] | Some x \<Rightarrow> [(now, x)])))"
| "throttle_run (Fire now # es) s =
     (if \<not> th_timer (fst s) then throttle_run es s
      else case throttle_flush now (fst s) of (pt, out) \<Rightarrow>
        throttle_run es (pt, snd s @ (case out of None \<Rightarrow> [] | Some x \<Rightarrow> [(now, x)])))"

fun latest :: "throttle_event list \<Rightarrow> (int \<times> int) option \<Rightarrow> (int \<times> int) option" where
  "latest [] v = v"
| "latest (Update now x # es) v = latest es (Some x)"
| "latest (Fire now # es) v = latest es v"

text \<open>The newest value has been shown, or it is pending and the timer is armed.\<close>

definition throttle_inv :: "(int \<times> int) option \<Rightarrow> throttle \<times> (int \<times> (int \<times> int)) list \<Rightarrow> bool" where
  "throttle_inv v s \<longleftrightarrow>
     (case th_pending (fst s) of
        Some x \<Rightarrow> v = Some x \<and> th_timer (fst s)
      | None \<Rightarrow> (case v of None \<Rightarrow> snd s = [] | Some x \<Rightarrow> snd s \<noteq> [] \<and> snd (last (snd s)) = x))"

lemma throttle_inv_run: "throttle_inv v s \<Longrightarrow> throttle_inv (latest es v) (throttle_run es s)"
proof (induction es s arbitrary: v rule: throttle_run.induct)
  case (2 now x es s)
  obtain pt out where u: "throttle_update now x (fst s) = (pt, out)" by fastforce
  have "throttle_inv (Some x) (pt, snd s @ (case out of None \<Rightarrow> [] | Some x \<Rightarrow> [(now, x)]))"
    using u by (auto simp: throttle_update_def throttle_inv_def split: if_splits)
  from 2(1) [OF u [symmetric] this] u show ?case by simp
next
  case (3 now es s)
  show ?case
  proof (cases "th_timer (fst s)")
    case False
    then show ?thesis using 3 by simp
  next
    case True
    obtain pt out where u: "throttle_flush now (fst s) = (pt, out)" by fastforce
    have "throttle_inv v (pt, snd s @ (case out of None \<Rightarrow> [] | Some x \<Rightarrow> [(now, x)]))"
      using u 3(3) by (auto simp: throttle_flush_def throttle_inv_def Let_def split: option.splits)
    from 3(2) [OF _ u [symmetric] this] u True show ?thesis by simp
  qed
qed simp

section \<open>Properties\<close>


definition task1 :: shared_task where
  "task1 = \<lparr>sh_tree = Node (new_node ''st1'' ''import'') [], sh_canceled = False, ownerConnID = 4, ownerUserID = ''ann'',
     topLevel = True\<rparr>"


text \<open>
  Failing a shared task takes its whole tree down: afterwards no node is active, the
  nodes that were active have failed with the given message, the ones that had ended keep their
  outcome, and the task's context is cancelled. On a task that has already ended it does nothing.
\<close>

theorem failTop_cascades:
  "(if n_status (node_of (sh_tree s)) \<in> {StRunning, StCreated}
    then sh_canceled (failTop msg s) \<and>
      nodes (sh_tree (failTop msg s)) = map (fail_child msg) (nodes (sh_tree s)) \<and>
      (\<forall>n\<in>set (nodes (sh_tree (failTop msg s))). n_status n \<in> {StCompleted, StFailed})
    else failTop msg s = s)"
proof (cases "sh_tree s")
  case (Node n cs)
  have "n_status (fail_child msg m) \<in> {StCompleted, StFailed}" for m
    by (cases "n_status m") (simp_all add: fail_child_def signalMiddlewareEnd_def)
  then show ?thesis
    using Node by (auto simp: failTop_def nodes_fail_subtree map_concat comp_def)
qed

theorem failTop_cascades_witness:
  "sh_canceled (failTop ''boom'' task1)"
proof -
  have "n_status (node_of (sh_tree task1)) \<in> {StRunning, StCreated}" by (simp add: task1_def new_node_def)
  then show ?thesis using failTop_cascades [of task1 "''boom''"] by (simp only: if_True)
qed

text \<open>
  Who may cancel a shared task by default: exactly its owner, by user when the owner
  was authenticated and by connection otherwise; every viewer who is shown \<open>IsOwner\<close> may cancel;
  a task that does not exist and one that belongs to someone else get the same error, and a
  refused cancel changes nothing.
\<close>

theorem cancel_policy:
  "(snd (CancelSharedTask None c u i (Some tm) :: taskManager option \<times> 'v go_error option) = None \<longleftrightarrow>
      (\<exists>s. map_of (tm_tasks tm) i = Some s \<and> ownedBy c u s)) \<and>
   (map_of (tm_tasks tm) i = Some s \<and> fst (sharedSnapshotForConn c u s) \<longrightarrow>
      (CancelSharedTask None c u i (Some tm) :: taskManager option \<times> 'v go_error option) =
        (Some (map_task i (failTop ''canceled'') tm), None)) \<and>
   (snd (CancelSharedTask None c u i (Some tm) :: taskManager option \<times> 'v go_error option) \<noteq> None \<longrightarrow>
      CancelSharedTask None c u i (Some tm) =
        (Some tm, Some (NewError CodeForbidden (''task not found: '' @ i) :: 'v go_error)))"
  by (auto simp: CancelSharedTask_def cancel_shared_def Let_def sharedSnapshotForConn_def split: option.splits if_splits)

definition tm1 :: taskManager where
  "tm1 = \<lparr>tm_tasks = [(''st1'', task1)], tm_nextID = 1, tm_throttles = []\<rparr>"

theorem cancel_policy_witness:
  "(CancelSharedTask None 9 ''ann'' ''st1'' (Some tm1) :: taskManager option \<times> int go_error option) =
     (Some (map_task ''st1'' (failTop ''canceled'') tm1), None)"
proof -
  have "map_of (tm_tasks tm1) ''st1'' = Some task1 \<and> fst (sharedSnapshotForConn 9 ''ann'' task1)"
    by (simp add: tm1_def task1_def sharedSnapshotForConn_def ownedBy_def)
  then show ?thesis using cancel_policy [of 9 "''ann''" "''st1''" tm1 task1] by blast
qed

text \<open>
  A sub-task shared on its own (\<open>SharedSubTask\<close>) is never shown as owned, although its
  owner may cancel it: the flag and the permission do disagree there.
\<close>

theorem subtask_owner_flag_disagrees:
  assumes "\<not> topLevel s" "ownedBy c u s" "map_of (tm_tasks tm) i = Some s"
  shows "\<not> fst (sharedSnapshotForConn c u s) \<and>
    snd (CancelSharedTask None c u i (Some tm) :: taskManager option \<times> 'v go_error option) = None"
  using assms by (simp add: sharedSnapshotForConn_def CancelSharedTask_def cancel_shared_def Let_def)

theorem subtask_owner_flag_disagrees_witness:
  "\<not> fst (sharedSnapshotForConn 9 ''ann'' (task1\<lparr>topLevel := False\<rparr>))"
proof -
  let ?s = "task1\<lparr>topLevel := False\<rparr>"
  let ?tm = "\<lparr>tm_tasks = [(''st1'', ?s)], tm_nextID = 1, tm_throttles = []\<rparr>"
  have h: "\<not> topLevel ?s" "ownedBy 9 ''ann'' ?s" "map_of (tm_tasks ?tm) ''st1'' = Some ?s"
    by (simp_all add: task1_def ownedBy_def)
  from subtask_owner_flag_disagrees [where 'v = int, OF h] show ?thesis by (rule conjunct1)
qed

text \<open>
  A shared task cancelled between its creation and its start is revived: the start
  stores the running status without looking, so the node counts as running again although its
  context is cancelled and its middleware has been told that it failed.
\<close>

theorem start_revives_canceled_task:
  "let s = start_running (failTop ''canceled'' task1); n = node_of (sh_tree s)
   in n_status n = StRunning \<and> n_error n = ''canceled'' \<and> sh_canceled s \<and> middlewareEnded n \<and>
      middlewareEndErr n = Some ''canceled''"
  by (simp add: start_running_def failTop_def task1_def new_node_def fail_child_def signalMiddlewareEnd_def Let_def)

text \<open>
  Throttling never loses the last value: after any sequence of updates and timer
  firings, the newest progress value either is the last one broadcast, or is pending with the
  timer armed, in which case the next firing broadcasts it.
\<close>

theorem throttle_keeps_last_value:
  assumes "throttle_run es (newThrottle, []) = (pt, shown)" and "latest es None = Some v"
  shows "(th_pending pt = None \<and> shown \<noteq> [] \<and> snd (last shown) = v) \<or>
    (th_pending pt = Some v \<and> th_timer pt \<and> snd (throttle_flush now pt) = Some v)"
proof -
  have "throttle_inv None (newThrottle, [])" by (simp add: throttle_inv_def newThrottle_def)
  from throttle_inv_run [OF this, of es] assms show ?thesis
    by (auto simp: throttle_inv_def throttle_flush_def Let_def split: option.splits)
qed

theorem throttle_keeps_last_value_witness:
  "snd (throttle_flush 60000000 (fst (throttle_run [Update 0 (1, 10), Update 5 (2, 10), Update 9 (3, 10)] (newThrottle, [])))) =
     Some (3, 10)"
proof -
  let ?es = "[Update 0 (1, 10), Update 5 (2, 10), Update 9 (3, 10)]"
  obtain pt shown where r: "throttle_run ?es (newThrottle, []) = (pt, shown)" by fastforce
  have l: "latest ?es None = Some (3, 10)" by simp
  have "th_pending pt \<noteq> None"
    using r by (auto simp: throttle_update_def window_over_def newThrottle_def progressThrottleInterval_def)
  with throttle_keeps_last_value [OF r l, of 60000000] r show ?thesis by auto
qed

text \<open>
  The spacing of broadcasts is not guaranteed: a trailing timer that fires late, after
  the window has passed and another update has been broadcast, broadcasts the next suppressed
  value right after it.
\<close>

theorem throttle_spacing_violated:
  "map fst (snd (throttle_run [Update 0 (1, 9), Update 10 (2, 9), Update 50000000 (3, 9), Update 50000001 (4, 9),
       Fire 50000002] (newThrottle, []))) = [0, 50000000, 50000002]"
  by (simp add: throttle_update_def throttle_flush_def window_over_def newThrottle_def progressThrottleInterval_def Let_def)

text \<open>
  Task IDs: \<open>itoa\<close> is decimal notation for every non-negative number and fits its
  20-byte buffer for every \<open>int64\<close>, and an ID that the manager allocates belongs to no task it
  holds, whatever was created and removed before.
\<close>

theorem task_ids_fresh:
  assumes "tm_step\<^sup>*\<^sup>* newTaskManager tm"
  shows "parse_nat (itoa (tm_nextID tm)) = Some (nat (tm_nextID tm)) \<and>
    (tm_nextID tm < 2 ^ 63 \<longrightarrow> length (itoa (tm_nextID tm)) \<le> 20) \<and>
    map_of (tm_tasks tm) (fst (allocID tm)) = None"
proof -
  have inv: "tm_inv tm" by (rule tm_ts.inv_reachable [OF refl assms])
  then have nn: "tm_nextID tm \<ge> 0" by (simp add: tm_inv_def)
  have "itoa (tm_nextID tm + 1) \<noteq> itoa k" if "0 < k" "k \<le> tm_nextID tm" for k
    using that nn by (simp add: itoa_nat_str nat_eq_iff)
  then have "map_of (tm_tasks tm) (''st'' @ itoa (tm_nextID tm + 1)) = None"
    using inv unfolding tm_inv_def by (metis not_Some_eq same_append_eq)
  moreover have "length (itoa (tm_nextID tm)) \<le> 20" if "tm_nextID tm < 2 ^ 63"
    using that nn length_nat_str [of "nat (tm_nextID tm)" 20] by (simp add: itoa_nat_str)
  ultimately show ?thesis using nn by (simp add: itoa_nat_str allocID_def)
qed

theorem task_ids_fresh_witness:
  "map_of (tm_tasks (snd (create ''a'' 1 [] True newTaskManager))) (fst (allocID (snd (create ''a'' 1 [] True newTaskManager)))) = None"
proof -
  have "tm_step\<^sup>*\<^sup>* newTaskManager (snd (create ''a'' 1 [] True newTaskManager))"
    by (rule r_into_rtranclp) (rule tm_create)
  from task_ids_fresh [OF this] show ?thesis by simp
qed

lemma map_of_fold_delete: "map_of (fold AList.delete ks m) k = (if k \<in> set ks then None else map_of m k)"
  by (induction ks arbitrary: m) (auto simp: delete_conv')

lemma throttles_remove_task:
  "map_of (tm_throttles (remove_task i tm)) k =
     (if k \<in> insert i (case map_of (tm_tasks tm) i of None \<Rightarrow> {} | Some s \<Rightarrow> set (collectIDs (sh_tree s)))
      then None else map_of (tm_throttles tm) k)"
proof -
  let ?ids = "i # (case map_of (tm_tasks tm) i of None \<Rightarrow> [] | Some s \<Rightarrow> collectIDs (sh_tree s))"
  have "tm_throttles (remove_task i tm) = fold AList.delete ?ids (tm_throttles tm)" by (simp add: remove_task_def Let_def)
  moreover have "set ?ids = insert i (case map_of (tm_tasks tm) i of None \<Rightarrow> {} | Some s \<Rightarrow> set (collectIDs (sh_tree s)))"
    by (simp split: option.splits)
  ultimately show ?thesis by (metis map_of_fold_delete)
qed

text \<open>The node \<open>j\<close> belongs to no task the manager knows.\<close>

definition orphan :: "string \<Rightarrow> taskManager \<Rightarrow> bool" where
  "orphan j tm \<longleftrightarrow> (\<forall>k s. map_of (tm_tasks tm) k = Some s \<longrightarrow> j \<notin> set (collectIDs (sh_tree s)))"

lemma fold_remove_keeps_orphan:
  assumes "orphan j tm" "j \<notin> set ks"
  shows "map_of (tm_throttles (fold remove_task ks tm)) j = map_of (tm_throttles tm) j"
  using assms
proof (induction ks arbitrary: tm)
  case (Cons k ks)
  have "orphan j (remove_task k tm)"
    using Cons(2) by (auto simp: orphan_def remove_task_def Let_def delete_conv' split: if_splits)
  with Cons have "map_of (tm_throttles (fold remove_task ks (remove_task k tm))) j = map_of (tm_throttles (remove_task k tm)) j"
    by simp
  also have "\<dots> = map_of (tm_throttles tm) j"
    using Cons(2,3) by (auto simp: throttles_remove_task orphan_def split: option.splits)
  finally show ?case by simp
qed simp

text \<open>
  Removing a task forgets the throttles of its whole tree and of nothing else, so a
  trailing timer that fires afterwards for any of its nodes finds nothing and broadcasts nothing.
\<close>

theorem remove_forgets_throttles:
  assumes "map_of (tm_tasks tm) i = Some s" "n_id (node_of (sh_tree s)) = i" "n \<in> set (nodes (sh_tree s))"
  shows "map_of (tm_tasks (remove_task i tm)) i = None \<and>
    flushProgress (n_id n) now (remove_task i tm) = (remove_task i tm, None) \<and>
    (j \<notin> n_id ` set (nodes (sh_tree s)) \<longrightarrow>
       map_of (tm_throttles (remove_task i tm)) j = map_of (tm_throttles tm) j)"
proof -
  have "insert i (set (collectIDs (sh_tree s))) = n_id ` set (nodes (sh_tree s))"
    using assms(2) set_collectIDs [of "sh_tree s"] by simp
  then have "map_of (tm_throttles (remove_task i tm)) k =
      (if k \<in> n_id ` set (nodes (sh_tree s)) then None else map_of (tm_throttles tm) k)" for k
    using throttles_remove_task [of i tm k] assms(1) by simp
  moreover have "map_of (tm_tasks (remove_task i tm)) i = None" by (simp add: remove_task_def Let_def delete_conv')
  ultimately show ?thesis using assms(3) by (simp add: flushProgress_def)
qed

theorem remove_forgets_throttles_witness:
  "flushProgress ''st1'' 7 (remove_task ''st1'' (fst (sendUpdate ''st1'' None (Some (1, 2)) 0 tm1))) =
     (remove_task ''st1'' (fst (sendUpdate ''st1'' None (Some (1, 2)) 0 tm1)), None)"
proof -
  let ?tm = "fst (sendUpdate ''st1'' None (Some (1, 2)) 0 tm1)"
  have "map_of (tm_tasks ?tm) ''st1'' = Some task1"
    by (simp add: sendUpdate_def Let_def tm1_def split: prod.splits)
  moreover have "n_id (node_of (sh_tree task1)) = ''st1''" by (simp add: task1_def new_node_def)
  moreover have "new_node ''st1'' ''import'' \<in> set (nodes (sh_tree task1))" by (simp add: task1_def)
  moreover have "n_id (new_node ''st1'' ''import'') = ''st1''" by (simp add: new_node_def)
  ultimately show ?thesis using remove_forgets_throttles [of ?tm "''st1''" task1 "new_node ''st1'' ''import''" 7] by simp
qed

text \<open>
  The bookkeeping can still grow: progress reported for a node of a task that has been
  removed creates a throttle entry again, and no removal of any other task drops it.
\<close>

theorem late_progress_leaks_throttle:
  assumes "orphan j tm" "j \<notin> set ks"
  shows "map_of (tm_throttles (fold remove_task ks (fst (sendUpdate j None (Some v) now tm)))) j \<noteq> None"
proof -
  let ?tm = "fst (sendUpdate j None (Some v) now tm)"
  have "orphan j ?tm" using assms(1) by (simp add: orphan_def sendUpdate_def Let_def split: prod.splits)
  from fold_remove_keeps_orphan [OF this assms(2)] show ?thesis
    by (simp add: sendUpdate_def Let_def split: prod.splits)
qed

theorem late_progress_leaks_throttle_witness:
  "map_of (tm_throttles (fold remove_task [''st1''] (fst (sendUpdate ''st2'' None (Some (3, 4)) 0 (remove_task ''st2'' tm1))))) ''st2'' \<noteq> None"
proof -
  have "orphan ''st2'' (remove_task ''st2'' tm1)"
    by (simp add: orphan_def remove_task_def tm1_def task1_def Let_def)
  then show ?thesis
    using late_progress_leaks_throttle [of "''st2''" "remove_task ''st2'' tm1" "[''st1'']" "(3, 4)" 0] by simp
qed

end
