(* ===== verification/Aprot_Reconnect.thy ===== *)
theory Aprot_Reconnect
  imports Aprot_Server
begin

text \<open>
  The Go client's connection policy (\<open>client/client.go\<close>): the reconnect schedule (\<open>backoff\<close>,
  \<open>applyConfig\<close>), the supervising loop \<open>run\<close>, and the hand-over of authentication verdicts between
  the read loop and the callers of \<open>authenticate\<close>. Durations are 64-bit words in nanoseconds.
\<close>

section \<open>The reconnect schedule\<close>

record rejected_retry =
  rr_delay :: i64
  rr_maxAttempts :: int

record reconnect_options =
  ro_interval :: i64
  ro_maxInterval :: i64
  ro_maxAttempts :: int
  ro_noReconnect :: bool
  ro_onRejected :: "rejected_retry option"

record backoff =
  bo_interval :: i64
  bo_maxInterval :: i64
  bo_maxAttempts :: int
  fixedInterval :: bool
  fixedMaxInterval :: bool
  fixedMaxAttempts :: bool

definition defaultReconnectInterval :: i64 where "defaultReconnectInterval = 1000000000"
definition defaultReconnectMaxInterval :: i64 where "defaultReconnectMaxInterval = 10000000000"
definition defaultRejectedRetryDelay :: i64 where "defaultRejectedRetryDelay = 2000000000"

text \<open>The multiplication of durations wraps around.\<close>

definition bo_delay :: "backoff \<Rightarrow> int \<Rightarrow> i64" where
  "bo_delay b attempt =
     (let d = bo_interval b * word_of_int attempt
      in if sint d > sint (bo_maxInterval b) \<or> sint d \<le> 0 then bo_maxInterval b else d)"

text \<open>The schedule \<open>start\<close> begins with.\<close>

definition start_backoff :: "reconnect_options \<Rightarrow> backoff" where
  "start_backoff opts =
     \<lparr>bo_interval = (if sint (ro_interval opts) \<le> 0 then defaultReconnectInterval else ro_interval opts),
      bo_maxInterval = (if sint (ro_maxInterval opts) \<le> 0 then defaultReconnectMaxInterval else ro_maxInterval opts),
      bo_maxAttempts = max (ro_maxAttempts opts) 0,
      fixedInterval = (sint (ro_interval opts) > 0),
      fixedMaxInterval = (sint (ro_maxInterval opts) > 0),
      fixedMaxAttempts = (ro_maxAttempts opts \<noteq> 0)\<rparr>"

text \<open>\<open>time.Duration(n) * time.Millisecond\<close>.\<close>

definition ms :: "int \<Rightarrow> i64" where
  "ms n = word_of_int n * 1000000"

definition applyConfig :: "config_message \<Rightarrow> backoff \<Rightarrow> backoff" where
  "applyConfig f b =
     (let b1 = (if cfg_reconnectInterval f > 0 \<and> \<not> fixedInterval b
                then b\<lparr>bo_interval := ms (cfg_reconnectInterval f)\<rparr> else b);
          b2 = (if cfg_reconnectMaxInterval f > 0 \<and> \<not> fixedMaxInterval b1
                then b1\<lparr>bo_maxInterval := ms (cfg_reconnectMaxInterval f)\<rparr> else b1)
      in if cfg_reconnectMaxAttempts f > 0 \<and> \<not> fixedMaxAttempts b2
         then b2\<lparr>bo_maxAttempts := cfg_reconnectMaxAttempts f\<rparr> else b2)"

section \<open>The supervising loop\<close>

text \<open>
  An attempt to connect succeeds, is rejected by the server, or fails. \<open>Waiting\<close> is a loop that was
  cancelled or has seen no further outcome.
\<close>

datatype 'e connect_outcome = Connect_OK | Connect_Rejected 'e | Connect_Failed 'e

datatype 'e reconnect_end =
    Shutdown_Rejected 'e
  | Gave_Up int "'e option"
  | Lost 'e
  | Reconnected int
  | Waiting

text \<open>
  The head of the inner loop of \<open>run\<close>: from the attempts, the rejections, the pending rejection and
  the last error it ends the client, or yields the delay before the next attempt.
\<close>

definition next_delay ::
  "reconnect_options \<Rightarrow> backoff \<Rightarrow> int \<Rightarrow> int \<Rightarrow> 'e option \<Rightarrow> 'e option \<Rightarrow> 'e reconnect_end + i64 \<times> int \<times> int" where
  "next_delay opts b attempt rejections rejected err =
     (case rejected of
        Some r \<Rightarrow>
          (case ro_onRejected opts of
             None \<Rightarrow> Inl (Shutdown_Rejected r)
           | Some retry \<Rightarrow>
               if rr_maxAttempts retry > 0 \<and> rejections \<ge> rr_maxAttempts retry then Inl (Shutdown_Rejected r)
               else Inr (if sint (rr_delay retry) \<le> 0 then defaultRejectedRetryDelay else rr_delay retry,
                         attempt, rejections + 1))
      | None \<Rightarrow>
          if bo_maxAttempts b > 0 \<and> attempt + 1 > bo_maxAttempts b then Inl (Gave_Up (bo_maxAttempts b) err)
          else Inr (bo_delay b (attempt + 1), attempt + 1, 0))"

text \<open>
  The inner loop over the outcomes of its attempts, each with the schedule in force then (a config
  frame may change it); it also lists the delays it waits.
\<close>

fun reconnect ::
  "reconnect_options \<Rightarrow> (backoff \<times> 'e connect_outcome) list \<Rightarrow> int \<Rightarrow> int \<Rightarrow> 'e option \<Rightarrow> 'e option \<Rightarrow>
     'e reconnect_end \<times> i64 list" where
  "reconnect opts [] attempt rejections rejected err = (Waiting, [])"
| "reconnect opts ((b, r) # rs) attempt rejections rejected err =
     (case next_delay opts b attempt rejections rejected err of
        Inl e \<Rightarrow> (e, [])
      | Inr (d, attempt', rejections') \<Rightarrow>
          (case r of
             Connect_OK \<Rightarrow> (Reconnected rejections', [d])
           | Connect_Rejected e \<Rightarrow> apsnd ((#) d) (reconnect opts rs 0 rejections' (Some e) (Some e))
           | Connect_Failed e \<Rightarrow> apsnd ((#) d) (reconnect opts rs attempt' rejections' None (Some e))))"

text \<open>One turn of \<open>run\<close>, after the current connection dropped.\<close>

definition run_drop ::
  "reconnect_options \<Rightarrow> int \<Rightarrow> 'e option \<Rightarrow> 'e \<Rightarrow> (backoff \<times> 'e connect_outcome) list \<Rightarrow>
     'e reconnect_end \<times> i64 list" where
  "run_drop opts rejections dropRejection dropErr rs =
     (if ro_noReconnect opts
      then (case dropRejection of Some r \<Rightarrow> Shutdown_Rejected r | None \<Rightarrow> Lost dropErr, [])
      else reconnect opts rs 0 (if dropRejection = None then 0 else rejections) dropRejection None)"

section \<open>Authentication verdicts\<close>

text \<open>
  The counters of \<open>connWatch\<close> and \<open>Client.authWait\<close> for one connection. \<open>outstanding\<close> lists the
  callers whose auth frame has no verdict yet, in the order of the frames; \<open>verdicts\<close> what the read
  loop handed to which caller; \<open>caller\<close> is the holder of \<open>authMu\<close>.
\<close>

record auth =
  authSent :: int
  authAbandoned :: int
  authWait :: "nat option"
  caller :: "nat option"
  outstanding :: "nat list"
  verdicts :: "(nat \<times> bool) list"
  next_caller :: nat

definition new_watch :: auth where
  "new_watch = \<lparr>authSent = 0, authAbandoned = 0, authWait = None, caller = None, outstanding = [],
     verdicts = [], next_caller = 0\<rparr>"

text \<open>\<open>authenticate\<close> up to its wait; \<open>fails\<close> tells whether the frame could not be written.\<close>

definition auth_begin :: "bool \<Rightarrow> auth \<Rightarrow> auth" where
  "auth_begin fails a =
     (let k = next_caller a; a1 = a\<lparr>next_caller := Suc k, authWait := Some k, authSent := authSent a + 1\<rparr>
      in if fails then a1\<lparr>authSent := authSent a1 - 1, authWait := None\<rparr>
         else a1\<lparr>caller := Some k, outstanding := outstanding a1 @ [k]\<rparr>)"

text \<open>The caller's context ends: it gives up, unless the verdict was already taken for it.\<close>

definition auth_give_up :: "auth \<Rightarrow> auth" where
  "auth_give_up a =
     (if caller a \<noteq> None \<and> authWait a = caller a
      then a\<lparr>authWait := None, authAbandoned := authAbandoned a + 1, caller := None\<rparr> else a)"

text \<open>The caller receives the verdict handed to it and returns.\<close>

definition auth_return :: "auth \<Rightarrow> auth" where
  "auth_return a = (if authWait a = None then a\<lparr>caller := None\<rparr> else a)"

text \<open>
  The cases \<open>auth_ok\<close> and \<open>auth_error\<close> of \<open>handleFrame\<close>; the second component tells whether the
  client shuts down because the server requires a token and the client has none.
\<close>

definition auth_frame :: "bool \<Rightarrow> bool \<Rightarrow> bool \<Rightarrow> auth \<Rightarrow> auth \<times> bool" where
  "auth_frame hasToken isOK timeout a =
     (if timeout \<and> hasToken then (a, False)
      else if authSent a - 1 < 0 then (a\<lparr>authSent := 0\<rparr>, \<not> isOK \<and> \<not> hasToken)
      else
        let a1 = a\<lparr>authSent := authSent a - 1\<rparr>
        in if authAbandoned a1 > 0 then (a1\<lparr>authAbandoned := authAbandoned a1 - 1\<rparr>, False)
           else case authWait a1 of
                  None \<Rightarrow> (a1, False)
                | Some k \<Rightarrow> (a1\<lparr>authWait := None, verdicts := verdicts a1 @ [(k, isOK)]\<rparr>, False))"

text \<open>
  The server answers the auth frames of a connection in order: a verdict is for the oldest
  outstanding frame.
\<close>

inductive auth_step :: "auth \<Rightarrow> auth \<Rightarrow> bool" where
  as_begin: "caller a = None \<Longrightarrow> auth_step a (auth_begin fails a)"
| as_verdict: "outstanding a = k # ks \<Longrightarrow>
    auth_step a ((fst (auth_frame hasToken isOK False a))\<lparr>outstanding := ks\<rparr>)"
| as_timeout: "auth_step a (fst (auth_frame True False True a))"
| as_give_up: "auth_step a (auth_give_up a)"
| as_return: "auth_step a (auth_return a)"

definition auth_inv :: "auth \<Rightarrow> bool" where
  "auth_inv a \<longleftrightarrow> distinct (outstanding a) \<and> (\<forall>k\<in>set (outstanding a). k < next_caller a) \<and>
     authAbandoned a \<ge> 0 \<and> authSent a = int (length (outstanding a)) \<and>
     (case authWait a of
        None \<Rightarrow> int (length (outstanding a)) = authAbandoned a
      | Some k \<Rightarrow> caller a = Some k \<and> (\<exists>xs. outstanding a = xs @ [k] \<and> int (length xs) = authAbandoned a))"

lemma auth_inv_step: "auth_step a b \<Longrightarrow> auth_inv a \<Longrightarrow> auth_inv b"
proof (induction rule: auth_step.induct)
  case (as_begin a fails)
  then have "authWait a = None" by (auto simp: auth_inv_def split: option.splits)
  with as_begin show ?case by (auto simp: auth_inv_def auth_begin_def Let_def)
next
  case (as_verdict a k ks hasToken isOK)
  show ?case
  proof (cases "authAbandoned a > 0")
    case True
    then have "ks \<noteq> [] \<or> authWait a = None" using as_verdict by (auto simp: auth_inv_def split: option.splits)
    then show ?thesis using as_verdict True
      by (auto simp: auth_inv_def auth_frame_def Let_def Cons_eq_append_conv split: option.splits)
  next
    case False
    then show ?thesis using as_verdict
      by (auto simp: auth_inv_def auth_frame_def Let_def Cons_eq_append_conv split: option.splits)
  qed
next
  case (as_timeout a)
  then show ?case by (simp add: auth_frame_def)
next
  case (as_give_up a)
  then show ?case by (auto simp: auth_inv_def auth_give_up_def split: option.splits)
next
  case (as_return a)
  then show ?case by (auto simp: auth_inv_def auth_return_def split: option.splits)
qed

interpretation auth_ts: trans_sys "\<lambda>a. a = new_watch" auth_step auth_inv
proof
  show "auth_inv a" if "a = new_watch" for a using that by (simp add: auth_inv_def new_watch_def)
qed (rule auth_inv_step)

section \<open>Properties\<close>

lemma bo_delay_cases: "bo_delay b n = bo_maxInterval b \<or>
    0 < sint (bo_delay b n) \<and> sint (bo_delay b n) \<le> sint (bo_maxInterval b)"
  by (auto simp: bo_delay_def Let_def)

lemma bo_delay_exact:
  assumes "0 < sint (bo_interval b)" "0 < n" "sint (bo_interval b) * n < 2 ^ 63"
  shows "sint (bo_delay b n) = min (sint (bo_interval b) * n) (sint (bo_maxInterval b))"
proof -
  let ?k = "sint (bo_interval b) * n"
  have pos: "0 < ?k" using assms(1,2) by simp
  have prod: "bo_interval b * word_of_int n = word_of_int ?k" by simp
  have "sint (word_of_int ?k :: i64) = ?k" by (rule sint_of_range) (use pos assms(3) in linarith)+
  then have "sint (bo_interval b * word_of_int n) = ?k" unfolding prod .
  then show ?thesis using pos unfolding bo_delay_def Let_def by (simp only: if_distrib) (auto simp: min_def)
qed

lemma ms_exact: "0 \<le> n \<Longrightarrow> n * 1000000 < 2 ^ 63 \<Longrightarrow> sint (ms n) = n * 1000000"
proof -
  assume n: "0 \<le> n" "n * 1000000 < 2 ^ 63"
  have "ms n = word_of_int (n * 1000000)" by (simp add: ms_def)
  moreover have "sint (word_of_int (n * 1000000) :: i64) = n * 1000000"
    by (rule sint_of_range) (use n in linarith)+
  ultimately show ?thesis by (simp only:)
qed

text \<open>
  Every delay of the reconnect schedule lies between one nanosecond and the maximum, for every
  attempt number and also when the multiplication overflows, and it is the attempt number times the
  interval, capped, as long as that product fits; the options of the program win over the
  server's, and what is left unset is the server's setting or the default.
\<close>

theorem backoff_delays:
  assumes "0 \<le> cfg_reconnectMaxInterval f" "cfg_reconnectMaxInterval f * 1000000 < 2 ^ 63"
    and "b = applyConfig f (start_backoff opts)"
  shows "0 < sint (bo_delay b n) \<and> sint (bo_delay b n) \<le> sint (bo_maxInterval b) \<and>
    (0 < sint (bo_interval b) \<and> 0 < n \<and> sint (bo_interval b) * n < 2 ^ 63 \<longrightarrow>
       sint (bo_delay b n) = min (sint (bo_interval b) * n) (sint (bo_maxInterval b))) \<and>
    (0 < sint (ro_maxInterval opts) \<longrightarrow> bo_maxInterval b = ro_maxInterval opts) \<and>
    (0 < ro_maxAttempts opts \<longrightarrow> bo_maxAttempts b = ro_maxAttempts opts) \<and>
    (ro_maxAttempts opts < 0 \<longrightarrow> bo_maxAttempts b = 0)"
proof -
  have "0 < sint (bo_maxInterval b)"
    using assms(1,2) unfolding assms(3)
    by (auto simp: applyConfig_def start_backoff_def Let_def ms_exact defaultReconnectMaxInterval_def)
  moreover have "0 < sint (ro_maxInterval opts) \<longrightarrow> bo_maxInterval b = ro_maxInterval opts"
    "0 < ro_maxAttempts opts \<longrightarrow> bo_maxAttempts b = ro_maxAttempts opts"
    "ro_maxAttempts opts < 0 \<longrightarrow> bo_maxAttempts b = 0"
    unfolding assms(3) by (simp_all add: applyConfig_def start_backoff_def Let_def)
  ultimately show ?thesis using bo_delay_cases [of b n] bo_delay_exact [of b n] by auto
qed

definition backoff1 :: backoff where
  "backoff1 = start_backoff \<lparr>ro_interval = 0, ro_maxInterval = 3000000000, ro_maxAttempts = 2, ro_noReconnect = False, ro_onRejected = None\<rparr>"

lemma nth_Cons_int:
  "a < n \<Longrightarrow> (e # es) ! nat (n - a - 1) = (if a + 1 = n then e else es ! nat (n - (a + 1) - 1))" for a n :: int
proof (cases "a + 1 = n")
  case False
  assume "a < n"
  with False have "nat (n - a - 1) = Suc (nat (n - (a + 1) - 1))" by linarith
  with False show ?thesis by simp
qed auto

lemma failures_give_up:
  assumes "bo_maxAttempts b = n" "0 < n" "a \<le> n" "int (length es) > n - a"
  shows "reconnect opts (map (\<lambda>e. (b, Connect_Failed e)) es) a r None err =
    (Gave_Up n (if a = n then err else Some (es ! nat (n - a - 1))), map (bo_delay b) [a + 1..n])"
  using assms(3,4)
proof (induction es arbitrary: a r err)
  case (Cons e es)
  show ?case
  proof (cases "a = n")
    case True
    then show ?thesis using assms(1,2) by (simp add: next_delay_def)
  next
    case False
    then have lt: "a < n" using Cons.prems by simp
    have "reconnect opts (map (\<lambda>e. (b, Connect_Failed e)) es) (a + 1) 0 None (Some e) =
        (Gave_Up n (if a + 1 = n then Some e else Some (es ! nat (n - (a + 1) - 1))), map (bo_delay b) [a + 1 + 1..n])"
      using Cons lt by (intro Cons.IH) simp_all
    moreover have "(e # es) ! nat (n - a - 1) = (if a + 1 = n then e else es ! nat (n - (a + 1) - 1))"
      using lt by (rule nth_Cons_int)
    moreover have "[a + 1..n] = (a + 1) # [a + 1 + 1..n]" using lt by (subst upto.simps) simp
    ultimately show ?thesis using lt assms(1,2) False by (simp add: next_delay_def)
  qed
qed simp

lemma failures_unlimited:
  assumes "bo_maxAttempts b \<le> 0"
  shows "reconnect opts (map (\<lambda>e. (b, Connect_Failed e)) es) a r None err =
    (Waiting, map (bo_delay b) [a + 1..a + int (length es)])"
proof (induction es arbitrary: a r err)
  case (Cons e es)
  have "[a + 1..a + int (length (e # es))] = (a + 1) # [a + 1 + 1..a + 1 + int (length es)]"
    by (subst upto.simps) (simp add: algebra_simps)
  then show ?case using assms Cons by (simp add: next_delay_def)
qed simp

lemma rejections_give_up:
  assumes "ro_onRejected opts = Some retry" "rr_maxAttempts retry = m" "0 < m" "r \<le> m" "int (length es) > m - r"
  shows "reconnect opts (map (\<lambda>e. (b, Connect_Rejected e)) es) a r (Some e0) err =
    (Shutdown_Rejected (if r = m then e0 else es ! nat (m - r - 1)),
     replicate (nat (m - r)) (if sint (rr_delay retry) \<le> 0 then defaultRejectedRetryDelay else rr_delay retry))"
  using assms(4,5)
proof (induction es arbitrary: a r err e0)
  case (Cons e es)
  show ?case
  proof (cases "r = m")
    case True
    then show ?thesis using assms(1-3) by (simp add: next_delay_def)
  next
    case False
    then have lt: "r < m" using Cons.prems by simp
    let ?d = "if sint (rr_delay retry) \<le> 0 then defaultRejectedRetryDelay else rr_delay retry"
    have "reconnect opts (map (\<lambda>e. (b, Connect_Rejected e)) es) 0 (r + 1) (Some e) (Some e) =
        (Shutdown_Rejected (if r + 1 = m then e else es ! nat (m - (r + 1) - 1)), replicate (nat (m - (r + 1))) ?d)"
      using Cons lt by (intro Cons.IH) simp_all
    moreover have "(e # es) ! nat (m - r - 1) = (if r + 1 = m then e else es ! nat (m - (r + 1) - 1))"
      using lt by (rule nth_Cons_int)
    moreover have "nat (m - r) = Suc (nat (m - (r + 1)))" using lt by simp
    ultimately show ?thesis using lt assms(1-3) False by (simp add: next_delay_def)
  qed
qed simp

text \<open>
  How long the client tries to reconnect: after exactly \<open>maxAttempts\<close> consecutive failures, spaced by
  the schedule, it gives up with the last error; without a limit it never gives up. A rejection
  ends the client at once unless it is configured to retry, and then exactly after the configured
  number of consecutive rejections, at the fixed delay, with the last rejection.
\<close>

theorem reconnect_policy:
  assumes "\<not> ro_noReconnect opts"
  shows "(0 < bo_maxAttempts b \<and> int (length es) > bo_maxAttempts b \<longrightarrow>
      run_drop opts k None d (map (\<lambda>e. (b, Connect_Failed e)) es) =
        (Gave_Up (bo_maxAttempts b) (Some (es ! nat (bo_maxAttempts b - 1))), map (bo_delay b) [1..bo_maxAttempts b])) \<and>
    (bo_maxAttempts b \<le> 0 \<longrightarrow>
      run_drop opts k None d (map (\<lambda>e. (b, Connect_Failed e)) es) = (Waiting, map (bo_delay b) [1..int (length es)])) \<and>
    (ro_onRejected opts = None \<and> rs \<noteq> [] \<longrightarrow> run_drop opts k (Some e0) d rs = (Shutdown_Rejected e0, [])) \<and>
    (ro_onRejected opts = Some retry \<and> 0 < rr_maxAttempts retry \<and> int (length es) > rr_maxAttempts retry \<longrightarrow>
      run_drop opts 0 (Some e0) d (map (\<lambda>e. (b, Connect_Rejected e)) es) =
        (Shutdown_Rejected (es ! nat (rr_maxAttempts retry - 1)),
         replicate (nat (rr_maxAttempts retry)) (if sint (rr_delay retry) \<le> 0 then defaultRejectedRetryDelay else rr_delay retry)))"
proof (intro conjI impI)
  assume h: "0 < bo_maxAttempts b \<and> int (length es) > bo_maxAttempts b"
  show "run_drop opts k None d (map (\<lambda>e. (b, Connect_Failed e)) es) =
        (Gave_Up (bo_maxAttempts b) (Some (es ! nat (bo_maxAttempts b - 1))), map (bo_delay b) [1..bo_maxAttempts b])"
    using failures_give_up [OF refl, of b 0 es opts 0 None] h assms by (simp add: run_drop_def)
next
  assume "bo_maxAttempts b \<le> 0"
  from failures_unlimited [OF this, of opts es 0 0 None] assms
  show "run_drop opts k None d (map (\<lambda>e. (b, Connect_Failed e)) es) = (Waiting, map (bo_delay b) [1..int (length es)])"
    by (simp add: run_drop_def)
next
  assume "ro_onRejected opts = None \<and> rs \<noteq> []"
  then show "run_drop opts k (Some e0) d rs = (Shutdown_Rejected e0, [])"
    using assms by (cases rs) (auto simp: run_drop_def next_delay_def)
next
  assume h: "ro_onRejected opts = Some retry \<and> 0 < rr_maxAttempts retry \<and> int (length es) > rr_maxAttempts retry"
  then show "run_drop opts 0 (Some e0) d (map (\<lambda>e. (b, Connect_Rejected e)) es) =
        (Shutdown_Rejected (es ! nat (rr_maxAttempts retry - 1)),
         replicate (nat (rr_maxAttempts retry)) (if sint (rr_delay retry) \<le> 0 then defaultRejectedRetryDelay else rr_delay retry))"
    using rejections_give_up [of opts retry "rr_maxAttempts retry" 0 es b 0 e0 None] assms by (simp add: run_drop_def)
qed

theorem reconnect_policy_witness:
  "run_drop \<lparr>ro_interval = 0, ro_maxInterval = 3000000000, ro_maxAttempts = 2, ro_noReconnect = False, ro_onRejected = None\<rparr>
     0 None ''eof'' (map (\<lambda>e. (backoff1, Connect_Failed e)) [''a'', ''b'', ''c'']) =
   (Gave_Up 2 (Some ''b''), [1000000000, 2000000000])"
proof -
  let ?o = "\<lparr>ro_interval = 0, ro_maxInterval = 3000000000, ro_maxAttempts = 2, ro_noReconnect = False, ro_onRejected = None\<rparr>"
  have n: "bo_maxAttempts backoff1 = 2" by (simp add: backoff1_def start_backoff_def)
  have "map (bo_delay backoff1) [1..2] = [1000000000, 2000000000]" by code_simp
  then show ?thesis
    using reconnect_policy [of ?o backoff1 "[''a'', ''b'', ''c'']" 0 "''eof''"] by (simp add: n)
qed

theorem backoff_delays_witness:
  "0 < sint (bo_delay (applyConfig \<lparr>cfg_reconnectInterval = 500, cfg_reconnectMaxInterval = 30000, cfg_reconnectMaxAttempts = 0,
      cfg_binaryFrames = True, cfg_maxMessageSize = 0\<rparr>
    (start_backoff \<lparr>ro_interval = 0, ro_maxInterval = 0, ro_maxAttempts = 0, ro_noReconnect = False, ro_onRejected = None\<rparr>)) 7)"
  using backoff_delays [of "\<lparr>cfg_reconnectInterval = 500, cfg_reconnectMaxInterval = 30000, cfg_reconnectMaxAttempts = 0,
      cfg_binaryFrames = True, cfg_maxMessageSize = 0\<rparr>", OF _ _ refl] by simp

text \<open>
  A verdict reaches the caller it is for: when the server answers the auth frames of a connection in
  order, a verdict is handed over exactly if the caller of that frame still waits for it, and then
  to that caller; the verdict of a caller that gave up is dropped and never reaches a later one. A
  verdict nobody asked for stops the client exactly if it is an error and there is no token.
\<close>

theorem auth_verdict_in_order:
  assumes "auth_step\<^sup>*\<^sup>* new_watch a"
  shows "case outstanding a of
      k # ks \<Rightarrow> snd (auth_frame hasToken isOK False a) = False \<and>
        verdicts (fst (auth_frame hasToken isOK False a)) =
          verdicts a @ (if authWait a = Some k then [(k, isOK)] else [])
    | [] \<Rightarrow> auth_frame hasToken isOK False a = (a\<lparr>authSent := 0\<rparr>, \<not> isOK \<and> \<not> hasToken)"
proof -
  have inv: "auth_inv a" by (rule auth_ts.inv_reachable [OF refl assms])
  show ?thesis
  proof (cases "outstanding a")
    case Nil
    then show ?thesis using inv by (simp add: auth_inv_def auth_frame_def)
  next
    case (Cons k ks)
    show ?thesis
    proof (cases "authAbandoned a > 0")
      case True
      then have "authWait a \<noteq> Some k" using inv Cons by (auto simp: auth_inv_def Cons_eq_append_conv)
      then show ?thesis using inv Cons True by (simp add: auth_inv_def auth_frame_def Let_def)
    next
      case False
      then show ?thesis using inv Cons
        by (auto simp: auth_inv_def auth_frame_def Let_def Cons_eq_append_conv split: option.splits)
    qed
  qed
qed

theorem auth_verdict_in_order_witness:
  "verdicts (fst (auth_frame True True False (auth_begin False (auth_give_up (auth_begin False new_watch))))) = []"
proof -
  let ?a = "auth_begin False new_watch"
  let ?b = "auth_give_up ?a"
  let ?c = "auth_begin False ?b"
  have "auth_step new_watch ?a" by (rule as_begin) (simp add: new_watch_def)
  moreover have "auth_step ?a ?b" by (rule as_give_up)
  moreover have "auth_step ?b ?c" by (rule as_begin) (simp add: auth_give_up_def auth_begin_def new_watch_def)
  ultimately have "auth_step\<^sup>*\<^sup>* new_watch ?c" by (meson converse_rtranclp_into_rtranclp rtranclp.rtrancl_refl)
  from auth_verdict_in_order [OF this, of True True] show ?thesis
    by (simp add: auth_begin_def auth_give_up_def new_watch_def)
qed

end
