(* ===== verification/Aprot_Client.thy ===== *)
theory Aprot_Client
  imports Aprot_Reconnect
begin

text \<open>
  The tables of the Go client (\<open>client/client.go\<close>, \<open>call.go\<close>, \<open>stream.go\<close>, \<open>subscription.go\<close>,
  \<open>push.go\<close>): pending calls, running streams, subscriptions with their slots, push handlers, and the
  routing of every frame the server sends to them.

  Each section of the code under a lock is one operation. Where a goroutine releases the lock and
  goes on later, what it still has to do is part of the state (\<open>cl_todo\<close> and the lists after it), so
  that any interleaving of the goroutines is a sequence of operations. A subscription, a stream and
  a call are identified by their request ID, which is never reused; the counter is taken to be
  unbounded.
\<close>

section \<open>State\<close>

datatype 'v cl_error =
    EClosed
  | EConnectionLost string
  | EMessageTooLarge
  | EApi int string "'v option"
  | ECtx
  | EOther string

datatype 'v delivery = Raw "'v payload" | Bin blob

datatype 'v call_result = CResult "'v delivery" | CError "'v cl_error"

datatype 'v out_frame =
    OutRequest string string "'v list"
  | OutSubscribe string string "'v list" bool
  | OutUnsubscribe string
  | OutCancel string
  | OutAuth string

datatype cl_state = StateConnecting | StateConnected | StateClosed

text \<open>\<open>rawStream\<close>: the buffer between the read loop and the consumer of a stream.\<close>

record 'v rawStream =
  rs_items :: "'v list"
  serverDone :: bool
  stopped :: bool
  rs_err :: "'v cl_error option"

text \<open>
  A subscription. \<open>su_chan\<close> is the channel \<open>C\<close> with its buffer of one, \<open>su_cur\<close> the latest result
  that a patch may be applied to (\<open>None\<close> when \<open>hasCur\<close> is false or the subscription is closed).
\<close>

record 'v subn =
  su_method :: string
  su_params :: "'v list"
  su_patch :: bool
  su_closed :: bool
  su_err :: "'v cl_error option"
  su_chan :: "'v option"
  su_cur :: "'v option"
  awaiting :: "nat option"
  resend :: bool

record 'v pushHandler =
  ph_queue :: "'v list"
  ph_running :: bool
  ph_removed :: bool

record 'v client =
  cl_state :: cl_state
  cl_changes :: "cl_state list"
  cl_conn :: "nat option"
  cl_closed :: bool
  cl_closeErr :: "'v cl_error option"
  cl_nextID :: nat
  cl_pending :: "(string, bool) gomap"
  cl_subs :: "string list"
  cl_sub :: "string \<Rightarrow> 'v subn"
  cl_streams :: "string list"
  cl_stream :: "string \<Rightarrow> 'v rawStream"
  cl_pushes :: "(string, nat) goindex"
  cl_handler :: "nat \<Rightarrow> 'v pushHandler"
  cl_auth :: auth
  subInFlight :: int
  subQueue :: "string list"
  cl_dropRejection :: "'v cl_error option"
  cl_todo :: "(nat \<times> string) list"
  cl_writing :: "(nat \<times> string) list"
  cl_answered :: "(nat \<times> string) list"
  cl_owed :: "nat list"
  cl_failing :: "(string \<times> 'v cl_error) list"
  cl_ending :: "string list"
  cl_wire :: "(nat \<times> 'v out_frame) list"
  cl_results :: "(string \<times> 'v call_result) list"
  cl_returned :: "(string \<times> 'v cl_error) list"
  cl_progress :: "(string \<times> int \<times> int \<times> string) list"

text \<open>
  What a program run is configured with: the options, the decoding of results and the patch
  function of each subscription, and the size check of the connection.
\<close>

record 'v client_env =
  ce_hasToken :: bool
  ce_retryRejected :: bool
  ce_noReconnect :: bool
  ce_decode :: "string \<Rightarrow> 'v delivery \<Rightarrow> string + 'v"
  ce_apply :: "string \<Rightarrow> 'v \<Rightarrow> 'v \<Rightarrow> string + 'v"
  ce_tooLarge :: "'v out_frame \<Rightarrow> bool"

section \<open>Streams\<close>

definition new_rawStream :: "'v rawStream" where
  "new_rawStream = \<lparr>rs_items = [], serverDone = False, stopped = False, rs_err = None\<rparr>"

definition rs_push :: "'v \<Rightarrow> 'v rawStream \<Rightarrow> 'v rawStream" where
  "rs_push item s = (if \<not> serverDone s \<and> \<not> stopped s then s\<lparr>rs_items := rs_items s @ [item]\<rparr> else s)"

definition rs_end :: "'v cl_error option \<Rightarrow> 'v rawStream \<Rightarrow> 'v rawStream" where
  "rs_end err s =
     (if serverDone s then s
      else s\<lparr>serverDone := True, rs_err := (if rs_err s = None then err else rs_err s)\<rparr>)"

text \<open>\<open>next\<close> when it does not block: \<open>None\<close> is the answer \<open>ok = false\<close>.\<close>

definition rs_ready :: "'v rawStream \<Rightarrow> bool" where
  "rs_ready s \<longleftrightarrow> rs_items s \<noteq> [] \<or> serverDone s \<or> stopped s"

definition rs_next :: "'v rawStream \<Rightarrow> 'v rawStream \<times> 'v option" where
  "rs_next s =
     (if stopped s \<or> rs_items s = [] then (s, None)
      else (s\<lparr>rs_items := tl (rs_items s)\<rparr>, Some (hd (rs_items s))))"

text \<open>\<open>stop\<close>; the second component tells whether a cancel goes to the server.\<close>

definition rs_stop :: "'v cl_error option \<Rightarrow> 'v rawStream \<Rightarrow> 'v rawStream \<times> bool" where
  "rs_stop err s =
     (if stopped s then (s, False)
      else (s\<lparr>stopped := True, rs_err := (if rs_err s = None then err else rs_err s), serverDone := True,
              rs_items := []\<rparr>, \<not> serverDone s))"

section \<open>Connection state\<close>

definition setState :: "cl_state \<Rightarrow> 'v client \<Rightarrow> 'v client" where
  "setState s cl =
     (if cl_state cl = s \<or> cl_state cl = StateClosed \<or> cl_closed cl then cl
      else cl\<lparr>cl_state := s, cl_changes := cl_changes cl @ [s]\<rparr>)"

definition upd_sub :: "string \<Rightarrow> ('v subn \<Rightarrow> 'v subn) \<Rightarrow> 'v client \<Rightarrow> 'v client" where
  "upd_sub i f cl = cl\<lparr>cl_sub := (cl_sub cl)(i := f (cl_sub cl i))\<rparr>"

definition upd_stream :: "string \<Rightarrow> ('v rawStream \<Rightarrow> 'v rawStream) \<Rightarrow> 'v client \<Rightarrow> 'v client" where
  "upd_stream i f cl = cl\<lparr>cl_stream := (cl_stream cl)(i := f (cl_stream cl i))\<rparr>"

text \<open>\<open>closeWith\<close>; the rest of \<open>end\<close> follows in \<open>sub_end\<close>.\<close>

definition sub_close :: "string \<Rightarrow> 'v cl_error option \<Rightarrow> 'v client \<Rightarrow> 'v client" where
  "sub_close i err cl =
     (if su_closed (cl_sub cl i) then cl
      else (upd_sub i (\<lambda>s. s\<lparr>su_closed := True, su_err := err, su_cur := None\<rparr>) cl)\<lparr>cl_ending := cl_ending cl @ [i]\<rparr>)"

definition shutdown :: "'v cl_error \<Rightarrow> 'v client \<Rightarrow> 'v client" where
  "shutdown err cl =
     (if cl_closed cl then cl
      else
        let cl1 = cl\<lparr>cl_closed := True, cl_closeErr := Some err, cl_conn := None, cl_pending := [], cl_streams := [],
              cl_subs := [], cl_results := cl_results cl @ map (\<lambda>(i, _). (i, CError err)) (cl_pending cl)\<rparr>;
            cl2 = fold (\<lambda>i. upd_stream i (rs_end (Some err))) (cl_streams cl) cl1;
            cl3 = fold (\<lambda>i. sub_close i (Some err)) (cl_subs cl) cl2
        in cl3\<lparr>cl_state := StateClosed, cl_changes := cl_changes cl3 @ [StateClosed]\<rparr>)"

definition connLost :: "'v subn \<Rightarrow> 'v subn" where
  "connLost s = s\<lparr>su_cur := None, awaiting := None, resend := False\<rparr>"

definition markConnected :: "nat \<Rightarrow> 'v client \<Rightarrow> 'v client \<times> bool" where
  "markConnected conn cl =
     (if cl_closed cl then (cl, False)
      else (setState StateConnected (cl\<lparr>cl_conn := Some conn, subInFlight := 0, subQueue := [],
              cl_todo := cl_todo cl @ map (Pair conn) (cl_subs cl)\<rparr>), True))"

definition markDisconnected :: "nat \<Rightarrow> string \<Rightarrow> 'v client \<Rightarrow> 'v client" where
  "markDisconnected conn cause cl =
     (if cl_conn cl \<noteq> Some conn then cl
      else
        let err = EConnectionLost cause;
            cl1 = cl\<lparr>cl_conn := None, subInFlight := 0, subQueue := [], cl_pending := [], cl_streams := [],
              cl_results := cl_results cl @ map (\<lambda>(i, _). (i, CError err)) (cl_pending cl)\<rparr>;
            cl2 = fold (\<lambda>i. upd_stream i (rs_end (Some err))) (cl_streams cl) cl1;
            cl3 = fold (\<lambda>i. upd_sub i connLost) (cl_subs cl) cl2
        in setState StateConnecting cl3)"

definition newID :: "'v client \<Rightarrow> string \<times> 'v client" where
  "newID cl = (nat_str (Suc (cl_nextID cl)), cl\<lparr>cl_nextID := Suc (cl_nextID cl)\<rparr>)"

definition write_out :: "nat \<Rightarrow> 'v out_frame \<Rightarrow> 'v client \<Rightarrow> 'v client" where
  "write_out conn f cl = cl\<lparr>cl_wire := cl_wire cl @ [(conn, f)]\<rparr>"

section \<open>Calls\<close>

definition takePending :: "string \<Rightarrow> 'v client \<Rightarrow> 'v client \<times> bool" where
  "takePending i cl =
     (case map_of (cl_pending cl) i of
        None \<Rightarrow> (cl, False)
      | Some _ \<Rightarrow> (cl\<lparr>cl_pending := AList.delete i (cl_pending cl)\<rparr>, True))"

text \<open>A turn of the loop of \<open>call\<close>: a new ID is registered if the connection is still current.\<close>

definition call_register :: "nat \<Rightarrow> bool \<Rightarrow> 'v client \<Rightarrow> 'v client \<times> string option" where
  "call_register conn progress cl =
     (case newID cl of (i, cl1) \<Rightarrow>
        if cl_conn cl1 \<noteq> Some conn then (cl1, None)
        else (cl1\<lparr>cl_pending := AList.update i progress (cl_pending cl1)\<rparr>, Some i))"

definition return_error :: "string \<Rightarrow> 'v cl_error \<Rightarrow> 'v client \<Rightarrow> 'v client" where
  "return_error i err cl = cl\<lparr>cl_returned := cl_returned cl @ [(i, err)]\<rparr>"

text \<open>
  The send of the request; \<open>fail\<close> is the error of a failed write. The caller returns the error of an
  oversized request even if the connection dropped meanwhile and the call was failed for it: what was
  sent to its channel is then never received.
\<close>

definition drop_result :: "string \<Rightarrow> 'v client \<Rightarrow> 'v client" where
  "drop_result i cl = cl\<lparr>cl_results := filter (\<lambda>(j, _). j \<noteq> i) (cl_results cl)\<rparr>"

definition call_send :: "'v client_env \<Rightarrow> nat \<Rightarrow> string \<Rightarrow> string \<Rightarrow> 'v list \<Rightarrow> string option \<Rightarrow> 'v client \<Rightarrow> 'v client" where
  "call_send e conn i method params fail cl =
     (if ce_tooLarge e (OutRequest i method params)
      then (case takePending i cl of
              (cl1, True) \<Rightarrow> return_error i EMessageTooLarge cl1
            | (cl1, False) \<Rightarrow>
                if i \<in> fst ` set (cl_results cl1) then return_error i EMessageTooLarge (drop_result i cl1) else cl1)
      else
        (case fail of
           None \<Rightarrow> write_out conn (OutRequest i method params) cl
         | Some err \<Rightarrow>
             (case takePending i cl of
                (cl1, True) \<Rightarrow> return_error i (EConnectionLost err) cl1
              | (cl1, False) \<Rightarrow> cl1)))"

definition call_cancel :: "nat \<Rightarrow> string \<Rightarrow> 'v client \<Rightarrow> 'v client" where
  "call_cancel conn i cl =
     (case takePending i cl of
        (cl1, True) \<Rightarrow> return_error i ECtx (write_out conn (OutCancel i) cl1)
      | (cl1, False) \<Rightarrow> cl1)"

definition send_result :: "string \<Rightarrow> 'v call_result \<Rightarrow> 'v client \<Rightarrow> 'v client" where
  "send_result i r cl = cl\<lparr>cl_results := cl_results cl @ [(i, r)]\<rparr>"

text \<open>The registration of \<open>startStream\<close>, and \<open>stop\<close> on the stream \<open>i\<close> of connection \<open>conn\<close>.\<close>

definition stream_register :: "nat \<Rightarrow> 'v client \<Rightarrow> 'v client \<times> string option" where
  "stream_register conn cl =
     (case newID cl of (i, cl1) \<Rightarrow>
        if cl_conn cl1 \<noteq> Some conn then (cl1, None)
        else ((upd_stream i (\<lambda>_. new_rawStream) cl1)\<lparr>cl_streams := i # cl_streams cl1\<rparr>, Some i))"

definition stream_send :: "'v client_env \<Rightarrow> nat \<Rightarrow> string \<Rightarrow> string \<Rightarrow> 'v list \<Rightarrow> string option \<Rightarrow> 'v client \<Rightarrow> 'v client" where
  "stream_send e conn i method params fail cl =
     (let f = OutRequest i method params;
          err = (if ce_tooLarge e f then Some EMessageTooLarge else map_option EConnectionLost fail)
      in case err of
           None \<Rightarrow> write_out conn f cl
         | Some x \<Rightarrow> upd_stream i (rs_end (Some x)) (cl\<lparr>cl_streams := removeAll i (cl_streams cl)\<rparr>))"

definition stream_stop :: "nat \<Rightarrow> string \<Rightarrow> 'v cl_error option \<Rightarrow> 'v client \<Rightarrow> 'v client" where
  "stream_stop conn i err cl =
     (case rs_stop err (cl_stream cl i) of (s, live) \<Rightarrow>
        let cl1 = upd_stream i (\<lambda>_. s) cl
        in if live then write_out conn (OutCancel i) (cl1\<lparr>cl_streams := removeAll i (cl_streams cl1)\<rparr>) else cl1)"

section \<open>Subscriptions\<close>

definition maxSubscribesInFlight :: int where
  "maxSubscribesInFlight = 64"

definition new_sub :: "string \<Rightarrow> 'v list \<Rightarrow> bool \<Rightarrow> 'v subn" where
  "new_sub method params patch = \<lparr>su_method = method, su_params = params, su_patch = patch, su_closed = False, su_err = None,
     su_chan = None, su_cur = None, awaiting = None, resend = False\<rparr>"

text \<open>
  \<open>Subscribe\<close> with encodable parameters. On a closed client the subscription is closed at once and
  never enters the table.
\<close>

definition Subscribe :: "string \<Rightarrow> 'v list \<Rightarrow> bool \<Rightarrow> 'v client \<Rightarrow> 'v client \<times> string" where
  "Subscribe method params patch cl =
     (case newID cl of (i, cl1) \<Rightarrow>
        let cl2 = upd_sub i (\<lambda>_. new_sub method params patch) cl1
        in if cl_closed cl2
           then (upd_sub i (\<lambda>s. s\<lparr>su_closed := True, su_err := cl_closeErr cl2\<rparr>) cl2, i)
           else (cl2\<lparr>cl_subs := i # cl_subs cl2,
                     cl_todo := cl_todo cl2 @ (case cl_conn cl2 of None \<Rightarrow> [] | Some c \<Rightarrow> [(c, i)])\<rparr>, i))"

text \<open>
  \<open>sendSubscribe\<close> for the first caller waiting to do it: the slot is taken under the locks, the
  frame is written by \<open>writeSubscribe\<close> next, while \<open>subSendMu\<close> is still held (\<open>cl_writing\<close> not empty).
\<close>

definition sendSubscribe :: "nat \<Rightarrow> string \<Rightarrow> 'v client \<Rightarrow> 'v client" where
  "sendSubscribe conn i cl =
     (if i \<notin> set (cl_subs cl) \<or> cl_conn cl \<noteq> Some conn then cl
      else if subInFlight cl \<ge> maxSubscribesInFlight then cl\<lparr>subQueue := subQueue cl @ [i]\<rparr>
      else cl\<lparr>subInFlight := subInFlight cl + 1, cl_writing := [(conn, i)]\<rparr>)"

definition subscribe_frame :: "string \<Rightarrow> 'v subn \<Rightarrow> 'v out_frame" where
  "subscribe_frame i s = OutSubscribe i (su_method s) (su_params s) (su_patch s)"

definition writeSubscribe :: "'v client_env \<Rightarrow> nat \<Rightarrow> string \<Rightarrow> 'v client \<Rightarrow> 'v client" where
  "writeSubscribe e conn i cl =
     (let cl1 = upd_sub i (\<lambda>s. s\<lparr>awaiting := Some conn\<rparr>) cl; f = subscribe_frame i (cl_sub cl i)
      in if ce_tooLarge e f then cl1\<lparr>cl_failing := cl_failing cl1 @ [(i, EMessageTooLarge)]\<rparr>
         else write_out conn f cl1)"

text \<open>\<open>resubscribe\<close>, after a patch that could not be applied.\<close>

definition resubscribe :: "nat \<Rightarrow> string \<Rightarrow> 'v client \<Rightarrow> 'v client" where
  "resubscribe conn i cl =
     (if awaiting (cl_sub cl i) = Some conn then upd_sub i (\<lambda>s. s\<lparr>resend := True\<rparr>) cl
      else cl\<lparr>cl_todo := cl_todo cl @ [(conn, i)]\<rparr>)"

text \<open>\<open>takeAwaiting\<close>; the new owner of the slot is returned.\<close>

definition takeAwaiting :: "string \<Rightarrow> 'v client \<Rightarrow> 'v client \<times> nat option" where
  "takeAwaiting i cl = (upd_sub i (\<lambda>s. s\<lparr>awaiting := None\<rparr>) cl, awaiting (cl_sub cl i))"

definition answered :: "nat \<Rightarrow> string \<Rightarrow> 'v client \<Rightarrow> 'v client" where
  "answered conn i cl =
     (let cl1 = upd_sub i (\<lambda>s. s\<lparr>resend := False\<rparr>) cl
      in if resend (cl_sub cl i) \<and> i \<in> set (cl_subs cl) \<and> cl_conn cl = Some conn
         then cl1\<lparr>cl_writing := [(conn, i)]\<rparr>
         else cl1\<lparr>cl_owed := cl_owed cl1 @ [conn]\<rparr>)"

text \<open>The loop of \<open>releaseSubSlot\<close>: the new count, what stays queued, what is sent next.\<close>

fun fill_slots :: "string list \<Rightarrow> int \<Rightarrow> string list \<Rightarrow> int \<times> string list \<times> string list" where
  "fill_slots subs n [] = (n, [], [])"
| "fill_slots subs n (i # q) =
     (if n < maxSubscribesInFlight then
        (if i \<notin> set subs then fill_slots subs n q
         else case fill_slots subs (n + 1) q of (m, q', ns) \<Rightarrow> (m, q', i # ns))
      else (n, i # q, []))"

definition releaseSubSlot :: "nat \<Rightarrow> 'v client \<Rightarrow> 'v client" where
  "releaseSubSlot conn cl =
     (if cl_conn cl \<noteq> Some conn then cl
      else case fill_slots (cl_subs cl) (subInFlight cl - 1) (subQueue cl) of (m, q, ns) \<Rightarrow>
        cl\<lparr>subInFlight := m, subQueue := q, cl_writing := map (Pair conn) ns\<rparr>)"

text \<open>The second half of \<open>end\<close>, after \<open>closeWith\<close>.\<close>

definition sub_end :: "string \<Rightarrow> 'v client \<Rightarrow> 'v client" where
  "sub_end i cl =
     (let cl1 = cl\<lparr>cl_subs := removeAll i (cl_subs cl), subQueue := remove1 i (subQueue cl)\<rparr>;
          cl2 = (case cl_conn cl1 of None \<Rightarrow> cl1 | Some c \<Rightarrow> write_out c (OutUnsubscribe i) cl1)
      in case takeAwaiting i cl2 of
           (cl3, None) \<Rightarrow> cl3
         | (cl3, Some aw) \<Rightarrow> cl3\<lparr>cl_owed := cl_owed cl3 @ [aw]\<rparr>)"

definition publishLocked :: "'v \<Rightarrow> 'v subn \<Rightarrow> 'v subn" where
  "publishLocked v s =
     (if su_closed s then s else s\<lparr>su_cur := (if su_patch s then Some v else su_cur s), su_chan := Some v\<rparr>)"

definition sub_deliver :: "'v client_env \<Rightarrow> string \<Rightarrow> 'v delivery \<Rightarrow> 'v client \<Rightarrow> 'v client" where
  "sub_deliver e i d cl =
     (case ce_decode e i d of
        Inl err \<Rightarrow> sub_close i (Some (EOther err)) cl
      | Inr v \<Rightarrow> upd_sub i (publishLocked v) cl)"

text \<open>\<open>patch\<close>; the second component is its result.\<close>

definition sub_patch :: "'v client_env \<Rightarrow> string \<Rightarrow> 'v \<Rightarrow> 'v client \<Rightarrow> 'v client \<times> bool" where
  "sub_patch e i p cl =
     (let s = cl_sub cl i
      in if su_closed s then (cl, True)
         else case (su_patch s, su_cur s) of
                (True, Some cur) \<Rightarrow>
                  (case ce_apply e i cur p of
                     Inl err \<Rightarrow> (sub_close i (Some (EOther err)) cl, True)
                   | Inr v \<Rightarrow> (upd_sub i (publishLocked v) cl, True))
              | _ \<Rightarrow> (cl, False))"

section \<open>Push handlers\<close>

definition ph_enqueue :: "'v \<Rightarrow> 'v pushHandler \<Rightarrow> 'v pushHandler" where
  "ph_enqueue d h = (if ph_removed h then h else h\<lparr>ph_queue := ph_queue h @ [d], ph_running := True\<rparr>)"

text \<open>A turn of \<open>drain\<close>: the event handed to the callback, \<open>None\<close> when the goroutine ends.\<close>

definition ph_drain :: "'v pushHandler \<Rightarrow> 'v pushHandler \<times> 'v option" where
  "ph_drain h =
     (if ph_queue h = [] \<or> ph_removed h then (h\<lparr>ph_queue := [], ph_running := False\<rparr>, None)
      else (h\<lparr>ph_queue := tl (ph_queue h)\<rparr>, Some (hd (ph_queue h))))"

definition OnPush :: "string \<Rightarrow> nat \<Rightarrow> 'v client \<Rightarrow> 'v client" where
  "OnPush event h cl = cl\<lparr>cl_pushes := idx_add event h (cl_pushes cl),
     cl_handler := (cl_handler cl)(h := \<lparr>ph_queue = [], ph_running = False, ph_removed = False\<rparr>)\<rparr>"

definition OnPush_remove :: "string \<Rightarrow> nat \<Rightarrow> 'v client \<Rightarrow> 'v client" where
  "OnPush_remove event h cl = cl\<lparr>cl_pushes := idx_remove event h (cl_pushes cl),
     cl_handler := (cl_handler cl)(h := (cl_handler cl h)\<lparr>ph_removed := True, ph_queue := []\<rparr>)\<rparr>"

definition dispatchPush :: "string \<Rightarrow> 'v \<Rightarrow> 'v client \<Rightarrow> 'v client" where
  "dispatchPush event d cl =
     fold (\<lambda>h cl. cl\<lparr>cl_handler := (cl_handler cl)(h := ph_enqueue d (cl_handler cl h))\<rparr>)
       (idx_members (cl_pushes cl) event) cl"

section \<open>Routing\<close>

definition rejectStreamForCall :: "nat \<Rightarrow> string \<Rightarrow> 'v client \<Rightarrow> 'v client" where
  "rejectStreamForCall conn i cl =
     (case takePending i cl of
        (cl1, False) \<Rightarrow> cl1
      | (cl1, True) \<Rightarrow>
          send_result i (CError (EApi CodeInvalidRequest ''method is a streaming handler; use Stream or Stream2'' None))
            (write_out conn (OutCancel i) cl1))"

definition handleError :: "'v client_env \<Rightarrow> nat \<Rightarrow> string \<Rightarrow> int \<Rightarrow> string \<Rightarrow> 'v option \<Rightarrow> 'v client \<Rightarrow> 'v client" where
  "handleError e conn i code msg d cl =
     (let apiErr = EApi code msg d
      in if map_of (cl_pending cl) i \<noteq> None \<and> i \<noteq> []
         then send_result i (CError apiErr) (cl\<lparr>cl_pending := AList.delete i (cl_pending cl)\<rparr>)
         else if i \<in> set (cl_streams cl) \<and> i \<noteq> []
         then upd_stream i (rs_end (Some apiErr)) (cl\<lparr>cl_streams := removeAll i (cl_streams cl)\<rparr>)
         else if i \<in> set (cl_subs cl) \<and> i \<noteq> []
         then (case takeAwaiting i cl of
                 (cl1, Some aw) \<Rightarrow> sub_close i (Some apiErr) (cl1\<lparr>cl_owed := cl_owed cl1 @ [aw]\<rparr>)
               | (cl1, None) \<Rightarrow> cl1)
         else if code = CodeConnectionRejected
         then (if ce_retryRejected e \<and> \<not> ce_noReconnect e
               then (if cl_conn cl = Some conn then cl\<lparr>cl_dropRejection := Some apiErr\<rparr> else cl)
               else shutdown apiErr cl)
         else cl)"

definition deliverResult :: "'v client_env \<Rightarrow> string \<Rightarrow> 'v delivery \<Rightarrow> 'v client \<Rightarrow> 'v client" where
  "deliverResult e i d cl =
     (if map_of (cl_pending cl) i \<noteq> None
      then send_result i (CResult d) (cl\<lparr>cl_pending := AList.delete i (cl_pending cl)\<rparr>)
      else if i \<in> set (cl_streams cl)
      then upd_stream i (rs_end (Some (EApi CodeInvalidRequest ''method is not a streaming handler; use Call'' None)))
             (cl\<lparr>cl_streams := removeAll i (cl_streams cl)\<rparr>)
      else if i \<in> set (cl_subs cl)
      then (case takeAwaiting i (sub_deliver e i d cl) of
              (cl1, Some aw) \<Rightarrow> cl1\<lparr>cl_answered := cl_answered cl1 @ [(aw, i)]\<rparr>
            | (cl1, None) \<Rightarrow> cl1)
      else cl)"

text \<open>\<open>handleFrame\<close> and, for binary responses, \<open>handleBinary\<close>.\<close>

fun handleFrame :: "'v client_env \<Rightarrow> nat \<Rightarrow> 'v frame \<Rightarrow> 'v client \<Rightarrow> 'v client" where
  "handleFrame e conn (ResponseMessage i r) cl = deliverResult e i (Raw r) cl"
| "handleFrame e conn (BinaryResponse i b) cl = deliverResult e i (Bin b) cl"
| "handleFrame e conn (ErrorMessage i code msg d) cl = handleError e conn i code msg d cl"
| "handleFrame e conn AuthOK cl = cl\<lparr>cl_auth := fst (auth_frame (ce_hasToken e) True False (cl_auth cl))\<rparr>"
| "handleFrame e conn (AuthError msg timeout) cl =
     (case auth_frame (ce_hasToken e) False timeout (cl_auth cl) of (a, stop) \<Rightarrow>
        if stop
        then shutdown (EApi CodeAuthFailed (if msg = [] then ''authentication required'' else msg) None) (cl\<lparr>cl_auth := a\<rparr>)
        else cl\<lparr>cl_auth := a\<rparr>)"
| "handleFrame e conn (ProgressMessage i cur tot msg) cl =
     (case map_of (cl_pending cl) i of
        Some True \<Rightarrow> cl\<lparr>cl_progress := cl_progress cl @ [(i, cur, tot, msg)]\<rparr>
      | _ \<Rightarrow> cl)"
| "handleFrame e conn (PushMessage event d) cl = dispatchPush event d cl"
| "handleFrame e conn (SubscriptionPatchMessage i p) cl =
     (if i \<in> set (cl_subs cl)
      then (case sub_patch e i p cl of (cl1, True) \<Rightarrow> cl1 | (cl1, False) \<Rightarrow> resubscribe conn i cl1) else cl)"
| "handleFrame e conn (StreamItemMessage i v) cl =
     (if i \<in> set (cl_streams cl) then upd_stream i (rs_push v) cl else rejectStreamForCall conn i cl)"
| "handleFrame e conn (StreamChunkMessage i vs) cl =
     (if i \<in> set (cl_streams cl) then upd_stream i (fold rs_push vs) cl else rejectStreamForCall conn i cl)"
| "handleFrame e conn (StreamEndMessage i code msg d) cl =
     (if i \<in> set (cl_streams cl)
      then upd_stream i (rs_end (if code \<noteq> 0 then Some (EApi code msg d) else None))
             (cl\<lparr>cl_streams := removeAll i (cl_streams cl)\<rparr>)
      else rejectStreamForCall conn i cl)"
| "handleFrame e conn EmptyMessage cl = cl"

definition new_client :: "'v client" where
  "new_client = \<lparr>cl_state = StateConnecting, cl_changes = [], cl_conn = None, cl_closed = False, cl_closeErr = None,
     cl_nextID = 0, cl_pending = [], cl_subs = [], cl_sub = (\<lambda>_. new_sub [] [] False), cl_streams = [],
     cl_stream = (\<lambda>_. new_rawStream), cl_pushes = [],
     cl_handler = (\<lambda>_. \<lparr>ph_queue = [], ph_running = False, ph_removed = False\<rparr>), cl_auth = new_watch,
     subInFlight = 0, subQueue = [], cl_dropRejection = None, cl_todo = [], cl_writing = [], cl_answered = [],
     cl_owed = [], cl_failing = [], cl_ending = [], cl_wire = [], cl_results = [], cl_returned = [], cl_progress = []\<rparr>"

section \<open>Runs\<close>

definition written :: "nat \<Rightarrow> string \<Rightarrow> 'v client \<Rightarrow> bool" where
  "written c i cl \<longleftrightarrow> (\<exists>m p b. (c, OutSubscribe i m p b) \<in> set (cl_wire cl))"

definition waiting :: "nat \<Rightarrow> 'v client \<Rightarrow> string set" where
  "waiting c cl = {i. awaiting (cl_sub cl i) = Some c}"

text \<open>A connection that has just been dialled: nothing refers to it yet.\<close>

definition fresh_conn :: "nat \<Rightarrow> 'v client \<Rightarrow> bool" where
  "fresh_conn c cl \<longleftrightarrow> c \<notin> fst ` (set (cl_todo cl) \<union> set (cl_writing cl) \<union> set (cl_answered cl)) \<and>
     c \<notin> fst ` set (cl_wire cl) \<and> c \<notin> set (cl_owed cl) \<and> waiting c cl = {}"

text \<open>
  What the client relies on of the server: a patch is sent only for a subscription that asked for
  patches, on a connection it was subscribed on.
\<close>

fun server_ok :: "nat \<Rightarrow> 'v frame \<Rightarrow> 'v client \<Rightarrow> bool" where
  "server_ok c (SubscriptionPatchMessage i p) cl \<longleftrightarrow>
     (i \<in> set (cl_subs cl) \<longrightarrow> cl_conn cl = Some c \<and> written c i cl \<and> su_patch (cl_sub cl i))"
| "server_ok c f cl \<longleftrightarrow> True"

text \<open>
  The operations of all goroutines. \<open>cl_writing = []\<close> says that nobody holds \<open>subSendMu\<close>.
\<close>

inductive client_step :: "'v client_env \<Rightarrow> 'v client \<Rightarrow> 'v client \<Rightarrow> bool" for e where
  cs_call: "client_step e cl (fst (call_register c progress cl))"
| cs_call_send: "client_step e cl (call_send e c i method params fail cl)"
| cs_call_cancel: "client_step e cl (call_cancel c i cl)"
| cs_stream: "client_step e cl (fst (stream_register c cl))"
| cs_stream_send: "client_step e cl (stream_send e c i method params fail cl)"
| cs_stream_stop: "client_step e cl (stream_stop c i err cl)"
| cs_stream_next: "client_step e cl (upd_stream i (\<lambda>s. fst (rs_next s)) cl)"
| cs_subscribe: "client_step e cl (fst (Subscribe method params patch cl))"
| cs_send: "cl_todo cl = xs @ (c, i) # ys \<Longrightarrow> cl_writing cl = [] \<Longrightarrow>
    client_step e cl (sendSubscribe c i (cl\<lparr>cl_todo := xs @ ys\<rparr>))"
| cs_write: "cl_writing cl = (c, i) # ws \<Longrightarrow> client_step e cl (writeSubscribe e c i (cl\<lparr>cl_writing := ws\<rparr>))"
| cs_answered: "cl_answered cl = xs @ (c, i) # ys \<Longrightarrow> cl_writing cl = [] \<Longrightarrow>
    client_step e cl (answered c i (cl\<lparr>cl_answered := xs @ ys\<rparr>))"
| cs_release: "cl_owed cl = xs @ c # ys \<Longrightarrow> cl_writing cl = [] \<Longrightarrow>
    client_step e cl (releaseSubSlot c (cl\<lparr>cl_owed := xs @ ys\<rparr>))"
| cs_fail: "cl_failing cl = xs @ (i, err) # ys \<Longrightarrow> client_step e cl (sub_close i (Some err) (cl\<lparr>cl_failing := xs @ ys\<rparr>))"
| cs_close: "i \<in> set (cl_subs cl) \<Longrightarrow> client_step e cl (sub_close i err cl)"
| cs_end: "cl_ending cl = xs @ i # ys \<Longrightarrow> cl_writing cl = [] \<Longrightarrow>
    client_step e cl (sub_end i (cl\<lparr>cl_ending := xs @ ys\<rparr>))"
| cs_connect: "cl_conn cl = None \<Longrightarrow> fresh_conn c cl \<Longrightarrow> client_step e cl (fst (markConnected c cl))"
| cs_disconnect: "client_step e cl (markDisconnected c cause cl)"
| cs_shutdown: "client_step e cl (shutdown err cl)"
| cs_frame: "server_ok c f cl \<Longrightarrow> client_step e cl (handleFrame e c f cl)"
| cs_on_push: "client_step e cl (OnPush event h cl)"
| cs_push_remove: "client_step e cl (OnPush_remove event h cl)"
| cs_push_drain: "client_step e cl (cl\<lparr>cl_handler := (cl_handler cl)(h := fst (ph_drain (cl_handler cl h)))\<rparr>)"
| cs_auth: "auth_step (cl_auth cl) a \<Longrightarrow> client_step e cl (cl\<lparr>cl_auth := a\<rparr>)"

section \<open>Fields an operation leaves alone\<close>

text \<open>
  The part of the state the subscriptions live in, and the part the calls live in, seen from the
  operations that do not touch them.
\<close>

definition sub_part where
  "sub_part cl = (cl_conn cl, cl_closed cl, cl_subs cl, cl_sub cl, subInFlight cl, subQueue cl, cl_todo cl, cl_writing cl,
     cl_answered cl, cl_owed cl, cl_failing cl, cl_ending cl)"

definition call_part where
  "call_part cl = (cl_conn cl, cl_closed cl, cl_nextID cl, cl_pending cl, cl_results cl, cl_returned cl)"

lemma upd_sub_simps [simp]:
  "cl_sub (upd_sub i f cl) = (cl_sub cl)(i := f (cl_sub cl i))"
  "cl_conn (upd_sub i f cl) = cl_conn cl" "cl_closed (upd_sub i f cl) = cl_closed cl"
  "cl_subs (upd_sub i f cl) = cl_subs cl" "cl_streams (upd_sub i f cl) = cl_streams cl"
  "subInFlight (upd_sub i f cl) = subInFlight cl" "subQueue (upd_sub i f cl) = subQueue cl"
  "cl_todo (upd_sub i f cl) = cl_todo cl" "cl_writing (upd_sub i f cl) = cl_writing cl"
  "cl_answered (upd_sub i f cl) = cl_answered cl" "cl_owed (upd_sub i f cl) = cl_owed cl"
  "cl_failing (upd_sub i f cl) = cl_failing cl" "cl_ending (upd_sub i f cl) = cl_ending cl"
  "cl_wire (upd_sub i f cl) = cl_wire cl" "cl_nextID (upd_sub i f cl) = cl_nextID cl"
  "cl_stream (upd_sub i f cl) = cl_stream cl" "cl_changes (upd_sub i f cl) = cl_changes cl"
  "call_part (upd_sub i f cl) = call_part cl"
  by (simp_all add: upd_sub_def call_part_def)

lemma upd_stream_simps [simp]:
  "cl_stream (upd_stream i f cl) = (cl_stream cl)(i := f (cl_stream cl i))"
  "cl_streams (upd_stream i f cl) = cl_streams cl" "cl_subs (upd_stream i f cl) = cl_subs cl"
  "cl_wire (upd_stream i f cl) = cl_wire cl" "cl_nextID (upd_stream i f cl) = cl_nextID cl"
  "cl_conn (upd_stream i f cl) = cl_conn cl" "cl_closed (upd_stream i f cl) = cl_closed cl"
  "sub_part (upd_stream i f cl) = sub_part cl" "call_part (upd_stream i f cl) = call_part cl"
  by (simp_all add: upd_stream_def sub_part_def call_part_def)

lemma write_out_simps [simp]:
  "cl_wire (write_out c f cl) = cl_wire cl @ [(c, f)]" "cl_nextID (write_out c f cl) = cl_nextID cl"
  "sub_part (write_out c f cl) = sub_part cl" "call_part (write_out c f cl) = call_part cl"
  "cl_sub (write_out c f cl) = cl_sub cl" "cl_subs (write_out c f cl) = cl_subs cl" "cl_conn (write_out c f cl) = cl_conn cl"
  "cl_closed (write_out c f cl) = cl_closed cl" "subInFlight (write_out c f cl) = subInFlight cl"
  "subQueue (write_out c f cl) = subQueue cl" "cl_todo (write_out c f cl) = cl_todo cl"
  "cl_writing (write_out c f cl) = cl_writing cl" "cl_answered (write_out c f cl) = cl_answered cl"
  "cl_owed (write_out c f cl) = cl_owed cl" "cl_failing (write_out c f cl) = cl_failing cl"
  "cl_ending (write_out c f cl) = cl_ending cl"
  by (simp_all add: write_out_def sub_part_def call_part_def)

lemma fold_upd_stream_simps [simp]:
  "cl_wire (fold (\<lambda>i. upd_stream i f) is cl) = cl_wire cl" "cl_nextID (fold (\<lambda>i. upd_stream i f) is cl) = cl_nextID cl"
  "sub_part (fold (\<lambda>i. upd_stream i f) is cl) = sub_part cl" "call_part (fold (\<lambda>i. upd_stream i f) is cl) = call_part cl"
  "cl_streams (fold (\<lambda>i. upd_stream i f) is cl) = cl_streams cl"
  by (induction "is" arbitrary: cl) simp_all

end
