(* ===== verification/Aprot_ClientSubs.thy ===== *)
theory Aprot_ClientSubs
  imports Aprot_Client
begin

text \<open>
  What holds of the client's subscriptions in every run: the slots of subscribe frames are counted
  exactly, no open subscription is forgotten over reconnects, and the server is never left with a
  subscription the client has dropped.
\<close>

section \<open>The invariant\<close>

definition issued :: "string \<Rightarrow> nat \<Rightarrow> bool" where
  "issued i n \<longleftrightarrow> (\<exists>k. 0 < k \<and> k \<le> n \<and> i = nat_str k)"

fun frame_sub :: "'v out_frame \<Rightarrow> string option" where
  "frame_sub (OutSubscribe i m p b) = Some i"
| "frame_sub (OutUnsubscribe i) = Some i"
| "frame_sub f = None"

text \<open>The subscribe and unsubscribe frames for \<open>i\<close> on connection \<open>c\<close>.\<close>

definition wire_for :: "nat \<Rightarrow> string \<Rightarrow> 'v client \<Rightarrow> (nat \<times> 'v out_frame) list" where
  "wire_for c i cl = filter (\<lambda>x. fst x = c \<and> frame_sub (snd x) = Some i) (cl_wire cl)"

definition one_conn :: "(nat \<times> string) list \<Rightarrow> bool" where
  "one_conn xs \<longleftrightarrow> (\<exists>d. set xs \<subseteq> {d} \<times> UNIV)"

lemma one_conn_simps [simp]: "one_conn []" "one_conn [x]" "one_conn (map (Pair d) is)"
  by (cases x; auto simp: one_conn_def)+

lemma one_connD: "one_conn ((d, i) # ws) \<Longrightarrow> one_conn ws" "one_conn ((d, i) # ws) \<Longrightarrow> (b, j) \<in> set ws \<Longrightarrow> d = b"
  by (auto simp: one_conn_def)

definition ids_ok :: "'v client \<Rightarrow> bool" where
  "ids_ok cl \<longleftrightarrow> distinct (cl_subs cl) \<and> one_conn (cl_writing cl) \<and> (\<forall>i\<in>set (cl_subs cl). issued i (cl_nextID cl)) \<and>
     (\<forall>i. awaiting (cl_sub cl i) \<noteq> None \<longrightarrow> issued i (cl_nextID cl)) \<and>
     (\<forall>c i. (c, i) \<in> set (cl_todo cl) \<union> set (cl_writing cl) \<union> set (cl_answered cl) \<longrightarrow> issued i (cl_nextID cl)) \<and>
     (\<forall>i\<in>set (cl_ending cl). issued i (cl_nextID cl)) \<and> (\<forall>i err. (i, err) \<in> set (cl_failing cl) \<longrightarrow> issued i (cl_nextID cl)) \<and>
     (\<forall>c f i. (c, f) \<in> set (cl_wire cl) \<and> frame_sub f = Some i \<longrightarrow> issued i (cl_nextID cl))"

text \<open>Where the subscription \<open>i\<close> stands on its way to the server.\<close>

definition loc :: "nat \<Rightarrow> string \<Rightarrow> 'v client \<Rightarrow> nat" where
  "loc c i cl = count_list (cl_todo cl) (c, i) + count_list (subQueue cl) i + count_list (cl_writing cl) (c, i) +
     (if i \<in> waiting c cl then 1 else 0) + count_list (cl_answered cl) (c, i)"

definition on_conn :: "nat \<Rightarrow> (nat \<times> string) list \<Rightarrow> nat" where
  "on_conn c xs = length (filter (\<lambda>x. fst x = c) xs)"

definition slots :: "nat \<Rightarrow> 'v client \<Rightarrow> nat" where
  "slots c cl = card (waiting c cl) + on_conn c (cl_writing cl) + on_conn c (cl_answered cl) + count_list (cl_owed cl) c"

definition covered :: "nat \<Rightarrow> string \<Rightarrow> 'v client \<Rightarrow> bool" where
  "covered c i cl \<longleftrightarrow> written c i cl \<or> i \<in> set (subQueue cl) \<or> (c, i) \<in> set (cl_todo cl) \<or>
     (c, i) \<in> set (cl_writing cl) \<or> i \<in> fst ` set (cl_failing cl) \<or> su_closed (cl_sub cl i)"

definition has_base :: "nat \<Rightarrow> string \<Rightarrow> 'v client \<Rightarrow> bool" where
  "has_base c i cl \<longleftrightarrow> (\<not> su_closed (cl_sub cl i) \<and> su_patch (cl_sub cl i) \<and> written c i cl \<and>
     awaiting (cl_sub cl i) \<noteq> Some c \<longrightarrow> su_cur (cl_sub cl i) \<noteq> None)"

definition conn_inv :: "nat \<Rightarrow> 'v client \<Rightarrow> bool" where
  "conn_inv c cl \<longleftrightarrow> (\<forall>i. loc c i cl \<le> 1) \<and> subInFlight cl = int (slots c cl) \<and> subInFlight cl \<le> 64 \<and>
     (subQueue cl \<noteq> [] \<longrightarrow> subInFlight cl = 64) \<and> set (subQueue cl) \<subseteq> set (cl_subs cl) \<and>
     (\<forall>i\<in>set (cl_subs cl). covered c i cl) \<and> (\<forall>i\<in>set (cl_subs cl). has_base c i cl) \<and>
     (\<forall>i. (c, i) \<in> set (cl_writing cl) \<longrightarrow> i \<in> set (cl_subs cl)) \<and>
     ((\<exists>x\<in>set (cl_writing cl). fst x \<noteq> c) \<longrightarrow> waiting c cl = {}) \<and>
     (\<forall>i. i \<notin> set (cl_subs cl) \<longrightarrow> wire_for c i cl = [] \<or> snd (last (wire_for c i cl)) = OutUnsubscribe i)"

definition client_inv :: "'v client \<Rightarrow> bool" where
  "client_inv cl \<longleftrightarrow> ids_ok cl \<and> (cl_closed cl \<longrightarrow> cl_conn cl = None) \<and> (\<forall>c. cl_conn cl = Some c \<longrightarrow> conn_inv c cl)"

lemma conn_invD:
  assumes "conn_inv c cl"
  shows "loc c i cl \<le> 1" "subInFlight cl = int (slots c cl)" "subInFlight cl \<le> 64"
    "subQueue cl \<noteq> [] \<Longrightarrow> subInFlight cl = 64" "i \<in> set (subQueue cl) \<Longrightarrow> i \<in> set (cl_subs cl)"
    "i \<in> set (cl_subs cl) \<Longrightarrow> covered c i cl" "i \<in> set (cl_subs cl) \<Longrightarrow> has_base c i cl"
    "(c, i) \<in> set (cl_writing cl) \<Longrightarrow> i \<in> set (cl_subs cl)"
    "x \<in> set (cl_writing cl) \<Longrightarrow> fst x \<noteq> c \<Longrightarrow> waiting c cl = {}"
    "i \<notin> set (cl_subs cl) \<Longrightarrow> wire_for c i cl = [] \<or> snd (last (wire_for c i cl)) = OutUnsubscribe i"
  using assms unfolding conn_inv_def by blast+

lemma conn_invI:
  assumes "\<And>i. loc c i cl \<le> 1" "subInFlight cl = int (slots c cl)" "subInFlight cl \<le> 64"
    "subQueue cl \<noteq> [] \<Longrightarrow> subInFlight cl = 64" "\<And>i. i \<in> set (subQueue cl) \<Longrightarrow> i \<in> set (cl_subs cl)"
    "\<And>i. i \<in> set (cl_subs cl) \<Longrightarrow> covered c i cl" "\<And>i. i \<in> set (cl_subs cl) \<Longrightarrow> has_base c i cl"
    "\<And>i. (c, i) \<in> set (cl_writing cl) \<Longrightarrow> i \<in> set (cl_subs cl)"
    "\<And>d i. (d, i) \<in> set (cl_writing cl) \<Longrightarrow> d \<noteq> c \<Longrightarrow> waiting c cl = {}"
    "\<And>i. i \<notin> set (cl_subs cl) \<Longrightarrow> wire_for c i cl = [] \<or> snd (last (wire_for c i cl)) = OutUnsubscribe i"
  shows "conn_inv c cl"
  using assms unfolding conn_inv_def by (intro conjI allI ballI impI subsetI; (blast | (auto; fail))?)

lemma issued_mono: "issued i n \<Longrightarrow> n \<le> m \<Longrightarrow> issued i m"
  by (force simp: issued_def)

lemma issued_SucI: "issued i n \<Longrightarrow> issued i (Suc n)"
  by (erule issued_mono) simp

lemma issued_Suc: "\<not> issued (nat_str (Suc n)) n"
  by (auto simp: issued_def)

lemma finite_issued: "finite {i. issued i n}"
proof -
  have "{i. issued i n} \<subseteq> nat_str ` {..n}" by (auto simp: issued_def)
  then show ?thesis by (rule finite_subset) simp
qed

lemma finite_waiting: "ids_ok cl \<Longrightarrow> finite (waiting c cl)"
  by (rule finite_subset [OF _ finite_issued [of "cl_nextID cl"]]) (auto simp: ids_ok_def waiting_def)

lemma wire_for_append:
  "wire_for c i (cl\<lparr>cl_wire := cl_wire cl @ w\<rparr>) =
     wire_for c i cl @ filter (\<lambda>x. fst x = c \<and> frame_sub (snd x) = Some i) w"
  by (simp add: wire_for_def)

lemma on_conn_simps [simp]:
  "on_conn c [] = 0" "on_conn c (x # xs) = (if fst x = c then Suc (on_conn c xs) else on_conn c xs)"
  "on_conn c (xs @ ys) = on_conn c xs + on_conn c ys"
  by (simp_all add: on_conn_def)

lemma on_conn_map_Pair [simp]: "on_conn c (map (Pair d) xs) = (if c = d then length xs else 0)"
  by (auto simp: on_conn_def comp_def)

lemma count_list_map_Pair [simp]: "count_list (map (Pair d) xs) (c, i) = (if c = d then count_list xs i else 0)"
  by (induction xs) auto

lemma count_list_distinct: "distinct xs \<Longrightarrow> count_list xs x \<le> 1"
  by (induction xs) (auto simp: count_list_0_iff)

lemma count_remove1_le: "count_list xs x \<le> 1 \<Longrightarrow> x \<notin> set (remove1 x xs)"
  by (induction xs) (auto simp: count_list_0_iff)

lemma waiting_upd_sub:
  "waiting c (upd_sub i f cl) =
     (if awaiting (f (cl_sub cl i)) = Some c then insert i (waiting c cl) else waiting c cl - {i})"
  by (auto simp: waiting_def)

lemma written_append:
  "cl_wire cl' = cl_wire cl @ [(d, OutSubscribe i m p b)] \<Longrightarrow> written c j cl' \<longleftrightarrow> written c j cl \<or> c = d \<and> j = i"
  unfolding written_def by (simp del: split_paired_Ex) blast

lemma written_cong: "cl_wire cl' = cl_wire cl \<Longrightarrow> written c i cl' = written c i cl"
  by (simp add: written_def)

text \<open>The invariant reads only the part of the state the subscriptions live in.\<close>

lemma client_inv_view:
  assumes "client_inv cl" "sub_part cl' = sub_part cl" "cl_nextID cl \<le> cl_nextID cl'"
    and "\<exists>w. cl_wire cl' = cl_wire cl @ w \<and> (\<forall>x\<in>set w. frame_sub (snd x) = None)"
  shows "client_inv cl'"
proof -
  obtain w where w: "cl_wire cl' = cl_wire cl @ w" "\<forall>x\<in>set w. frame_sub (snd x) = None" using assms(4) by blast
  have eqs: "cl_conn cl' = cl_conn cl" "cl_closed cl' = cl_closed cl" "cl_subs cl' = cl_subs cl" "cl_sub cl' = cl_sub cl"
    "subInFlight cl' = subInFlight cl" "subQueue cl' = subQueue cl" "cl_todo cl' = cl_todo cl"
    "cl_writing cl' = cl_writing cl" "cl_answered cl' = cl_answered cl" "cl_owed cl' = cl_owed cl"
    "cl_failing cl' = cl_failing cl" "cl_ending cl' = cl_ending cl"
    using assms(2) by (simp_all add: sub_part_def)
  have wr: "written c i cl' = written c i cl" for c i using w by (force simp: written_def)
  have wf: "wire_for c i cl' = wire_for c i cl" for c i using w by (auto simp: wire_for_def filter_empty_conv)
  have nw: "frame_sub f = None" if "(c, f) \<in> set w" for c f using w(2) that by fastforce
  have m: "issued i (cl_nextID cl')" if "issued i (cl_nextID cl)" for i using issued_mono [OF that assms(3)] .
  have "ids_ok cl'" using assms(1) unfolding client_inv_def ids_ok_def eqs w(1)
    by (intro conjI allI ballI impI) (auto intro!: m dest: nw)
  moreover have "conn_inv c cl' = conn_inv c cl" for c
    by (simp add: conn_inv_def loc_def slots_def waiting_def covered_def has_base_def eqs wr wf)
  ultimately show ?thesis using assms(1) by (simp add: client_inv_def eqs)
qed

lemmas part_simps = sub_part_def call_part_def

lemma takePending_view [simp]:
  "sub_part (fst (takePending i cl)) = sub_part cl" "cl_wire (fst (takePending i cl)) = cl_wire cl"
  "cl_nextID (fst (takePending i cl)) = cl_nextID cl"
  by (simp_all add: takePending_def sub_part_def split: option.splits)

lemma call_ops_inv:
  assumes "client_inv cl"
  shows "client_inv (fst (call_register c progress cl))" "client_inv (call_send e c i method params fl cl)"
    "client_inv (call_cancel c i cl)" "client_inv (fst (stream_register c cl))"
    "client_inv (stream_send e c i method params fl cl)" "client_inv (stream_stop c i err cl)"
    "client_inv (rejectStreamForCall c i cl)"
proof -
  note v = client_inv_view [OF assms]
  have t: "takePending i cl = (cl1, b) \<Longrightarrow> sub_part cl1 = sub_part cl \<and> cl_wire cl1 = cl_wire cl \<and> cl_nextID cl1 = cl_nextID cl" for cl1 b
    using takePending_view [of i cl] by simp
  show "client_inv (fst (call_register c progress cl))"
    by (rule v) (simp_all add: call_register_def newID_def sub_part_def)
  show "client_inv (call_send e c i method params fl cl)"
    by (rule v) (auto simp: call_send_def return_error_def drop_result_def split: prod.splits bool.splits option.splits dest!: t, simp_all add: sub_part_def)
  show "client_inv (call_cancel c i cl)"
    by (rule v) (auto simp: call_cancel_def return_error_def split: prod.splits bool.splits dest!: t, simp_all add: sub_part_def)
  show "client_inv (fst (stream_register c cl))"
    by (rule v) (simp_all add: stream_register_def newID_def sub_part_def upd_stream_def)
  show "client_inv (stream_send e c i method params fl cl)"
    by (rule v) (auto simp: stream_send_def Let_def sub_part_def upd_stream_def write_out_def split: option.splits)
  show "client_inv (stream_stop c i err cl)"
    by (rule v) (auto simp: stream_stop_def Let_def sub_part_def upd_stream_def write_out_def split: prod.splits)
  show "client_inv (rejectStreamForCall c i cl)"
    by (rule v) (auto simp: rejectStreamForCall_def send_result_def split: prod.splits bool.splits dest!: t, simp_all add: sub_part_def)
qed

lemma Subscribe_inv:
  assumes "client_inv cl"
  shows "client_inv (fst (Subscribe method params patch cl))"
proof -
  let ?i = "nat_str (Suc (cl_nextID cl))"
  let ?cl = "fst (Subscribe method params patch cl)"
  have ids: "ids_ok cl" using assms by (simp add: client_inv_def)
  have new: "?i \<notin> set (cl_subs cl)" "awaiting (cl_sub cl ?i) = None" "\<And>c. (c, ?i) \<notin> set (cl_todo cl)"
    "\<And>c. (c, ?i) \<notin> set (cl_writing cl)" "\<And>c. (c, ?i) \<notin> set (cl_answered cl)" "\<And>c. wire_for c ?i cl = []"
    "\<And>c. \<not> written c ?i cl"
    using ids issued_Suc [of "cl_nextID cl"] unfolding ids_ok_def wire_for_def written_def
    by (auto simp: filter_empty_conv) fastforce+
  have iss: "issued ?i (Suc (cl_nextID cl))" by (auto simp: issued_def)
  have "ids_ok ?cl"
    using ids new iss unfolding ids_ok_def
    by (auto simp: Subscribe_def newID_def Let_def new_sub_def issued_SucI split: option.splits if_splits)
  moreover have "conn_inv c ?cl" if c: "cl_conn cl = Some c" for c
  proof -
    have inv: "conn_inv c cl" and open': "\<not> cl_closed cl" using assms c by (auto simp: client_inv_def)
    have cl': "cl_subs ?cl = ?i # cl_subs cl" "cl_sub ?cl = (cl_sub cl)(?i := new_sub method params patch)"
      "cl_todo ?cl = cl_todo cl @ [(c, ?i)]" "cl_wire ?cl = cl_wire cl" "subQueue ?cl = subQueue cl"
      "cl_writing ?cl = cl_writing cl" "cl_answered ?cl = cl_answered cl" "cl_owed ?cl = cl_owed cl"
      "subInFlight ?cl = subInFlight cl" "cl_failing ?cl = cl_failing cl"
      using open' c by (simp_all add: Subscribe_def newID_def Let_def)
    have w: "waiting d ?cl = waiting d cl" for d using new(2) by (auto simp: waiting_def cl' new_sub_def)
    have q: "?i \<notin> set (subQueue cl)" using inv new(1) by (auto simp: conn_inv_def)
    have wr: "written d j ?cl = written d j cl" for d j by (rule written_cong) (rule cl')
    have wf: "wire_for d j ?cl = wire_for d j cl" for d j by (simp add: wire_for_def cl')
    note old = conn_invD [OF inv]
    show ?thesis
    proof (rule conn_invI)
      show "loc c j ?cl \<le> 1" for j
      proof (cases "j = ?i")
        case True
        then show ?thesis using new q by (simp add: loc_def cl' w waiting_def new_sub_def count_list_0_iff)
      next
        case False
        then show ?thesis using old(1) [of j] by (simp add: loc_def cl' w)
      qed
      show "covered c j ?cl" if "j \<in> set (cl_subs ?cl)" for j
        using that old(6) [of j] by (auto simp: covered_def cl' wr)
      show "has_base c j ?cl" if "j \<in> set (cl_subs ?cl)" for j
        using that old(7) [of j] new(7) by (auto simp: has_base_def cl' wr)
      show "wire_for c j ?cl = [] \<or> snd (last (wire_for c j ?cl)) = OutUnsubscribe j" if "j \<notin> set (cl_subs ?cl)" for j
        using that old(10) [of j] by (simp add: wf cl')
      show "waiting c ?cl = {}" if "(d, j) \<in> set (cl_writing ?cl)" "d \<noteq> c" for d j
        using old(9) [of "(d, j)"] that by (simp add: w cl')
    qed (use old(2-5,8) in \<open>auto simp: cl' w slots_def\<close>)
  qed
  moreover have "cl_conn ?cl = cl_conn cl" "cl_closed ?cl = cl_closed cl"
    by (simp_all add: Subscribe_def newID_def Let_def)
  ultimately show ?thesis using assms by (simp add: client_inv_def)
qed

section \<open>Operations on one subscription\<close>

text \<open>An update of a subscription that keeps its slot and never opens it again or drops its base.\<close>

lemma upd_sub_inv:
  assumes inv: "client_inv cl"
    and f: "awaiting (f (cl_sub cl i)) = awaiting (cl_sub cl i)" "su_patch (f (cl_sub cl i)) = su_patch (cl_sub cl i)"
      "su_closed (cl_sub cl i) \<Longrightarrow> su_closed (f (cl_sub cl i))"
      "\<not> su_closed (f (cl_sub cl i)) \<Longrightarrow> su_cur (cl_sub cl i) \<noteq> None \<Longrightarrow> su_cur (f (cl_sub cl i)) \<noteq> None"
  shows "client_inv (upd_sub i f cl)"
proof -
  let ?cl = "upd_sub i f cl"
  have w: "waiting c ?cl = waiting c cl" for c using f(1) by (auto simp: waiting_def)
  have wr: "written c j ?cl = written c j cl" for c j by (rule written_cong) simp
  have wf: "wire_for c j ?cl = wire_for c j cl" for c j by (simp add: wire_for_def)
  have "ids_ok ?cl" using inv f(1) by (auto simp: client_inv_def ids_ok_def)
  moreover have "conn_inv c ?cl" if "conn_inv c cl" for c
  proof -
    note old = conn_invD [OF that]
    show ?thesis
    proof (rule conn_invI)
      show "loc c j ?cl \<le> 1" for j using old(1) [of j] by (simp add: loc_def w)
      show "covered c j ?cl" if "j \<in> set (cl_subs ?cl)" for j
        using that old(6) [of j] f(3) by (auto simp: covered_def wr)
      show "has_base c j ?cl" if "j \<in> set (cl_subs ?cl)" for j
        using that old(7) [of j] f by (auto simp: has_base_def wr)
      show "waiting c ?cl = {}" if "(d, j) \<in> set (cl_writing ?cl)" "d \<noteq> c" for d j
        using old(9) [of "(d, j)"] that by (simp add: w)
    qed (use old(2-5,8,10) in \<open>auto simp: w wf slots_def\<close>)
  qed
  ultimately show ?thesis using inv by (simp add: client_inv_def)
qed

lemma inv_bookkeeping:
  "client_inv (cl\<lparr>cl_dropRejection := y\<rparr>) = client_inv cl"
  "client_inv (cl\<lparr>cl_auth := a\<rparr>) = client_inv cl" "client_inv (cl\<lparr>cl_progress := p\<rparr>) = client_inv cl"
  "client_inv (cl\<lparr>cl_handler := h\<rparr>) = client_inv cl" "client_inv (cl\<lparr>cl_pushes := q\<rparr>) = client_inv cl"
  "client_inv (cl\<lparr>cl_streams := t\<rparr>) = client_inv cl" "client_inv (upd_stream i g cl) = client_inv cl"
  "client_inv (cl\<lparr>cl_pending := z\<rparr>) = client_inv cl" "client_inv (send_result i r cl) = client_inv cl"
  by (simp_all add: client_inv_def ids_ok_def conn_inv_def loc_def slots_def waiting_def covered_def has_base_def
      written_def wire_for_def upd_stream_def send_result_def)

lemma ending_inv: "client_inv cl \<Longrightarrow> \<forall>i\<in>set x. issued i (cl_nextID cl) \<Longrightarrow> client_inv (cl\<lparr>cl_ending := x\<rparr>)"
proof -
  have "conn_inv c (cl\<lparr>cl_ending := x\<rparr>) = conn_inv c cl" for c
    by (simp add: conn_inv_def loc_def slots_def waiting_def covered_def has_base_def written_def wire_for_def)
  then show "client_inv cl \<Longrightarrow> \<forall>i\<in>set x. issued i (cl_nextID cl) \<Longrightarrow> client_inv (cl\<lparr>cl_ending := x\<rparr>)"
    by (simp add: client_inv_def ids_ok_def)
qed

lemma sub_close_inv:
  assumes "client_inv cl" "issued i (cl_nextID cl)"
  shows "client_inv (sub_close i err cl)"
proof (cases "su_closed (cl_sub cl i)")
  case False
  have "client_inv (upd_sub i (\<lambda>s. s\<lparr>su_closed := True, su_err := err, su_cur := None\<rparr>) cl)"
    by (rule upd_sub_inv [OF assms(1)]) auto
  moreover have "\<forall>j\<in>set (cl_ending cl). issued j (cl_nextID cl)" using assms(1) by (simp add: client_inv_def ids_ok_def)
  ultimately show ?thesis using False assms(2) by (simp add: sub_close_def ending_inv)
qed (use assms in \<open>simp add: sub_close_def\<close>)

lemma publish_simps [simp]:
  "awaiting (publishLocked v s) = awaiting s" "su_patch (publishLocked v s) = su_patch s"
  "su_closed (publishLocked v s) = su_closed s" "resend (publishLocked v s) = resend s"
  "su_cur (publishLocked v s) = (if su_closed s \<or> \<not> su_patch s then su_cur s else Some v)"
  by (simp_all add: publishLocked_def)

lemma publish_inv: "client_inv cl \<Longrightarrow> client_inv (upd_sub i (publishLocked v) cl)"
  by (rule upd_sub_inv) auto

lemma sub_deliver_inv: "client_inv cl \<Longrightarrow> issued i (cl_nextID cl) \<Longrightarrow> client_inv (sub_deliver e i d cl)"
  by (simp add: sub_deliver_def sub_close_inv publish_inv split: sum.splits)

lemma sub_patch_inv: "client_inv cl \<Longrightarrow> issued i (cl_nextID cl) \<Longrightarrow> client_inv (fst (sub_patch e i p cl))"
  by (simp add: sub_patch_def Let_def sub_close_inv publish_inv split: sum.splits option.splits bool.splits)

text \<open>A slot changes hands: from the subscription to the read loop, or to a pending release.\<close>

lemma take_slot_inv:
  assumes inv: "client_inv cl" and aw: "awaiting (cl_sub cl i) = Some a"
    and base: "i \<in> set (cl_subs cl) \<Longrightarrow> su_closed (cl_sub cl i) \<or> \<not> su_patch (cl_sub cl i) \<or> su_cur (cl_sub cl i) \<noteq> None"
    and to: "xs = [(a, i)] \<and> ys = [] \<or> xs = [] \<and> ys = [a]"
  shows "client_inv ((upd_sub i (\<lambda>s. s\<lparr>awaiting := None\<rparr>) cl)\<lparr>cl_answered := cl_answered cl @ xs, cl_owed := cl_owed cl @ ys\<rparr>)"
    (is "client_inv ?cl")
proof -
  have ids: "ids_ok cl" using inv by (simp add: client_inv_def)
  have w: "waiting c ?cl = waiting c cl - {i}" for c by (auto simp: waiting_def)
  have wr: "written c j ?cl = written c j cl" for c j by (rule written_cong) simp
  have wf: "wire_for c j ?cl = wire_for c j cl" for c j by (simp add: wire_for_def)
  have fin: "finite (waiting c cl)" for c by (rule finite_waiting [OF ids])
  have iw: "i \<in> waiting c cl \<longleftrightarrow> c = a" for c using aw by (auto simp: waiting_def)
  have "ids_ok ?cl" using ids aw to by (auto simp: ids_ok_def)
  moreover have "conn_inv c ?cl" if "conn_inv c cl" for c
  proof -
    note old = conn_invD [OF that]
    have "card (waiting c cl) > 0" if "c = a" using that fin [of c] iw [of c] by (auto simp: card_gt_0_iff)
    then have sl: "slots c ?cl = slots c cl"
      using to fin [of c] iw [of c] by (auto simp: slots_def w card_Diff_singleton_if)
    show ?thesis
    proof (rule conn_invI)
      show "loc c j ?cl \<le> 1" for j using old(1) [of j] to iw [of c] by (auto simp: loc_def w split: if_splits)
      show "covered c j ?cl" if "j \<in> set (cl_subs ?cl)" for j
        using that old(6) [of j] by (auto simp: covered_def wr)
      show "has_base c j ?cl" if "j \<in> set (cl_subs ?cl)" for j
        using that old(7) [of j] base by (auto simp: has_base_def wr)
      show "waiting c ?cl = {}" if "(d, j) \<in> set (cl_writing ?cl)" "d \<noteq> c" for d j
        using old(9) [of "(d, j)"] that by (simp add: w)
    qed (use old(2-5,8,10) in \<open>auto simp: sl wf\<close>)
  qed
  ultimately show ?thesis using inv by (simp add: client_inv_def)
qed

lemma slot_to_read_loop:
  assumes "client_inv cl" "awaiting (cl_sub cl i) = Some a"
    and "i \<in> set (cl_subs cl) \<Longrightarrow> su_closed (cl_sub cl i) \<or> \<not> su_patch (cl_sub cl i) \<or> su_cur (cl_sub cl i) \<noteq> None"
  shows "client_inv ((upd_sub i (\<lambda>s. s\<lparr>awaiting := None\<rparr>) cl)\<lparr>cl_answered := cl_answered cl @ [(a, i)]\<rparr>)"
  using take_slot_inv [OF assms, of "[(a, i)]" "[]"] by (cases cl) (simp add: upd_sub_def)

lemma slot_to_release:
  assumes "client_inv cl" "awaiting (cl_sub cl i) = Some a"
    and "i \<in> set (cl_subs cl) \<Longrightarrow> su_closed (cl_sub cl i) \<or> \<not> su_patch (cl_sub cl i) \<or> su_cur (cl_sub cl i) \<noteq> None"
  shows "client_inv ((upd_sub i (\<lambda>s. s\<lparr>awaiting := None\<rparr>) cl)\<lparr>cl_owed := cl_owed cl @ [a]\<rparr>)"
  using take_slot_inv [OF assms, of "[]" "[a]"] by (cases cl) (simp add: upd_sub_def)

section \<open>Sending and slots\<close>

lemma drop_todo_inv:
  assumes inv: "client_inv cl" and todo: "cl_todo cl = xs @ (d, i) # ys"
    and cov: "\<And>c. cl_conn cl = Some c \<Longrightarrow> c = d \<Longrightarrow> i \<notin> set (cl_subs cl)"
  shows "client_inv (cl\<lparr>cl_todo := xs @ ys\<rparr>)" (is "client_inv ?cl")
proof -
  have "ids_ok ?cl" using inv todo by (auto simp: client_inv_def ids_ok_def)
  moreover have "conn_inv c ?cl" if c: "cl_conn cl = Some c" for c
  proof -
    have old: "conn_inv c cl" using inv c by (simp add: client_inv_def)
    note o = conn_invD [OF old]
    show ?thesis
    proof (rule conn_invI)
      show "loc c j ?cl \<le> 1" for j using o(1) [of j] todo by (auto simp: loc_def waiting_def split: if_splits)
      show "covered c j ?cl" if "j \<in> set (cl_subs ?cl)" for j
        using that o(6) [of j] cov [OF c] todo by (auto simp: covered_def written_def)
      show "has_base c j ?cl" if "j \<in> set (cl_subs ?cl)" for j
        using that o(7) [of j] by (simp add: has_base_def written_def)
      show "waiting c ?cl = {}" if "(e, j) \<in> set (cl_writing ?cl)" "e \<noteq> c" for e j
        using o(9) [of "(e, j)"] that by (simp add: waiting_def)
    qed (use o(2-5,8,10) in \<open>auto simp: slots_def waiting_def wire_for_def\<close>)
  qed
  ultimately show ?thesis using inv by (simp add: client_inv_def)
qed

lemma sendSubscribe_inv:
  assumes inv: "client_inv cl" and todo: "cl_todo cl = xs @ (d, i) # ys" and free: "cl_writing cl = []"
  shows "client_inv (sendSubscribe d i (cl\<lparr>cl_todo := xs @ ys\<rparr>))"
proof (cases "i \<notin> set (cl_subs cl) \<or> cl_conn cl \<noteq> Some d")
  case True
  have "client_inv (cl\<lparr>cl_todo := xs @ ys\<rparr>)" by (rule drop_todo_inv [OF inv todo]) (use True in auto)
  then show ?thesis using True by (simp add: sendSubscribe_def)
next
  case False
  let ?cl = "sendSubscribe d i (cl\<lparr>cl_todo := xs @ ys\<rparr>)"
  have old: "conn_inv d cl" using inv False by (simp add: client_inv_def)
  note o = conn_invD [OF old]
  have "loc d i cl \<le> 1" by (rule o(1))
  then have once: "count_list (xs @ ys) (d, i) = 0" "i \<notin> set (subQueue cl)" "i \<notin> waiting d cl" "(d, i) \<notin> set (cl_answered cl)"
    using todo by (auto simp: loc_def count_list_0_iff split: if_splits)
  have cl': "cl_subs ?cl = cl_subs cl" "cl_sub ?cl = cl_sub cl" "cl_todo ?cl = xs @ ys" "cl_wire ?cl = cl_wire cl"
    "cl_answered ?cl = cl_answered cl" "cl_owed ?cl = cl_owed cl" "cl_failing ?cl = cl_failing cl"
    "cl_nextID ?cl = cl_nextID cl" "cl_conn ?cl = cl_conn cl" "cl_closed ?cl = cl_closed cl" "cl_ending ?cl = cl_ending cl"
    using False by (simp_all add: sendSubscribe_def)
  have w: "waiting c ?cl = waiting c cl" for c by (simp add: waiting_def cl')
  have wr: "written c j ?cl = written c j cl" for c j by (simp add: written_def cl')
  have wf: "wire_for c j ?cl = wire_for c j cl" for c j by (simp add: wire_for_def cl')
  have full: "subInFlight cl \<ge> maxSubscribesInFlight \<longleftrightarrow> subInFlight cl = 64"
    using o(3) by (auto simp: maxSubscribesInFlight_def)
  have parts: "subInFlight cl = 64 \<and> subQueue ?cl = subQueue cl @ [i] \<and> cl_writing ?cl = [] \<and> subInFlight ?cl = subInFlight cl \<or>
      subInFlight cl < 64 \<and> subQueue cl = [] \<and> subQueue ?cl = [] \<and> cl_writing ?cl = [(d, i)] \<and> subInFlight ?cl = subInFlight cl + 1"
    using False full free o(3,4) by (auto simp: sendSubscribe_def)
  have idc: "ids_ok cl" using inv by (simp add: client_inv_def)
  have ids: "ids_ok ?cl"
    using parts
  proof (elim disjE conjE)
    assume "cl_writing ?cl = []"
    then show ?thesis using idc todo unfolding ids_ok_def cl' by auto
  next
    assume "cl_writing ?cl = [(d, i)]"
    then show ?thesis using idc todo unfolding ids_ok_def cl' by auto
  qed
  have "conn_inv d ?cl"
  proof (rule conn_invI)
    show "loc d j ?cl \<le> 1" for j
      using o(1) [of j] todo parts once free by (auto simp: loc_def w cl' split: if_splits)
    show "subInFlight ?cl = int (slots d ?cl)" using o(2) parts free by (auto simp: slots_def w cl')
    show "covered d j ?cl" if "j \<in> set (cl_subs ?cl)" for j
      using that o(6) [of j] parts todo free by (auto simp: covered_def wr cl')
    show "has_base d j ?cl" if "j \<in> set (cl_subs ?cl)" for j
      using that o(7) [of j] by (simp add: has_base_def wr cl')
    show "waiting d ?cl = {}" if "(c, j) \<in> set (cl_writing ?cl)" "c \<noteq> d" for c j
      using that parts by auto
  qed (use o(3-5,10) parts False in \<open>auto simp: cl' wf\<close>)
  then show ?thesis using inv ids False by (simp add: client_inv_def cl')
qed

lemma writeSubscribe_inv:
  assumes inv: "client_inv cl" and wrt: "cl_writing cl = (d, i) # ws"
  shows "client_inv (writeSubscribe e d i (cl\<lparr>cl_writing := ws\<rparr>))" (is "client_inv ?cl")
proof -
  have ids: "ids_ok cl" using inv by (simp add: client_inv_def)
  let ?f = "subscribe_frame i (cl_sub cl i)"
  have cl': "cl_subs ?cl = cl_subs cl" "cl_sub ?cl = (cl_sub cl)(i := (cl_sub cl i)\<lparr>awaiting := Some d\<rparr>)"
    "cl_todo ?cl = cl_todo cl" "cl_writing ?cl = ws" "cl_answered ?cl = cl_answered cl" "cl_owed ?cl = cl_owed cl"
    "cl_nextID ?cl = cl_nextID cl" "cl_conn ?cl = cl_conn cl" "cl_closed ?cl = cl_closed cl"
    "subInFlight ?cl = subInFlight cl" "subQueue ?cl = subQueue cl" "cl_ending ?cl = cl_ending cl"
    by (simp_all add: writeSubscribe_def Let_def)
  have out: "cl_wire ?cl = cl_wire cl \<and> i \<in> fst ` set (cl_failing ?cl) \<or>
      cl_wire ?cl = cl_wire cl @ [(d, ?f)] \<and> cl_failing ?cl = cl_failing cl"
    by (simp add: writeSubscribe_def Let_def)
  have fl: "fst ` set (cl_failing cl) \<subseteq> fst ` set (cl_failing ?cl)" by (auto simp: writeSubscribe_def Let_def)
  have w: "waiting c ?cl = (if c = d then insert i (waiting c cl) else waiting c cl - {i})" for c
    by (auto simp: waiting_def cl')
  have wr: "written c j ?cl \<longleftrightarrow> written c j cl \<or> c = d \<and> j = i \<and> cl_wire ?cl \<noteq> cl_wire cl" for c j
    using out
  proof (elim disjE conjE)
    assume a: "cl_wire ?cl = cl_wire cl"
    show ?thesis using written_cong [OF a] a by simp
  next
    assume a: "cl_wire ?cl = cl_wire cl @ [(d, ?f)]"
    show ?thesis using written_append [OF a [unfolded subscribe_frame_def]] a by simp
  qed
  have wf: "wire_for c j ?cl = wire_for c j cl @ (if c = d \<and> j = i \<and> cl_wire ?cl \<noteq> cl_wire cl then [(d, ?f)] else [])" for c j
    using out by (auto simp: wire_for_def subscribe_frame_def)
  have ws: "one_conn ws" "issued i (cl_nextID cl)" using ids wrt one_connD(1) by (auto simp: ids_ok_def)
  have fi: "\<forall>j err. (j, err) \<in> set (cl_failing ?cl) \<longrightarrow> issued j (cl_nextID cl)"
    using ids ws by (auto simp: ids_ok_def writeSubscribe_def Let_def split: if_splits)
  have wi: "\<forall>c f j. (c, f) \<in> set (cl_wire ?cl) \<and> frame_sub f = Some j \<longrightarrow> issued j (cl_nextID cl)"
    using ids ws by (auto simp: ids_ok_def writeSubscribe_def Let_def subscribe_frame_def split: if_splits)
  have ids': "ids_ok ?cl" using ids wrt ws fi wi unfolding ids_ok_def cl' by auto
  have "conn_inv c ?cl" if c: "cl_conn cl = Some c" for c
  proof -
    have old: "conn_inv c cl" using inv c by (simp add: client_inv_def)
    note o = conn_invD [OF old]
    have stale: "waiting c cl = {}" if "c \<noteq> d" using o(9) [of "(d, i)"] wrt that by simp
    have fresh: "i \<notin> waiting c cl" "(c, i) \<notin> set ws" if "c = d"
      using o(1) [of i] wrt that by (auto simp: loc_def count_list_0_iff split: if_splits)
    have fin: "finite (waiting c cl)" by (rule finite_waiting [OF ids])
    have isub: "i \<in> set (cl_subs cl)" if "c = d" using o(8) [of i] wrt that by simp
    show ?thesis
    proof (rule conn_invI)
      show "loc c j ?cl \<le> 1" for j
        using o(1) [of j] wrt stale fresh by (auto simp: loc_def w cl' split: if_splits)
      show "subInFlight ?cl = int (slots c ?cl)"
        using o(2) wrt stale fresh fin by (auto simp: slots_def w cl')
      show "covered c j ?cl" if "j \<in> set (cl_subs ?cl)" for j
        using that o(6) [of j] wrt out fl by (auto simp: covered_def wr cl')
      show "has_base c j ?cl" if "j \<in> set (cl_subs ?cl)" for j
        using that o(7) [of j] stale by (auto simp: has_base_def wr cl' waiting_def)
      show "waiting c ?cl = {}" if "(b, j) \<in> set (cl_writing ?cl)" "b \<noteq> c" for b j
      proof -
        have "waiting c cl = {}" using that wrt o(9) [of "(b, j)"] by (simp add: cl')
        moreover have "d = b" using ids wrt that one_connD(2) by (auto simp: cl' ids_ok_def)
        ultimately have "waiting c cl = {}" "c \<noteq> d" using that by auto
        then show ?thesis by (simp add: w)
      qed
      show "wire_for c j ?cl = [] \<or> snd (last (wire_for c j ?cl)) = OutUnsubscribe j" if "j \<notin> set (cl_subs ?cl)" for j
        using that o(10) [of j] isub by (auto simp: wf cl')
    qed (use o(3-5,8) wrt in \<open>auto simp: cl'\<close>)
  qed
  then show ?thesis using inv ids' by (simp add: client_inv_def cl')
qed

lemma clear_resend_inv: "client_inv cl \<Longrightarrow> client_inv (upd_sub i (\<lambda>s. s\<lparr>resend := b\<rparr>) cl)"
  by (rule upd_sub_inv) auto

text \<open>The read loop's slot goes back to the subscription for a re-send, or is released.\<close>

lemma answered_inv:
  assumes inv: "client_inv cl" and ans: "cl_answered cl = xs @ (d, i) # ys" and free: "cl_writing cl = []"
  shows "client_inv (answered d i (cl\<lparr>cl_answered := xs @ ys\<rparr>))" (is "client_inv ?cl")
proof -
  let ?b = "resend (cl_sub cl i) \<and> i \<in> set (cl_subs cl) \<and> cl_conn cl = Some d"
  let ?cl1 = "cl\<lparr>cl_answered := xs @ ys, cl_writing := (if ?b then [(d, i)] else []), cl_owed := cl_owed cl @ (if ?b then [] else [d])\<rparr>"
  have eq: "?cl = upd_sub i (\<lambda>s. s\<lparr>resend := False\<rparr>) ?cl1"
    using free by (simp add: answered_def Let_def upd_sub_def)
  have w: "waiting c ?cl1 = waiting c cl" for c by (simp add: waiting_def)
  have wr: "written c j ?cl1 = written c j cl" for c j by (simp add: written_def)
  have "ids_ok ?cl1" using inv ans by (auto simp: client_inv_def ids_ok_def)
  moreover have "conn_inv c ?cl1" if c: "cl_conn cl = Some c" for c
  proof -
    have "conn_inv c cl" using inv c by (simp add: client_inv_def)
    note o = conn_invD [OF this]
    show ?thesis
    proof (rule conn_invI)
      show "loc c j ?cl1 \<le> 1" for j using o(1) [of j] ans free by (auto simp: loc_def w split: if_splits)
      show "subInFlight ?cl1 = int (slots c ?cl1)" using o(2) ans free by (auto simp: slots_def w)
      show "covered c j ?cl1" if "j \<in> set (cl_subs ?cl1)" for j
        using that o(6) [of j] free by (auto simp: covered_def wr)
      show "has_base c j ?cl1" if "j \<in> set (cl_subs ?cl1)" for j
        using that o(7) [of j] by (simp add: has_base_def wr)
      show "waiting c ?cl1 = {}" if "(b, j) \<in> set (cl_writing ?cl1)" "b \<noteq> c" for b j
        using that c by (auto split: if_splits)
    qed (use o(3-5,10) in \<open>auto simp: wire_for_def split: if_splits\<close>)
  qed
  ultimately have "client_inv ?cl1" using inv by (simp add: client_inv_def)
  then show ?thesis unfolding eq by (rule clear_resend_inv)
qed

lemma fill_slots_split:
  assumes "set q \<subseteq> set subs" "fill_slots subs n q = (m, q', ns)" "n \<le> 64"
  shows "q = ns @ q' \<and> m = n + int (length ns) \<and> m \<le> 64 \<and> (q' \<noteq> [] \<longrightarrow> m = 64)"
  using assms
proof (induction subs n q arbitrary: m q' ns rule: fill_slots.induct)
  case (2 subs n i q)
  show ?case
  proof (cases "n < maxSubscribesInFlight")
    case True
    obtain m1 q1 n1 where r: "fill_slots subs (n + 1) q = (m1, q1, n1)" by (metis prod_cases3)
    have "i \<in> set subs" "set q \<subseteq> set subs" using "2.prems"(1) by simp_all
    moreover have "n + 1 \<le> 64" using True by (simp add: maxSubscribesInFlight_def)
    ultimately have "q = n1 @ q1 \<and> m1 = n + 1 + int (length n1) \<and> m1 \<le> 64 \<and> (q1 \<noteq> [] \<longrightarrow> m1 = 64)"
      using "2.IH"(2) [OF True _ _ r] by blast
    moreover have "m = m1" "q' = q1" "ns = i # n1" using "2.prems"(2) True r \<open>i \<in> set subs\<close> by auto
    ultimately show ?thesis by auto
  next
    case False
    then show ?thesis using "2.prems"(2,3) by (auto simp: maxSubscribesInFlight_def)
  qed
qed simp

lemma releaseSubSlot_inv:
  assumes inv: "client_inv cl" and owed: "cl_owed cl = xs @ d # ys" and free: "cl_writing cl = []"
  shows "client_inv (releaseSubSlot d (cl\<lparr>cl_owed := xs @ ys\<rparr>))" (is "client_inv ?cl")
proof (cases "cl_conn cl = Some d")
  case False
  have "conn_inv c (cl\<lparr>cl_owed := xs @ ys\<rparr>)" if "conn_inv c cl" "c \<noteq> d" for c
    using that owed by (auto simp: conn_inv_def loc_def slots_def waiting_def covered_def has_base_def written_def wire_for_def)
  then show ?thesis using inv False by (auto simp: releaseSubSlot_def client_inv_def ids_ok_def)
next
  case True
  then have old: "conn_inv d cl" using inv by (simp add: client_inv_def)
  note o = conn_invD [OF old]
  obtain m q ns where fs: "fill_slots (cl_subs cl) (subInFlight cl - 1) (subQueue cl) = (m, q, ns)" by (metis prod_cases3)
  have f: "subQueue cl = ns @ q" "m = subInFlight cl - 1 + int (length ns)" "m \<le> 64" "q \<noteq> [] \<longrightarrow> m = 64"
    using fill_slots_split [OF _ fs] o(3,5) by auto
  have cl': "?cl = cl\<lparr>cl_owed := xs @ ys, subInFlight := m, subQueue := q, cl_writing := map (Pair d) ns\<rparr>"
    using True fs by (simp add: releaseSubSlot_def)
  have nsub: "set ns \<subseteq> set (cl_subs cl)" using o(5) f(1) by auto
  have w: "waiting c ?cl = waiting c cl" for c by (simp add: cl' waiting_def)
  have wr: "written c j ?cl = written c j cl" for c j by (simp add: cl' written_def)
  have "ids_ok ?cl" using inv nsub unfolding client_inv_def cl' by (auto simp: ids_ok_def)
  moreover have "conn_inv d ?cl"
  proof (rule conn_invI)
    show "loc d j ?cl \<le> 1" for j
      using o(1) [of j] f(1) free unfolding loc_def w by (simp add: cl' split: if_splits)
    show "subInFlight ?cl = int (slots d ?cl)" using o(2) owed f(2) free by (simp add: slots_def w) (simp add: cl')
    show "covered d j ?cl" if "j \<in> set (cl_subs ?cl)" for j
      using that o(6) [of j] f(1) free unfolding covered_def wr by (auto simp: cl')
    show "has_base d j ?cl" if "j \<in> set (cl_subs ?cl)" for j
      using that o(7) [of j] unfolding has_base_def wr by (simp add: cl')
    show "waiting d ?cl = {}" if "(b, j) \<in> set (cl_writing ?cl)" "b \<noteq> d" for b j
      using that by (auto simp: cl')
    show "wire_for d j ?cl = [] \<or> snd (last (wire_for d j ?cl)) = OutUnsubscribe j" if "j \<notin> set (cl_subs ?cl)" for j
      using that o(10) [of j] by (simp add: cl' wire_for_def)
  qed (use o(5) f nsub in \<open>auto simp: cl'\<close>)
  ultimately show ?thesis using inv True by (simp add: client_inv_def cl')
qed

section \<open>Ending a subscription\<close>

text \<open>
  The section of \<open>end\<close> under the locks: the subscription leaves the table and the queue, and its
  unsubscribe frame goes out.
\<close>

lemma drop_sub_inv:
  assumes inv: "client_inv cl" and free: "cl_writing cl = []" and iss: "issued i (cl_nextID cl)"
  shows "client_inv (cl\<lparr>cl_subs := removeAll i (cl_subs cl), subQueue := remove1 i (subQueue cl),
    cl_wire := cl_wire cl @ (case cl_conn cl of None \<Rightarrow> [] | Some c \<Rightarrow> [(c, OutUnsubscribe i)])\<rparr>)" (is "client_inv ?cl")
proof -
  have w: "waiting c ?cl = waiting c cl" for c by (simp add: waiting_def)
  have wr: "written c j ?cl = written c j cl" for c j by (auto simp: written_def split: option.splits)
  have wf: "wire_for c j ?cl = wire_for c j cl @ (if cl_conn cl = Some c \<and> j = i then [(c, OutUnsubscribe i)] else [])" for c j
    by (auto simp: wire_for_def split: option.splits)
  have "ids_ok ?cl" using inv iss by (auto simp: client_inv_def ids_ok_def distinct_removeAll split: option.splits)
  moreover have "conn_inv c ?cl" if c: "cl_conn cl = Some c" for c
  proof -
    have "conn_inv c cl" using inv c by (simp add: client_inv_def)
    note o = conn_invD [OF this]
    have cnt: "count_list (remove1 i q) j \<le> count_list q j" for q and j :: string
      by (induction q) auto
    have gone: "i \<notin> set (remove1 i (subQueue cl))"
      using o(1) [of i] by (intro count_remove1_le) (simp add: loc_def split: if_splits)
    show ?thesis
    proof (rule conn_invI)
      show "loc c j ?cl \<le> 1" for j using o(1) [of j] cnt [of "subQueue cl" j] unfolding loc_def w by (simp split: if_splits)
      show "subInFlight ?cl = int (slots c ?cl)" using o(2) unfolding slots_def w by simp
      show "covered c j ?cl" if "j \<in> set (cl_subs ?cl)" for j
        using that o(6) [of j] unfolding covered_def wr by (auto simp: in_set_remove1)
      show "has_base c j ?cl" if "j \<in> set (cl_subs ?cl)" for j
        using that o(7) [of j] unfolding has_base_def wr by simp
      show "j \<in> set (cl_subs ?cl)" if "j \<in> set (subQueue ?cl)" for j
        using that o(5) [of j] gone set_remove1_subset [of i "subQueue cl"] by auto
      show "subInFlight ?cl = 64" if "subQueue ?cl \<noteq> []" using o(4) that by (cases "subQueue cl") auto
      show "wire_for c j ?cl = [] \<or> snd (last (wire_for c j ?cl)) = OutUnsubscribe j" if "j \<notin> set (cl_subs ?cl)" for j
        using that o(10) [of j] c unfolding wf by auto
    qed (use o(3) free in auto)
  qed
  ultimately show ?thesis using inv by (simp add: client_inv_def)
qed

lemma sub_end_inv:
  assumes inv: "client_inv cl" and free: "cl_writing cl = []" and iss: "issued i (cl_nextID cl)"
  shows "client_inv (sub_end i cl)"
proof -
  let ?cl = "cl\<lparr>cl_subs := removeAll i (cl_subs cl), subQueue := remove1 i (subQueue cl),
    cl_wire := cl_wire cl @ (case cl_conn cl of None \<Rightarrow> [] | Some c \<Rightarrow> [(c, OutUnsubscribe i)])\<rparr>"
  have d: "client_inv ?cl" by (rule drop_sub_inv [OF assms])
  show ?thesis
  proof (cases "awaiting (cl_sub cl i)")
    case None
    then have "sub_end i cl = upd_sub i (\<lambda>s. s) ?cl"
      by (cases "cl_sub cl i") (auto simp: sub_end_def Let_def takeAwaiting_def upd_sub_def write_out_def split: option.splits)
    then show ?thesis using d by (simp add: upd_sub_def)
  next
    case (Some a)
    then have "sub_end i cl = (upd_sub i (\<lambda>s. s\<lparr>awaiting := None\<rparr>) ?cl)\<lparr>cl_owed := cl_owed ?cl @ [a]\<rparr>"
      by (auto simp: sub_end_def Let_def takeAwaiting_def upd_sub_def write_out_def split: option.splits)
    then show ?thesis using slot_to_release [OF d, of i a] Some by simp
  qed
qed

section \<open>Connections coming and going\<close>

lemma fresh_conn_counts:
  assumes "fresh_conn c cl"
  shows "count_list (cl_todo cl) (c, i) = 0" "count_list (cl_writing cl) (c, i) = 0" "count_list (cl_answered cl) (c, i) = 0"
    "count_list (cl_owed cl) c = 0" "on_conn c (cl_writing cl) = 0" "on_conn c (cl_answered cl) = 0"
    "wire_for c i cl = []" "\<not> written c i cl" "waiting c cl = {}" "(c, i) \<notin> set (cl_writing cl)"
  using assms by (force simp: fresh_conn_def count_list_0_iff on_conn_def wire_for_def written_def filter_empty_conv)+

lemma setState_inv: "client_inv (setState s cl) = client_inv cl"
  by (simp add: setState_def client_inv_def ids_ok_def conn_inv_def loc_def slots_def waiting_def covered_def has_base_def
      written_def wire_for_def)

lemma markConnected_inv:
  assumes inv: "client_inv cl" and fresh: "fresh_conn c cl"
  shows "client_inv (fst (markConnected c cl))"
proof (cases "cl_closed cl")
  case True
  then show ?thesis using inv by (simp add: markConnected_def)
next
  case False
  let ?cl = "cl\<lparr>cl_conn := Some c, subInFlight := 0, subQueue := [], cl_todo := cl_todo cl @ map (Pair c) (cl_subs cl)\<rparr>"
  note z = fresh_conn_counts [OF fresh]
  have ids: "ids_ok cl" using inv by (simp add: client_inv_def)
  have w: "waiting d ?cl = waiting d cl" for d by (simp add: waiting_def)
  have wr: "written d j ?cl = written d j cl" for d j by (simp add: written_def)
  have "ids_ok ?cl" using ids by (auto simp: ids_ok_def)
  moreover have "conn_inv c ?cl"
  proof (rule conn_invI)
    have "count_list (cl_subs cl) j \<le> 1" for j
      using ids by (simp add: ids_ok_def count_list_distinct del: One_nat_def)
    then show "loc c j ?cl \<le> 1" for j using z by (simp add: loc_def w)
    show "covered c j ?cl" if "j \<in> set (cl_subs ?cl)" for j using that by (simp add: covered_def)
    show "has_base c j ?cl" if "j \<in> set (cl_subs ?cl)" for j using z(8) by (simp add: has_base_def wr)
    show "wire_for c j ?cl = [] \<or> snd (last (wire_for c j ?cl)) = OutUnsubscribe j" for j
      using z(7) by (simp add: wire_for_def)
  qed (use z in \<open>auto simp: slots_def w\<close>)
  ultimately have "client_inv ?cl" using False by (simp add: client_inv_def)
  then show ?thesis using False by (simp add: markConnected_def setState_inv)
qed

text \<open>Without a current connection only the bookkeeping of IDs matters.\<close>

lemma no_conn_inv: "cl_conn cl = None \<Longrightarrow> client_inv cl = ids_ok cl"
  by (simp add: client_inv_def)

lemma fold_upd_sub_ids:
  assumes "ids_ok cl" "\<And>s. awaiting (f s) \<noteq> None \<Longrightarrow> awaiting s \<noteq> None"
  shows "ids_ok (fold (\<lambda>i. upd_sub i f) is cl)"
  using assms(1)
proof (induction "is" arbitrary: cl)
  case (Cons i "is")
  have "ids_ok (upd_sub i f cl)" using Cons.prems assms(2) [of "cl_sub cl i"] by (auto simp: ids_ok_def)
  then show ?case using Cons.IH by simp
qed simp

lemma fold_upd_sub_conn: "cl_conn (fold (\<lambda>i. upd_sub i f) is cl) = cl_conn cl"
  by (induction "is" arbitrary: cl) simp_all

lemma upd_stream_ids: "ids_ok (upd_stream i f cl) = ids_ok cl"
  by (simp add: ids_ok_def upd_stream_def)

lemma fold_upd_stream_ids: "ids_ok (fold (\<lambda>i. upd_stream i f) is cl) = ids_ok cl"
  by (induction "is" arbitrary: cl) (simp_all add: upd_stream_ids)

lemma fold_upd_stream_conn: "cl_conn (fold (\<lambda>i. upd_stream i f) is cl) = cl_conn cl"
  by (induction "is" arbitrary: cl) simp_all

lemma markDisconnected_inv:
  assumes inv: "client_inv cl"
  shows "client_inv (markDisconnected c cause cl)"
proof (cases "cl_conn cl = Some c")
  case False
  then show ?thesis using inv by (simp add: markDisconnected_def)
next
  case True
  let ?cl1 = "cl\<lparr>cl_conn := None, subInFlight := 0, subQueue := [], cl_pending := [], cl_streams := [],
    cl_results := cl_results cl @ map (\<lambda>(i, _). (i, CError (EConnectionLost cause))) (cl_pending cl)\<rparr>"
  let ?cl2 = "fold (\<lambda>i. upd_stream i (rs_end (Some (EConnectionLost cause)))) (cl_streams cl) ?cl1"
  let ?cl3 = "fold (\<lambda>i. upd_sub i connLost) (cl_subs cl) ?cl2"
  have "ids_ok ?cl1" using inv by (simp add: client_inv_def ids_ok_def)
  then have "ids_ok ?cl3" by (intro fold_upd_sub_ids) (simp_all add: fold_upd_stream_ids connLost_def)
  moreover have "cl_conn ?cl3 = None" by (simp add: fold_upd_sub_conn fold_upd_stream_conn)
  ultimately have "client_inv ?cl3" by (simp only: no_conn_inv)
  then show ?thesis using True by (simp add: markDisconnected_def Let_def setState_inv)
qed

lemma sub_close_ids:
  "ids_ok cl \<Longrightarrow> issued i (cl_nextID cl) \<Longrightarrow> ids_ok (sub_close i err cl)"
  "cl_conn (sub_close i err cl) = cl_conn cl" "cl_nextID (sub_close i err cl) = cl_nextID cl"
  by (auto simp: sub_close_def ids_ok_def)

lemma state_ids: "ids_ok (cl\<lparr>cl_state := s, cl_changes := x\<rparr>) = ids_ok cl"
  by (simp add: ids_ok_def)

lemma shutdown_inv:
  assumes inv: "client_inv cl"
  shows "client_inv (shutdown err cl)"
proof (cases "cl_closed cl")
  case True
  then show ?thesis using inv by (simp add: shutdown_def)
next
  case False
  let ?cl1 = "cl\<lparr>cl_closed := True, cl_closeErr := Some err, cl_conn := None, cl_pending := [], cl_streams := [],
              cl_subs := [], cl_results := cl_results cl @ map (\<lambda>(i, _). (i, CError err)) (cl_pending cl)\<rparr>"
  let ?cl2 = "fold (\<lambda>i. upd_stream i (rs_end (Some err))) (cl_streams cl) ?cl1"
  have "ids_ok ?cl1" using inv by (simp add: client_inv_def ids_ok_def)
  then have base: "ids_ok ?cl2 \<and> cl_conn ?cl2 = None \<and> cl_nextID ?cl2 = cl_nextID cl" by (simp add: fold_upd_stream_ids fold_upd_stream_conn)
  have "ids_ok (fold (\<lambda>i. sub_close i (Some err)) is ?cl2) \<and> cl_conn (fold (\<lambda>i. sub_close i (Some err)) is ?cl2) = None \<and>
      cl_nextID (fold (\<lambda>i. sub_close i (Some err)) is ?cl2) = cl_nextID cl" if "\<forall>i\<in>set is. issued i (cl_nextID cl)" for "is"
    using that by (induction "is" rule: rev_induct) (simp_all add: base sub_close_ids)
  moreover have "\<forall>i\<in>set (cl_subs cl). issued i (cl_nextID cl)" using inv by (simp add: client_inv_def ids_ok_def)
  ultimately show ?thesis using False by (simp add: shutdown_def Let_def no_conn_inv state_ids)
qed

section \<open>Frames from the server\<close>

lemma subs_issued: "client_inv cl \<Longrightarrow> i \<in> set (cl_subs cl) \<Longrightarrow> issued i (cl_nextID cl)"
  by (simp add: client_inv_def ids_ok_def)

lemma clear_awaiting_id: "awaiting (cl_sub cl i) = None \<Longrightarrow> upd_sub i (\<lambda>s. s\<lparr>awaiting := None\<rparr>) cl = cl"
  by (cases "cl_sub cl i") (simp add: upd_sub_def fun_upd_idem)

lemma sub_deliver_fields:
  "awaiting (cl_sub (sub_deliver e i d cl) j) = awaiting (cl_sub cl j)" "cl_subs (sub_deliver e i d cl) = cl_subs cl"
  "cl_nextID (sub_deliver e i d cl) = cl_nextID cl"
  "su_closed (cl_sub (sub_deliver e i d cl) i) \<or> \<not> su_patch (cl_sub (sub_deliver e i d cl) i) \<or>
   su_cur (cl_sub (sub_deliver e i d cl) i) \<noteq> None"
  by (auto simp: sub_deliver_def sub_close_def split: sum.splits)

lemma deliverResult_inv:
  assumes inv: "client_inv cl"
  shows "client_inv (deliverResult e i d cl)"
proof -
  have "client_inv (case takeAwaiting i (sub_deliver e i d cl) of
      (cl1, Some aw) \<Rightarrow> cl1\<lparr>cl_answered := cl_answered cl1 @ [(aw, i)]\<rparr> | (cl1, None) \<Rightarrow> cl1)" if i: "i \<in> set (cl_subs cl)"
  proof -
    let ?cl = "sub_deliver e i d cl"
    have di: "client_inv ?cl" by (rule sub_deliver_inv [OF inv subs_issued [OF inv i]])
    show ?thesis
    proof (cases "awaiting (cl_sub ?cl i)")
      case None
      then show ?thesis using di by (simp add: takeAwaiting_def clear_awaiting_id)
    next
      case (Some a)
      then show ?thesis
        using slot_to_read_loop [OF di Some sub_deliver_fields(4)] by (simp add: takeAwaiting_def)
    qed
  qed
  then show ?thesis using inv by (simp add: deliverResult_def inv_bookkeeping)
qed

lemma close_order:
  "s\<lparr>awaiting := None, su_closed := True, su_err := x, su_cur := None\<rparr> =
   s\<lparr>su_closed := True, su_err := x, su_cur := None, awaiting := None\<rparr>"
  by (cases s) simp

lemma handleError_inv:
  assumes inv: "client_inv cl"
  shows "client_inv (handleError e c i code msg d cl)"
proof -
  have "client_inv (case takeAwaiting i cl of
      (cl1, Some aw) \<Rightarrow> sub_close i (Some err) (cl1\<lparr>cl_owed := cl_owed cl1 @ [aw]\<rparr>) | (cl1, None) \<Rightarrow> cl1)"
    if i: "i \<in> set (cl_subs cl)" for err
  proof (cases "awaiting (cl_sub cl i)")
    case None
    then show ?thesis using inv by (simp add: takeAwaiting_def clear_awaiting_id)
  next
    case (Some a)
    have ci: "client_inv (sub_close i (Some err) cl)" by (rule sub_close_inv [OF inv subs_issued [OF inv i]])
    have "sub_close i (Some err) ((upd_sub i (\<lambda>s. s\<lparr>awaiting := None\<rparr>) cl)\<lparr>cl_owed := cl_owed cl @ [a]\<rparr>) =
      (upd_sub i (\<lambda>s. s\<lparr>awaiting := None\<rparr>) (sub_close i (Some err) cl))\<lparr>cl_owed := cl_owed (sub_close i (Some err) cl) @ [a]\<rparr>"
      by (cases cl) (simp add: sub_close_def upd_sub_def close_order)
    moreover have "awaiting (cl_sub (sub_close i (Some err) cl) i) = Some a" "su_closed (cl_sub (sub_close i (Some err) cl) i)"
      using Some by (auto simp: sub_close_def)
    ultimately show ?thesis using slot_to_release [OF ci, of i a] Some by (simp add: takeAwaiting_def)
  qed
  then show ?thesis using inv by (simp add: handleError_def Let_def inv_bookkeeping shutdown_inv)
qed

lemma patch_frame_inv:
  assumes inv: "client_inv cl" and ok: "server_ok c (SubscriptionPatchMessage i p) cl"
  shows "client_inv (handleFrame e c (SubscriptionPatchMessage i p) cl)"
proof (cases "i \<in> set (cl_subs cl)")
  case True
  then have c: "cl_conn cl = Some c" "written c i cl" "su_patch (cl_sub cl i)" using ok by auto
  then have hb: "has_base c i cl" using inv True conn_invD(7) by (auto simp: client_inv_def)
  show ?thesis
  proof (cases "snd (sub_patch e i p cl)")
    case T: True
    then obtain cl1 where r: "sub_patch e i p cl = (cl1, True)" by (cases "sub_patch e i p cl") auto
    then have "client_inv cl1" using sub_patch_inv [OF inv subs_issued [OF inv True], of e p] by simp
    then show ?thesis using True r by simp
  next
    case F: False
    then have r: "sub_patch e i p cl = (cl, False)" "\<not> su_closed (cl_sub cl i)" "su_cur (cl_sub cl i) = None"
      using c(3) by (auto simp: sub_patch_def Let_def split: if_splits option.splits sum.splits)
    then have "awaiting (cl_sub cl i) = Some c" using hb c by (auto simp: has_base_def)
    then show ?thesis using r True inv by (simp add: resubscribe_def clear_resend_inv)
  qed
qed (use inv in simp)

lemma dispatchPush_inv: "client_inv cl \<Longrightarrow> client_inv (dispatchPush event d cl)"
proof -
  have "client_inv cl \<Longrightarrow> client_inv (fold (\<lambda>h cl. cl\<lparr>cl_handler := (cl_handler cl)(h := ph_enqueue d (cl_handler cl h))\<rparr>) hs cl)" for hs
    by (induction hs arbitrary: cl) (simp_all add: inv_bookkeeping)
  then show "client_inv cl \<Longrightarrow> client_inv (dispatchPush event d cl)" by (simp add: dispatchPush_def)
qed

lemma handleFrame_inv:
  assumes inv: "client_inv cl" and ok: "server_ok c f cl"
  shows "client_inv (handleFrame e c f cl)"
proof (cases f)
  case (SubscriptionPatchMessage i p)
  then show ?thesis using patch_frame_inv [OF inv] ok by simp
next
  case (AuthError msg timeout)
  then show ?thesis using inv by (simp add: inv_bookkeeping shutdown_inv split: prod.splits)
next
  case (ProgressMessage i cur tot msg)
  then show ?thesis using inv by (simp add: inv_bookkeeping split: option.splits bool.splits)
qed (use inv in \<open>simp_all add: inv_bookkeeping deliverResult_inv handleError_inv dispatchPush_inv call_ops_inv(7)\<close>)

lemma drop_failing_inv:
  assumes inv: "client_inv cl" and f: "cl_failing cl = xs @ (i, err) # ys" and cl: "su_closed (cl_sub cl i)"
  shows "client_inv (cl\<lparr>cl_failing := xs @ ys\<rparr>)" (is "client_inv ?cl")
proof -
  have "conn_inv c ?cl" if "conn_inv c cl" for c
  proof -
    note o = conn_invD [OF that]
    show ?thesis
    proof (rule conn_invI)
      show "loc c j ?cl \<le> 1" for j using o(1) [of j] by (simp add: loc_def waiting_def)
      show "covered c j ?cl" if "j \<in> set (cl_subs ?cl)" for j
        using that o(6) [of j] f cl by (auto simp: covered_def written_def)
      show "has_base c j ?cl" if "j \<in> set (cl_subs ?cl)" for j
        using that o(7) [of j] by (simp add: has_base_def written_def)
      show "waiting c ?cl = {}" if "(b, j) \<in> set (cl_writing ?cl)" "b \<noteq> c" for b j
        using o(9) [of "(b, j)"] that by (simp add: waiting_def)
    qed (use o(2-5,8,10) in \<open>auto simp: slots_def waiting_def wire_for_def\<close>)
  qed
  then show ?thesis using inv f by (auto simp: client_inv_def ids_ok_def)
qed

lemma client_inv_step: "client_step e cl cl' \<Longrightarrow> client_inv cl \<Longrightarrow> client_inv cl'"
proof (induction rule: client_step.induct)
  case (cs_send cl xs c i ys)
  then show ?case by (simp add: sendSubscribe_inv)
next
  case (cs_write cl c i ws)
  then show ?case by (simp add: writeSubscribe_inv)
next
  case (cs_answered cl xs c i ys)
  then show ?case by (simp add: answered_inv)
next
  case (cs_release cl xs c ys)
  then show ?case by (simp add: releaseSubSlot_inv)
next
  case (cs_fail cl xs i err ys)
  have "client_inv (sub_close i (Some err) cl)" using cs_fail by (intro sub_close_inv) (auto simp: client_inv_def ids_ok_def)
  moreover have "su_closed (cl_sub (sub_close i (Some err) cl) i)" by (simp add: sub_close_def)
  moreover have "cl_failing (sub_close i (Some err) cl) = xs @ (i, err) # ys" using cs_fail by (simp add: sub_close_def)
  moreover have "sub_close i (Some err) (cl\<lparr>cl_failing := xs @ ys\<rparr>) = (sub_close i (Some err) cl)\<lparr>cl_failing := xs @ ys\<rparr>"
    by (simp add: sub_close_def upd_sub_def)
  ultimately show ?case using drop_failing_inv by metis
next
  case (cs_close i cl err)
  then show ?case by (simp add: sub_close_inv subs_issued)
next
  case (cs_end cl xs i ys)
  have "\<forall>j\<in>set (xs @ i # ys). issued j (cl_nextID cl)" using cs_end unfolding client_inv_def ids_ok_def by metis
  then show ?case using cs_end by (intro sub_end_inv ending_inv) auto
next
  case (cs_connect cl c)
  then show ?case by (simp add: markConnected_inv)
next
  case (cs_frame c f cl)
  then show ?case by (simp add: handleFrame_inv)
qed (simp_all add: call_ops_inv Subscribe_inv markDisconnected_inv shutdown_inv inv_bookkeeping OnPush_def OnPush_remove_def)

interpretation client_ts: trans_sys "\<lambda>cl. cl = new_client" "client_step e" client_inv
proof
  show "client_inv cl" if "cl = new_client" for cl
    using that by (simp add: new_client_def new_sub_def client_inv_def ids_ok_def)
qed (rule client_inv_step)

section \<open>Properties\<close>

lemma client_reach:
  assumes "(client_step e)\<^sup>*\<^sup>* new_client cl" "cl_conn cl = Some c"
  shows "conn_inv c cl"
  using client_ts.inv_reachable [OF refl assms(1)] assms(2) by (simp add: client_inv_def)

text \<open>
  Property C12. The slots of subscribe frames never leak and never overflow: in every reachable state with a
  current connection, the counter is the number of frames without an answer plus the slots that
  some goroutine is about to use or to free, and at most \<open>maxSubscribesInFlight\<close> frames wait for their
  first answer, however subscribing, answers, errors, patches, closing and reconnecting interleave.
\<close>

theorem subscribe_slots_exact:
  assumes "(client_step e)\<^sup>*\<^sup>* new_client cl" "cl_conn cl = Some c"
  shows "subInFlight cl = int (card (waiting c cl)) + int (on_conn c (cl_writing cl)) + int (on_conn c (cl_answered cl)) +
      int (count_list (cl_owed cl) c) \<and>
    subInFlight cl \<le> maxSubscribesInFlight \<and> int (card (waiting c cl)) \<le> maxSubscribesInFlight"
  using conn_invD(2,3) [OF client_reach [OF assms]] by (auto simp: slots_def maxSubscribesInFlight_def)


text \<open>
  The server is never left with a subscription the client dropped: once a subscription has left the
  client's table, the last of its subscribe and unsubscribe frames on the current connection is the
  unsubscribe, although closing races the re-sends after a reconnect.
\<close>

theorem unsubscribe_is_last:
  assumes "(client_step e)\<^sup>*\<^sup>* new_client cl" "cl_conn cl = Some c" "i \<notin> set (cl_subs cl)" "written c i cl"
  shows "snd (last (wire_for c i cl)) = OutUnsubscribe i"
proof -
  have "wire_for c i cl \<noteq> []" using assms(4) by (force simp: written_def wire_for_def filter_empty_conv)
  then show ?thesis using conn_invD(10) [OF client_reach [OF assms(1,2)] assms(3)] by blast
qed

text \<open>A run: connect, subscribe, send; then close the subscription.\<close>

definition env0 :: "int client_env" where
  "env0 = \<lparr>ce_hasToken = False, ce_retryRejected = False, ce_noReconnect = False, ce_decode = (\<lambda>i d. Inr 0),
     ce_apply = (\<lambda>i v p. Inr (v + p)), ce_tooLarge = (\<lambda>f. False)\<rparr>"

definition run_a :: "int client" where "run_a = fst (Subscribe ''Rows.List'' [] False (fst (markConnected 1 new_client)))"
definition run_b :: "int client" where "run_b = sendSubscribe 1 ''1'' (run_a\<lparr>cl_todo := []\<rparr>)"
definition run_c :: "int client" where "run_c = writeSubscribe env0 1 ''1'' (run_b\<lparr>cl_writing := []\<rparr>)"
definition run_d :: "int client" where "run_d = sub_end ''1'' ((sub_close ''1'' None run_c)\<lparr>cl_ending := []\<rparr>)"

lemma nat_str_1: "nat_str (Suc 0) = ''1''"
  by code_simp

lemmas run_defs = run_a_def run_b_def run_c_def run_d_def markConnected_def new_client_def Subscribe_def newID_def Let_def
  setState_def sendSubscribe_def writeSubscribe_def subscribe_frame_def env0_def maxSubscribesInFlight_def nat_str_1
  new_sub_def sub_close_def sub_end_def takeAwaiting_def

lemma run_a_facts: "cl_todo run_a = [(1, ''1'')]" "cl_writing run_a = []"
  by (simp_all add: run_defs)

lemma run_b_facts: "cl_writing run_b = [(1, ''1'')]"
  by (simp add: run_defs)

lemma run_c_facts: "cl_subs run_c = [''1'']" "cl_conn run_c = Some 1" "\<not> su_closed (cl_sub run_c ''1'')" "cl_failing run_c = []"
    "cl_writing run_c = []" "cl_ending run_c = []" "awaiting (cl_sub run_c ''1'') = Some 1" "subInFlight run_c = 1"
  by (simp_all add: run_defs)

lemma run_d_facts: "cl_subs run_d = []" "cl_conn run_d = Some 1" "written 1 ''1'' run_d"
  by (auto simp: run_defs written_def)

lemma reach_run_c: "(client_step env0)\<^sup>*\<^sup>* new_client run_c"
proof -
  have "client_step env0 new_client (fst (markConnected 1 new_client))"
    by (rule cs_connect) (simp_all add: new_client_def new_sub_def fresh_conn_def waiting_def)
  moreover have "client_step env0 (fst (markConnected 1 new_client)) run_a"
    unfolding run_a_def by (rule cs_subscribe)
  moreover have "client_step env0 run_a run_b"
    unfolding run_b_def using cs_send [of run_a "[]" 1 "''1''" "[]" env0] by (simp add: run_a_facts)
  moreover have "client_step env0 run_b run_c"
    unfolding run_c_def by (rule cs_write) (simp add: run_b_facts)
  ultimately show ?thesis by (meson converse_rtranclp_into_rtranclp rtranclp.rtrancl_refl)
qed

lemma reach_run_d: "(client_step env0)\<^sup>*\<^sup>* new_client run_d"
proof -
  have "client_step env0 run_c (sub_close ''1'' None run_c)" by (rule cs_close) (simp add: run_c_facts)
  moreover have "client_step env0 (sub_close ''1'' None run_c) run_d"
    unfolding run_d_def using cs_end [of "sub_close ''1'' None run_c" "[]" "''1''" "[]" env0]
    by (simp add: run_c_facts sub_close_def)
  ultimately show ?thesis using reach_run_c by (meson rtranclp.rtrancl_into_rtrancl)
qed

theorem subscribe_slots_exact_witness:
  "int (card (waiting 1 run_c)) \<le> 64"
  using subscribe_slots_exact [OF reach_run_c run_c_facts(2)] by (simp add: maxSubscribesInFlight_def)


theorem unsubscribe_is_last_witness:
  "snd (last (wire_for 1 ''1'' run_d)) = OutUnsubscribe ''1''"
  using unsubscribe_is_last [OF reach_run_d run_d_facts(2), of "''1''"] run_d_facts by simp

end
