(* ===== verification/Aprot_ClientCalls.thy ===== *)
theory Aprot_ClientCalls
  imports Aprot_ClientSubs
begin

text \<open>
  What holds of the client's calls and streams in every run: a pending call is settled exactly once,
  by its response, by an error, by the loss of the connection or by its own caller; and a stream
  hands its consumer exactly the items the read loop received, in order.
\<close>

section \<open>Outcomes of calls\<close>

definition outcomes :: "string \<Rightarrow> 'v client \<Rightarrow> nat" where
  "outcomes i cl = count_list (map fst (cl_results cl)) i + count_list (map fst (cl_returned cl)) i"

definition pending :: "string \<Rightarrow> 'v client \<Rightarrow> bool" where
  "pending i cl \<longleftrightarrow> map_of (cl_pending cl) i \<noteq> None"

definition calls_inv :: "'v client \<Rightarrow> bool" where
  "calls_inv cl \<longleftrightarrow> gm_wf (cl_pending cl) \<and> (\<forall>i. pending i cl \<or> outcomes i cl > 0 \<longrightarrow> issued i (cl_nextID cl)) \<and>
     (\<forall>i. pending i cl \<longrightarrow> outcomes i cl = 0) \<and> (\<forall>i. outcomes i cl \<le> 1) \<and>
     (cl_conn cl = None \<longrightarrow> cl_pending cl = []) \<and> (cl_closed cl \<longrightarrow> cl_conn cl = None)"

text \<open>The ways an operation changes the calls: not at all, one is settled, all are, or one is added.\<close>

definition same_calls :: "'v client \<Rightarrow> 'v client \<Rightarrow> bool" where
  "same_calls cl cl' \<longleftrightarrow> cl_pending cl' = cl_pending cl \<and> (\<forall>i. outcomes i cl' = outcomes i cl) \<and>
     cl_nextID cl \<le> cl_nextID cl' \<and> (cl_conn cl' = None \<longrightarrow> cl_conn cl = None) \<and> (cl_closed cl' \<longrightarrow> cl_conn cl' = None)"

definition settles :: "string \<Rightarrow> 'v client \<Rightarrow> 'v client \<Rightarrow> bool" where
  "settles i cl cl' \<longleftrightarrow> pending i cl \<and> cl_pending cl' = AList.delete i (cl_pending cl) \<and> cl_nextID cl' = cl_nextID cl \<and>
     cl_conn cl' = cl_conn cl \<and> cl_closed cl' = cl_closed cl \<and>
     ((\<exists>r. cl_results cl' = cl_results cl @ [(i, r)]) \<and> cl_returned cl' = cl_returned cl \<or>
      (\<exists>x. cl_returned cl' = cl_returned cl @ [(i, x)]) \<and> cl_results cl' = cl_results cl)"

definition settles_all :: "'v client \<Rightarrow> 'v client \<Rightarrow> bool" where
  "settles_all cl cl' \<longleftrightarrow> cl_pending cl' = [] \<and> cl_returned cl' = cl_returned cl \<and> cl_nextID cl' = cl_nextID cl \<and> cl_conn cl' = None \<and>
     (\<exists>rs. cl_results cl' = cl_results cl @ rs \<and> map fst rs = map fst (cl_pending cl))"

definition registers :: "'v client \<Rightarrow> 'v client \<Rightarrow> bool" where
  "registers cl cl' \<longleftrightarrow> cl_nextID cl' = Suc (cl_nextID cl) \<and> cl_results cl' = cl_results cl \<and> cl_returned cl' = cl_returned cl \<and>
     (\<exists>b. cl_pending cl' = AList.update (nat_str (Suc (cl_nextID cl))) b (cl_pending cl)) \<and>
     cl_conn cl' = cl_conn cl \<and> cl_conn cl \<noteq> None \<and> cl_closed cl' = cl_closed cl"

definition call_rel :: "'v client \<Rightarrow> 'v client \<Rightarrow> bool" where
  "call_rel cl cl' \<longleftrightarrow> same_calls cl cl' \<or> (\<exists>i. settles i cl cl') \<or> settles_all cl cl' \<or> registers cl cl'"

lemma count_list_map_const: "gm_wf m \<Longrightarrow> count_list (map fst m) i = (if map_of m i = None then 0 else 1)"
  using count_list_distinct [of "map fst m" i] count_list_0_iff [of "map fst m" i]
  by (auto simp: gm_wf_def map_of_eq_None_iff)

lemma settles_outcomes: "settles i cl cl' \<Longrightarrow> outcomes j cl' = outcomes j cl + (if j = i then 1 else 0)"
  by (auto simp: settles_def outcomes_def)

lemma settles_pending: "settles i cl cl' \<Longrightarrow> pending j cl' \<longleftrightarrow> j \<noteq> i \<and> pending j cl"
  by (auto simp: settles_def pending_def)

lemma settles_all_outcomes:
  assumes "settles_all cl cl'" "gm_wf (cl_pending cl)"
  shows "outcomes j cl' = outcomes j cl + (if pending j cl then 1 else 0)"
  using assms count_list_map_const [of "cl_pending cl" j]
  by (auto simp: settles_all_def outcomes_def pending_def)

lemma settles_all_pending: "settles_all cl cl' \<Longrightarrow> \<not> pending j cl'"
  by (simp add: settles_all_def pending_def)

lemma calls_inv_rel:
  assumes "call_rel cl cl'" "calls_inv cl"
  shows "calls_inv cl'"
proof -
  note inv = assms(2) [unfolded calls_inv_def]
  consider "same_calls cl cl'" | i where "settles i cl cl'" | "settles_all cl cl'" | "registers cl cl'"
    using assms(1) unfolding call_rel_def by blast
  then show ?thesis
  proof cases
    case 1
    then have "pending j cl' = pending j cl" "outcomes j cl' = outcomes j cl" for j
      by (simp_all add: same_calls_def pending_def outcomes_def)
    then show ?thesis using 1 inv issued_mono unfolding calls_inv_def same_calls_def by metis
  next
    case (2 i)
    then show ?thesis using inv
      by (auto simp: calls_inv_def settles_outcomes [OF 2] settles_pending [OF 2]) (auto simp: settles_def)
  next
    case 3
    note o = settles_all_outcomes [OF 3] settles_all_pending [OF 3]
    from 3 show ?thesis using inv unfolding calls_inv_def
      by (auto simp: o settles_all_def)
  next
    case 4
    have p: "pending j cl' \<longleftrightarrow> j = nat_str (Suc (cl_nextID cl)) \<or> pending j cl" and oc: "outcomes j cl' = outcomes j cl" for j
      using 4 by (auto simp: registers_def pending_def outcomes_def)
    have new: "outcomes (nat_str (Suc (cl_nextID cl))) cl = 0" using inv issued_Suc [of "cl_nextID cl"] by auto
    have iss: "issued (nat_str (Suc n)) (Suc n)" for n by (auto simp: issued_def)
    have "issued j (cl_nextID cl')" if "pending j cl' \<or> outcomes j cl' > 0" for j
      using that 4 inv iss issued_SucI by (auto simp: p oc registers_def)
    moreover have "outcomes j cl' = 0" if "pending j cl'" for j using that inv new by (auto simp: p oc)
    moreover have "gm_wf (cl_pending cl')" using 4 inv gm_wf_update unfolding registers_def by metis
    ultimately show ?thesis using 4 inv unfolding calls_inv_def by (auto simp: oc registers_def)
  qed
qed

text \<open>A settled call stays settled, a pending one is settled at most once.\<close>

lemma call_rel_once:
  assumes "call_rel cl cl'" "calls_inv cl" "issued i (cl_nextID cl)"
    and "outcomes i cl = (if pending i cl then 0 else 1)"
  shows "outcomes i cl' = (if pending i cl' then 0 else 1) \<and> issued i (cl_nextID cl')"
proof -
  have "gm_wf (cl_pending cl)" using assms(2) by (simp add: calls_inv_def)
  note sa = settles_all_outcomes [OF _ this] settles_all_pending
  have ne: "i \<noteq> nat_str (Suc (cl_nextID cl))" using assms(3) issued_Suc by blast
  consider "same_calls cl cl'" | j where "settles j cl cl'" | "settles_all cl cl'" | "registers cl cl'"
    using assms(1) unfolding call_rel_def by blast
  then show ?thesis
  proof cases
    case 1
    then have "pending i cl' = pending i cl" "outcomes i cl' = outcomes i cl" "cl_nextID cl \<le> cl_nextID cl'"
      by (simp_all add: same_calls_def pending_def outcomes_def)
    then show ?thesis using assms(3,4) issued_mono by metis
  next
    case (2 j)
    then show ?thesis using assms(3,4) settles_outcomes [OF 2, of i] settles_pending [OF 2, of i]
      by (auto simp: settles_def)
  next
    case 3
    then show ?thesis using assms(3,4) sa(1) [OF 3, of i] sa(2) [OF 3, of i] by (simp add: settles_all_def)
  next
    case 4
    then have "pending i cl' = pending i cl" "outcomes i cl' = outcomes i cl" "issued i (cl_nextID cl')"
      using ne assms(3) by (auto simp: registers_def pending_def outcomes_def issued_SucI)
    then show ?thesis using assms(4) by simp
  qed
qed

section \<open>Every operation\<close>

lemma same_callsI: "call_part cl' = call_part cl \<Longrightarrow> calls_inv cl \<Longrightarrow> call_rel cl cl'"
  by (auto simp: call_rel_def same_calls_def call_part_def calls_inv_def outcomes_def)

text \<open>A result that is never received gives way to the error the caller returns.\<close>

lemma count_list_filter_ne: "count_list (map fst (filter (\<lambda>(j, _). j \<noteq> i) xs)) k = (if k = i then 0 else count_list (map fst xs) k)"
  by (induction xs) auto

lemma drop_result_call_rel:
  assumes inv: "calls_inv cl" and i: "i \<in> fst ` set (cl_results cl)"
  shows "call_rel cl (return_error i x (drop_result i cl))"
proof -
  have "outcomes i cl \<le> 1" using inv by (simp add: calls_inv_def)
  moreover have "count_list (map fst (cl_results cl)) i > 0" using i count_list_0_iff [of "map fst (cl_results cl)" i] by auto
  ultimately have "count_list (map fst (cl_results cl)) i = 1" "count_list (map fst (cl_returned cl)) i = 0"
    by (simp_all add: outcomes_def)
  then have "outcomes k (return_error i x (drop_result i cl)) = outcomes k cl" for k
    by (auto simp: outcomes_def return_error_def drop_result_def count_list_filter_ne)
  then show ?thesis using inv by (auto simp: call_rel_def same_calls_def calls_inv_def return_error_def drop_result_def)
qed

lemma sub_ops_call_part [simp]:
  "call_part (sub_close i err cl) = call_part cl" "call_part (sendSubscribe c i cl) = call_part cl"
  "call_part (writeSubscribe e c i cl) = call_part cl" "call_part (answered c i cl) = call_part cl"
  "call_part (releaseSubSlot c cl) = call_part cl" "call_part (sub_end i cl) = call_part cl"
  "call_part (sub_deliver e i d cl) = call_part cl" "call_part (fst (sub_patch e i p cl)) = call_part cl"
  "call_part (resubscribe c i cl) = call_part cl" "call_part (fst (takeAwaiting i cl)) = call_part cl"
  "call_part (OnPush event h cl) = call_part cl" "call_part (OnPush_remove event h cl) = call_part cl"
  by (auto simp: sub_close_def sendSubscribe_def writeSubscribe_def answered_def releaseSubSlot_def sub_end_def sub_deliver_def
      sub_patch_def resubscribe_def takeAwaiting_def OnPush_def OnPush_remove_def Let_def call_part_def upd_sub_def write_out_def
      split: prod.splits option.splits sum.splits bool.splits)

lemma bookkeeping_call_part [simp]:
  "call_part (cl\<lparr>cl_todo := a\<rparr>) = call_part cl" "call_part (cl\<lparr>cl_writing := a\<rparr>) = call_part cl"
  "call_part (cl\<lparr>cl_answered := a\<rparr>) = call_part cl" "call_part (cl\<lparr>cl_owed := b\<rparr>) = call_part cl"
  "call_part (cl\<lparr>cl_failing := f\<rparr>) = call_part cl" "call_part (cl\<lparr>cl_ending := g\<rparr>) = call_part cl"
  "call_part (cl\<lparr>cl_auth := h\<rparr>) = call_part cl" "call_part (cl\<lparr>cl_handler := j\<rparr>) = call_part cl"
  "call_part (cl\<lparr>cl_progress := k\<rparr>) = call_part cl" "call_part (cl\<lparr>cl_streams := l\<rparr>) = call_part cl"
  "call_part (cl\<lparr>cl_dropRejection := m\<rparr>) = call_part cl"
  by (simp_all add: call_part_def)

lemma dispatchPush_call_part [simp]: "call_part (dispatchPush event d cl) = call_part cl"
proof -
  have "call_part (fold (\<lambda>h cl. cl\<lparr>cl_handler := (cl_handler cl)(h := ph_enqueue d (cl_handler cl h))\<rparr>) hs cl) = call_part cl" for hs
    by (induction hs arbitrary: cl) simp_all
  then show ?thesis by (simp add: dispatchPush_def)
qed

lemma takePending_cases:
  assumes "takePending i cl = (cl1, b)"
  shows "if b then pending i cl \<and> cl1 = cl\<lparr>cl_pending := AList.delete i (cl_pending cl)\<rparr> else cl1 = cl"
  using assms by (auto simp: takePending_def pending_def split: option.splits)

lemma call_rel_ops:
  assumes inv: "calls_inv cl"
  shows "call_rel cl (fst (call_register c progress cl))" "call_rel cl (call_send e c i method params fl cl)"
    "call_rel cl (call_cancel c i cl)" "call_rel cl (rejectStreamForCall c i cl)"
    "call_rel cl (fst (stream_register c cl))" "call_rel cl (fst (Subscribe m ps pt cl))"
proof -
  show "call_rel cl (fst (call_register c progress cl))"
    using inv by (auto simp: call_register_def newID_def call_rel_def registers_def same_calls_def calls_inv_def outcomes_def)
  have s: "call_rel cl (return_error i x (wop cl1))"
    if "takePending i cl = (cl1, True)" "\<And>z. call_part (wop z) = call_part z" for cl1 x wop
  proof -
    have "settles i cl (return_error i x (wop cl1))"
      using takePending_cases [OF that(1)] that(2) [of cl1] by (auto simp: settles_def return_error_def call_part_def)
    then show ?thesis by (auto simp: call_rel_def)
  qed
  have n: "call_rel cl cl1" if "takePending i cl = (cl1, False)" for cl1
    using takePending_cases [OF that] inv by (simp add: same_callsI)
  show "call_rel cl (call_send e c i method params fl cl)"
    using s [of _ "\<lambda>z. z"] n inv drop_result_call_rel [OF inv, of i EMessageTooLarge] takePending_cases [of i cl _ False]
    by (cases "takePending i cl"; cases "snd (takePending i cl)") (auto simp: call_send_def same_callsI split: option.splits)
  show "call_rel cl (call_cancel c i cl)"
    using s [of _ "write_out c (OutCancel i)"] n
    by (cases "takePending i cl"; cases "snd (takePending i cl)") (auto simp: call_cancel_def)
  show "call_rel cl (rejectStreamForCall c i cl)"
  proof (cases "takePending i cl")
    case (Pair cl1 b)
    show ?thesis
    proof (cases b)
      case True
      then have "settles i cl (rejectStreamForCall c i cl)"
        using takePending_cases [OF Pair] Pair by (auto simp: settles_def rejectStreamForCall_def send_result_def write_out_def)
      then show ?thesis by (auto simp: call_rel_def)
    next
      case False
      then show ?thesis using n Pair by (simp add: rejectStreamForCall_def)
    qed
  qed
  show "call_rel cl (fst (stream_register c cl))"
    using inv by (auto simp: stream_register_def newID_def call_rel_def same_calls_def calls_inv_def outcomes_def upd_stream_def)
  show "call_rel cl (fst (Subscribe m ps pt cl))"
    using inv by (auto simp: Subscribe_def newID_def Let_def call_rel_def same_calls_def calls_inv_def outcomes_def upd_sub_def)
qed

lemma fold_sub_close_part: "call_part (fold (\<lambda>i. sub_close i err) is cl) = call_part cl"
  by (induction "is" arbitrary: cl) simp_all

lemma fold_upd_sub_part: "call_part (fold (\<lambda>i. upd_sub i f) is cl) = call_part cl"
  by (induction "is" arbitrary: cl) simp_all

lemma map_fst_failed: "map fst (map (\<lambda>(i, _). (i, r)) m) = map fst m"
  by (induction m) auto

lemma call_part_fields:
  "call_part cl = (a, b, n, p, r, t) \<Longrightarrow>
     cl_conn cl = a \<and> cl_closed cl = b \<and> cl_nextID cl = n \<and> cl_pending cl = p \<and> cl_results cl = r \<and> cl_returned cl = t"
  by (simp add: call_part_def)

lemma settles_allI:
  assumes "call_part cl' = (None, b, cl_nextID cl, [], cl_results cl @ map (\<lambda>(i, _). (i, r)) (cl_pending cl), cl_returned cl)"
  shows "settles_all cl cl'"
proof -
  note f = call_part_fields [OF assms]
  have "cl_results cl' = cl_results cl @ map (\<lambda>(i, _). (i, r)) (cl_pending cl)" using f by blast
  with map_fst_failed [of r "cl_pending cl"] have "\<exists>rs. cl_results cl' = cl_results cl @ rs \<and> map fst rs = map fst (cl_pending cl)"
    by (intro exI conjI)
  with f show ?thesis unfolding settles_all_def by blast
qed

lemma state_call_part: "call_part (cl\<lparr>cl_state := s, cl_changes := x\<rparr>) = call_part cl"
  by (simp add: call_part_def)

lemma shutdown_call_rel:
  assumes "calls_inv cl"
  shows "call_rel cl (shutdown err cl)"
proof (cases "cl_closed cl")
  case True
  then show ?thesis using assms by (simp add: shutdown_def same_callsI)
next
  case False
  then have "call_part (shutdown err cl) =
      (None, True, cl_nextID cl, [], cl_results cl @ map (\<lambda>(i, _). (i, CError err)) (cl_pending cl), cl_returned cl)"
    by (simp add: shutdown_def Let_def state_call_part fold_sub_close_part) (simp add: call_part_def)
  then have "settles_all cl (shutdown err cl)" by (rule settles_allI)
  then show ?thesis by (simp add: call_rel_def)
qed

lemma markDisconnected_call_rel:
  assumes "calls_inv cl"
  shows "call_rel cl (markDisconnected c cause cl)"
proof (cases "cl_conn cl = Some c")
  case False
  then show ?thesis using assms by (simp add: markDisconnected_def same_callsI)
next
  case True
  have st: "call_part (setState s x) = call_part x" for s and x :: "'a client" by (simp add: setState_def call_part_def)
  have "call_part (markDisconnected c cause cl) =
      (None, cl_closed cl, cl_nextID cl, [], cl_results cl @ map (\<lambda>(i, _). (i, CError (EConnectionLost cause))) (cl_pending cl), cl_returned cl)"
    using True by (simp add: markDisconnected_def Let_def st fold_upd_sub_part) (simp add: call_part_def)
  then have "settles_all cl (markDisconnected c cause cl)" by (rule settles_allI)
  then show ?thesis by (simp add: call_rel_def)
qed

lemma settled_by_frame:
  assumes "map_of (cl_pending cl) i \<noteq> None"
  shows "call_rel cl (send_result i r (cl\<lparr>cl_pending := AList.delete i (cl_pending cl)\<rparr>))"
proof -
  have "settles i cl (send_result i r (cl\<lparr>cl_pending := AList.delete i (cl_pending cl)\<rparr>))"
    using assms by (simp add: settles_def send_result_def pending_def)
  then show ?thesis by (auto simp: call_rel_def)
qed

lemma deliverResult_call_rel:
  assumes inv: "calls_inv cl"
  shows "call_rel cl (deliverResult e i d cl)"
proof -
  have "call_part (case takeAwaiting i (sub_deliver e i d cl) of
      (cl1, Some aw) \<Rightarrow> cl1\<lparr>cl_answered := cl_answered cl1 @ [(aw, i)]\<rparr> | (cl1, None) \<Rightarrow> cl1) = call_part cl"
    using sub_ops_call_part(10) [of i "sub_deliver e i d cl"] by (auto simp del: sub_ops_call_part(10) split: prod.splits option.splits)
  then show ?thesis using inv settled_by_frame [of cl i] by (auto simp: deliverResult_def same_callsI)
qed

lemma handleError_call_rel:
  assumes inv: "calls_inv cl"
  shows "call_rel cl (handleError e c i code msg d cl)"
proof -
  have "call_part (case takeAwaiting i cl of
      (cl1, Some aw) \<Rightarrow> sub_close i x (cl1\<lparr>cl_owed := cl_owed cl1 @ [aw]\<rparr>) | (cl1, None) \<Rightarrow> cl1) = call_part cl" for x
    using sub_ops_call_part(10) [of i cl] by (auto simp del: sub_ops_call_part(10) split: prod.splits option.splits)
  then show ?thesis using inv settled_by_frame [of cl i]
    by (auto simp: handleError_def Let_def same_callsI shutdown_call_rel)
qed

lemma handleFrame_call_rel:
  assumes inv: "calls_inv cl"
  shows "call_rel cl (handleFrame e c f cl)"
proof (cases f)
  case (SubscriptionPatchMessage i p)
  obtain cl1 b where sp: "sub_patch e i p cl = (cl1, b)" by fastforce
  then have "call_part cl1 = call_part cl" using sub_ops_call_part(8) [of e i p cl] by simp
  then show ?thesis using inv SubscriptionPatchMessage sp by (cases b) (auto intro!: same_callsI)
next
  case (AuthError msg timeout)
  obtain a st where af: "auth_frame (ce_hasToken e) False timeout (cl_auth cl) = (a, st)" by fastforce
  have inv': "calls_inv (cl\<lparr>cl_auth := a\<rparr>)" using inv by (simp add: calls_inv_def pending_def outcomes_def)
  have "call_rel cl (shutdown x (cl\<lparr>cl_auth := a\<rparr>))" for x
    using shutdown_call_rel [OF inv', of x]
    by (simp add: call_rel_def same_calls_def settles_def settles_all_def registers_def pending_def outcomes_def)
  then show ?thesis using inv AuthError af by (auto intro!: same_callsI)
next
  case (ProgressMessage i cur tot msg)
  then show ?thesis using inv by (auto intro!: same_callsI split: option.splits bool.splits)
qed (use inv in \<open>auto intro!: same_callsI simp: deliverResult_call_rel handleError_call_rel call_rel_ops(4)\<close>)

lemma client_step_call_rel: "client_step e cl cl' \<Longrightarrow> calls_inv cl \<Longrightarrow> call_rel cl cl'"
proof (induction rule: client_step.induct)
  case (cs_connect cl c)
  then show ?case by (auto simp: markConnected_def setState_def call_rel_def same_calls_def calls_inv_def outcomes_def)
next
  case (cs_stream_send cl c i m ps fl)
  then show ?case by (auto intro!: same_callsI simp: stream_send_def Let_def split: option.splits)
next
  case (cs_stream_stop cl c i err)
  then show ?case by (auto intro!: same_callsI simp: stream_stop_def Let_def split: prod.splits)
next
  case (cs_send cl xs c i ys)
  then show ?case by (auto intro!: same_callsI)
next
  case (cs_write cl c i ws)
  then show ?case by (auto intro!: same_callsI)
next
  case (cs_answered cl xs c i ys)
  then show ?case by (auto intro!: same_callsI)
next
  case (cs_release cl xs c ys)
  then show ?case by (auto intro!: same_callsI)
next
  case (cs_fail cl xs i err ys)
  then show ?case by (auto intro!: same_callsI)
next
  case (cs_end cl xs i ys)
  then show ?case by (auto intro!: same_callsI)
next
  case (cs_frame c f cl)
  then show ?case by (simp add: handleFrame_call_rel)
qed (simp_all add: call_rel_ops markDisconnected_call_rel shutdown_call_rel same_callsI)

interpretation calls_ts: trans_sys "\<lambda>cl. cl = new_client" "client_step e" calls_inv
proof
  show "calls_inv cl" if "cl = new_client" for cl
    using that by (simp add: new_client_def calls_inv_def pending_def outcomes_def)
next
  show "calls_inv t" if "client_step e s t" "calls_inv s" for s t
    using calls_inv_rel client_step_call_rel that by blast
qed

text \<open>Along a run, a call that was pending has one outcome exactly from the moment it is no longer pending.\<close>

lemma run_settles_once:
  assumes "(client_step e)\<^sup>*\<^sup>* cl cl'" "calls_inv cl" "issued i (cl_nextID cl)" "outcomes i cl = (if pending i cl then 0 else 1)"
  shows "outcomes i cl' = (if pending i cl' then 0 else 1) \<and> issued i (cl_nextID cl')"
  using assms(1)
proof (induction rule: rtranclp_induct)
  case base
  then show ?case using assms by simp
next
  case (step x y)
  have inv: "calls_inv x" by (rule calls_ts.inv_from [OF step(1) assms(2)])
  show ?case using call_rel_once [OF client_step_call_rel [OF step(2) inv] inv] step.IH by blast
qed

section \<open>Streams\<close>

datatype 'v stream_act = Push 'v | End "'v cl_error option" | Next

fun rs_run :: "'v stream_act list \<Rightarrow> 'v rawStream \<Rightarrow> 'v list \<Rightarrow> 'v rawStream \<times> 'v list" where
  "rs_run [] s got = (s, got)"
| "rs_run (Push v # as) s got = rs_run as (rs_push v s) got"
| "rs_run (End err # as) s got = rs_run as (rs_end err s) got"
| "rs_run (Next # as) s got =
     (if rs_ready s then (case rs_next s of (s', None) \<Rightarrow> rs_run as s' got | (s', Some v) \<Rightarrow> rs_run as s' (got @ [v]))
      else rs_run as s got)"

text \<open>What the read loop pushed before the stream ended, and how it ended.\<close>

fun pushed :: "'v stream_act list \<Rightarrow> 'v list" where
  "pushed (Push v # as) = v # pushed as"
| "pushed (Next # as) = pushed as"
| "pushed _ = []"

fun ended :: "'v stream_act list \<Rightarrow> 'v cl_error option option" where
  "ended (End err # as) = Some err"
| "ended (_ # as) = ended as"
| "ended [] = None"

lemma rs_run_done:
  assumes "serverDone s" "\<not> stopped s" "rs_run as s got = (s', got')"
  shows "got' @ rs_items s' = got @ rs_items s \<and> serverDone s' \<and> \<not> stopped s' \<and> rs_err s' = rs_err s"
  using assms
proof (induction as s got rule: rs_run.induct)
  case (4 as s got)
  then show ?case by (cases "rs_items s") (auto simp: rs_ready_def rs_next_def)
qed (auto simp: rs_push_def rs_end_def)

lemma rs_run_fifo:
  assumes "\<not> serverDone s" "\<not> stopped s" "rs_err s = None" "rs_run as s got = (s', got')"
  shows "got' @ rs_items s' = got @ rs_items s @ pushed as \<and> \<not> stopped s' \<and>
    (case ended as of None \<Rightarrow> \<not> serverDone s' \<and> rs_err s' = None | Some err \<Rightarrow> serverDone s' \<and> rs_err s' = err)"
  using assms
proof (induction as s got rule: rs_run.induct)
  case (2 v as s got)
  then show ?case by (simp add: rs_push_def)
next
  case (3 err as s got)
  have "serverDone (rs_end err s)" "\<not> stopped (rs_end err s)" "rs_items (rs_end err s) = rs_items s" "rs_err (rs_end err s) = err"
    using 3 by (simp_all add: rs_end_def)
  with rs_run_done [of "rs_end err s" as got s' got'] 3 show ?case by simp
next
  case (4 as s got)
  then show ?case by (cases "rs_items s") (auto simp: rs_ready_def rs_next_def)
qed simp

lemma rs_run_drain: "\<not> stopped s \<Longrightarrow> snd (rs_run (replicate (length (rs_items s)) Next) s g) = g @ rs_items s"
proof (induction "rs_items s" arbitrary: s g)
  case (Cons v vs)
  have eq: "rs_items s = v # vs" using Cons(2) by simp
  have "rs_ready s" "rs_next s = (s\<lparr>rs_items := vs\<rparr>, Some v)"
    using eq Cons(3) by (simp_all add: rs_ready_def rs_next_def)
  then show ?case using Cons(1) [of "s\<lparr>rs_items := vs\<rparr>" "g @ [v]"] Cons(3) eq by simp
qed simp

section \<open>Properties\<close>

text \<open>
  Property C9. Every call is settled exactly once: from the moment it is registered, in every later state of any
  run, it is pending and has no outcome, or it is no longer pending and has exactly one, a result
  or an error sent to its channel or an error its caller returned on its own. Without a connection
  no call is pending.
\<close>

theorem call_settled_once:
  assumes "(client_step e)\<^sup>*\<^sup>* new_client cl" "pending i cl" "(client_step e)\<^sup>*\<^sup>* cl cl'"
  shows "outcomes i cl' = (if pending i cl' then 0 else 1) \<and> (cl_conn cl' = None \<longrightarrow> outcomes i cl' = 1)"
proof -
  have inv: "calls_inv cl" "calls_inv cl'"
    using calls_ts.inv_reachable [OF refl] assms(1,3) by (blast, meson rtranclp_trans)
  then have "issued i (cl_nextID cl)" "outcomes i cl = 0" using assms(2) by (auto simp: calls_inv_def)
  with run_settles_once [OF assms(3) inv(1)] assms(2) have "outcomes i cl' = (if pending i cl' then 0 else 1)" by simp
  moreover have "cl_conn cl' = None \<longrightarrow> \<not> pending i cl'" using inv(2) by (simp add: calls_inv_def pending_def)
  ultimately show ?thesis by simp
qed

definition call_a :: "int client" where "call_a = fst (call_register 1 False (fst (markConnected 1 new_client)))"
definition call_b :: "int client" where "call_b = markDisconnected 1 ''eof'' call_a"

theorem call_settled_once_witness: "outcomes ''1'' call_b = 1"
proof -
  have "client_step env0 new_client (fst (markConnected 1 new_client))"
    by (rule cs_connect) (simp_all add: new_client_def new_sub_def fresh_conn_def waiting_def)
  moreover have "client_step env0 (fst (markConnected 1 new_client)) call_a" unfolding call_a_def by (rule cs_call)
  ultimately have r: "(client_step env0)\<^sup>*\<^sup>* new_client call_a"
    by (meson converse_rtranclp_into_rtranclp rtranclp.rtrancl_refl)
  have p: "pending ''1'' call_a"
    by (simp add: call_a_def pending_def call_register_def newID_def markConnected_def setState_def new_client_def nat_str_1)
  have s: "(client_step env0)\<^sup>*\<^sup>* call_a call_b" unfolding call_b_def by (rule r_into_rtranclp) (rule cs_disconnect)
  have "cl_conn call_b = None"
    by (simp add: call_b_def call_a_def call_register_def newID_def markConnected_def markDisconnected_def setState_def new_client_def Let_def)
  then show ?thesis using call_settled_once [OF r p s] by simp
qed

text \<open>
  A stream loses and reorders nothing on its way to the consumer: at any moment what the consumer
  got followed by what is buffered is what the read loop pushed before the stream ended, however the
  consumer's reads interleave with it, and the reported error is that of the first end. Once the
  stream has ended, reading on yields exactly the buffered rest and then the end.
\<close>

theorem stream_buffer_fifo:
  assumes "rs_run as new_rawStream [] = (s, got)"
  shows "got @ rs_items s = pushed as \<and>
    (case ended as of None \<Rightarrow> rs_err s = None
     | Some err \<Rightarrow> rs_err s = err \<and> snd (rs_run (replicate (length (rs_items s)) Next) s got) = pushed as)"
proof -
  have "got @ rs_items s = [] @ rs_items new_rawStream @ pushed as \<and> \<not> stopped s \<and>
    (case ended as of None \<Rightarrow> \<not> serverDone s \<and> rs_err s = None | Some err \<Rightarrow> serverDone s \<and> rs_err s = err)"
    by (rule rs_run_fifo [OF _ _ _ assms]) (simp_all add: new_rawStream_def)
  then show ?thesis using rs_run_drain [of s got] by (auto simp: new_rawStream_def split: option.splits)
qed

theorem stream_buffer_fifo_witness:
  "snd (rs_run [Push 1, Next, Push 2, Push (3 :: int), End None] new_rawStream []) = [1]"
proof -
  let ?as = "[Push 1, Next, Push 2, Push (3 :: int), End None]"
  obtain s got where r: "rs_run ?as new_rawStream [] = (s, got)" by fastforce
  have "rs_items s = [2, 3]"
    using r by (auto simp: rs_push_def rs_end_def rs_ready_def rs_next_def new_rawStream_def)
  with stream_buffer_fifo [OF r] r show ?thesis by auto
qed

end
