(* ===== verification/Aprot_Transform.thy ===== *)
theory Aprot_Transform
  imports Aprot_Protocol "HOL-Library.Sublist"
begin

text \<open>
  Go types as the reflection code sees them, and the \<open>transform\<close> struct tags (\<open>transform.go\<close>,
  \<open>ParseValidateTag\<close> of \<open>validate.go\<close>): the static check of the tags when a handler is registered,
  and the walk that normalizes the decoded arguments of a request.

  A type is given by its kind; a struct type is its name, and a type environment has the fields of
  each. Values are trees, as they come from decoding JSON.
\<close>

section \<open>Types and values\<close>

datatype gotype =
    GBool
  | GInt nat
  | GUint nat
  | GFloat nat
  | GString
  | GIface string
  | GPtr gotype
  | GSlice gotype
  | GArray nat gotype
  | GMap gotype gotype
  | GFunc "gotype list" "gotype list" bool
  | GStruct string

record field =
  f_name :: string
  f_exported :: bool
  f_tag :: string
  f_type :: gotype

text \<open>\<open>te_context\<close> and \<open>te_error\<close> are the types that implement \<open>context.Context\<close> and \<open>error\<close>.\<close>

record type_env =
  te_structs :: "(string \<times> field list) list"
  te_context :: "gotype \<Rightarrow> bool"
  te_error :: "gotype \<Rightarrow> bool"

definition struct_fields :: "type_env \<Rightarrow> string \<Rightarrow> field list" where
  "struct_fields te n = (case map_of (te_structs te) n of Some fs \<Rightarrow> fs | None \<Rightarrow> [])"

datatype gval = VString string | VNil | VPtr gval | VList "gval list" | VStruct "gval list" | VOther

section \<open>Strings\<close>

text \<open>\<open>strings.Split\<close> with a separator of one byte.\<close>

fun split_on :: "char \<Rightarrow> string \<Rightarrow> string list" where
  "split_on sep [] = [[]]"
| "split_on sep (c # s) =
     (if c = sep then [] # split_on sep s
      else case split_on sep s of [] \<Rightarrow> [[c]] | w # ws \<Rightarrow> (c # w) # ws)"

text \<open>The UTF-8 encodings of the white space characters of \<open>unicode.IsSpace\<close>.\<close>

definition space_runes :: "string list" where
  "space_runes =
     [[CHR 0x09], [CHR 0x0A], [CHR 0x0B], [CHR 0x0C], [CHR 0x0D], [CHR 0x20],
      [CHR 0xC2, CHR 0x85], [CHR 0xC2, CHR 0xA0], [CHR 0xE1, CHR 0x9A, CHR 0x80],
      [CHR 0xE2, CHR 0x80, CHR 0x80], [CHR 0xE2, CHR 0x80, CHR 0x81], [CHR 0xE2, CHR 0x80, CHR 0x82],
      [CHR 0xE2, CHR 0x80, CHR 0x83], [CHR 0xE2, CHR 0x80, CHR 0x84], [CHR 0xE2, CHR 0x80, CHR 0x85],
      [CHR 0xE2, CHR 0x80, CHR 0x86], [CHR 0xE2, CHR 0x80, CHR 0x87], [CHR 0xE2, CHR 0x80, CHR 0x88],
      [CHR 0xE2, CHR 0x80, CHR 0x89], [CHR 0xE2, CHR 0x80, CHR 0x8A], [CHR 0xE2, CHR 0x80, CHR 0xA8],
      [CHR 0xE2, CHR 0x80, CHR 0xA9], [CHR 0xE2, CHR 0x80, CHR 0xAF], [CHR 0xE2, CHR 0x81, CHR 0x9F],
      [CHR 0xE3, CHR 0x80, CHR 0x80]]"

text \<open>Removing every leading element of a set of encoded characters.\<close>

function strip :: "string list \<Rightarrow> string \<Rightarrow> string" where
  "strip ws s =
     (case find (\<lambda>w. w \<noteq> [] \<and> prefix w s) ws of
        None \<Rightarrow> s
      | Some w \<Rightarrow> strip ws (drop (length w) s))"
  by auto
termination
  by (relation "measure (\<lambda>(ws, s). length s)") (auto simp: find_Some_iff prefix_def)

declare strip.simps [simp del]

definition trim_left :: "string list \<Rightarrow> string \<Rightarrow> string" where
  "trim_left ws s = strip ws s"

definition trim_right :: "string list \<Rightarrow> string \<Rightarrow> string" where
  "trim_right ws s = rev (strip (map rev ws) (rev s))"

definition TrimSpace :: "string \<Rightarrow> string" where
  "TrimSpace s = trim_right space_runes (trim_left space_runes s)"

text \<open>The characters of a string in valid UTF-8, by their leading byte.\<close>

fun runes :: "string \<Rightarrow> string list" where
  "runes [] = []"
| "runes (c # s) =
     (let n = (if byte c < 0xC0 then 0 else if byte c < 0xE0 then 1 else if byte c < 0xF0 then 2 else 3)
      in (c # take n s) # runes (drop n s))"

text \<open>The case conversions of the \<open>strings\<close> package rest on the Unicode tables.\<close>

record case_lib =
  cl_upper :: "string \<Rightarrow> string"
  cl_lower :: "string \<Rightarrow> string"

section \<open>Tags\<close>

datatype rule = Rule (r_tag: string) (r_param: string)

definition parse_rule :: "string \<Rightarrow> rule" where
  "parse_rule part =
     (if CHR ''='' \<in> set part
      then Rule (takeWhile (\<lambda>c. c \<noteq> CHR ''='') part) (tl (dropWhile (\<lambda>c. c \<noteq> CHR ''='') part))
      else Rule part [])"

definition ParseValidateTag :: "string \<Rightarrow> rule list" where
  "ParseValidateTag tag =
     (if tag = [] then []
      else map parse_rule (filter (\<lambda>p. p \<noteq> []) (map TrimSpace (split_on CHR '','' tag))))"

text \<open>The static check: the errors by what they report.\<close>

datatype tag_error = UnsupportedType string | RemoveEmptyOnNonSlice string | UnknownOp string string

definition string_field :: "gotype \<Rightarrow> bool" where
  "string_field ft \<longleftrightarrow> ft = GString \<or> ft = GPtr GString"

definition string_slice :: "gotype \<Rightarrow> bool" where
  "string_slice ft \<longleftrightarrow> ft = GSlice GString"

definition element_ops :: "string list" where
  "element_ops = [''trim'', ''trimleft'', ''trimright'', ''uppercase'', ''lowercase'']"

fun check_ops :: "field \<Rightarrow> rule list \<Rightarrow> tag_error option" where
  "check_ops f [] = None"
| "check_ops f (r # rs) =
     (if r_tag r \<in> set element_ops then check_ops f rs
      else if r_tag r = ''removeempty''
      then (if string_slice (f_type f) then check_ops f rs else Some (RemoveEmptyOnNonSlice (f_name f)))
      else Some (UnknownOp (f_name f) (r_tag r)))"

definition validateTransformTagOnField :: "field \<Rightarrow> rule list \<Rightarrow> tag_error option" where
  "validateTransformTagOnField f rules =
     (if \<not> string_field (f_type f) \<and> \<not> string_slice (f_type f) then Some (UnsupportedType (f_name f))
      else check_ops f rules)"

text \<open>The struct type \<open>validateTransformTagsChildren\<close> goes on with, if any.\<close>

fun child_struct :: "gotype \<Rightarrow> string option" where
  "child_struct (GStruct n) = Some n"
| "child_struct (GPtr (GStruct n)) = Some n"
| "child_struct (GSlice (GStruct n)) = Some n"
| "child_struct (GSlice (GPtr (GStruct n))) = Some n"
| "child_struct (GArray k (GStruct n)) = Some n"
| "child_struct (GArray k (GPtr (GStruct n))) = Some n"
| "child_struct _ = None"

definition field_tag_error :: "field \<Rightarrow> tag_error option" where
  "field_tag_error f = (if f_tag f = [] then None else validateTransformTagOnField f (ParseValidateTag (f_tag f)))"

text \<open>
  \<open>validateTransformTagsType\<close> with the set of visited types threaded through. The first argument
  bounds the nesting of the calls; \<open>None\<close> is a walk that exceeds it.
\<close>

fun validateTransformTagsType :: "type_env \<Rightarrow> nat \<Rightarrow> string \<Rightarrow> string list \<Rightarrow> (tag_error + string list) option"
  and validate_fields :: "type_env \<Rightarrow> nat \<Rightarrow> field list \<Rightarrow> string list \<Rightarrow> (tag_error + string list) option" where
  "validateTransformTagsType te 0 n seen = None"
| "validateTransformTagsType te (Suc k) n seen =
     (if n \<in> set seen then Some (Inr seen) else validate_fields te k (struct_fields te n) (n # seen))"
| "validate_fields te k [] seen = Some (Inr seen)"
| "validate_fields te k (f # fs) seen =
     (if \<not> f_exported f then validate_fields te k fs seen
      else case field_tag_error f of
             Some e \<Rightarrow> Some (Inl e)
           | None \<Rightarrow>
               (case child_struct (f_type f) of
                  None \<Rightarrow> validate_fields te k fs seen
                | Some m \<Rightarrow>
                    (case validateTransformTagsType te k m seen of
                       None \<Rightarrow> None
                     | Some (Inl e) \<Rightarrow> Some (Inl e)
                     | Some (Inr seen') \<Rightarrow> validate_fields te k fs seen')))"

fun strip_ptrs :: "gotype \<Rightarrow> gotype" where
  "strip_ptrs (GPtr t) = strip_ptrs t"
| "strip_ptrs t = t"

definition ValidateTransformTags :: "type_env \<Rightarrow> gotype \<Rightarrow> (tag_error + string list) option" where
  "ValidateTransformTags te t =
     (case strip_ptrs t of
        GStruct n \<Rightarrow> validateTransformTagsType te (Suc (length (te_structs te))) n []
      | _ \<Rightarrow> Some (Inr []))"

section \<open>The walk over a value\<close>

type_synonym 'a or_error = "string + 'a"

definition string_op :: "case_lib \<Rightarrow> string \<Rightarrow> bool \<Rightarrow> rule \<Rightarrow> string \<Rightarrow> string or_error" where
  "string_op lib field inSlice r s =
     (if r_tag r = ''trim'' then Inr (TrimSpace s)
      else if r_tag r = ''trimleft'' then Inr (trim_left (if r_param r = [] then space_runes else runes (r_param r)) s)
      else if r_tag r = ''trimright'' then Inr (trim_right (if r_param r = [] then space_runes else runes (r_param r)) s)
      else if r_tag r = ''uppercase'' then Inr (cl_upper lib s)
      else if r_tag r = ''lowercase'' then Inr (cl_lower lib s)
      else if r_tag r = ''removeempty''
      then (if inSlice then Inr s else Inl (''transform: field '' @ field @ '' uses removeempty on non-slice type''))
      else Inl (''transform: field '' @ field @ '' has unknown op '' @ r_tag r))"

fun applyStringOps :: "case_lib \<Rightarrow> string \<Rightarrow> string \<Rightarrow> rule list \<Rightarrow> bool \<Rightarrow> string or_error" where
  "applyStringOps lib field s [] inSlice = Inr s"
| "applyStringOps lib field s (r # rs) inSlice =
     (case string_op lib field inSlice r s of Inl e \<Rightarrow> Inl e | Inr s' \<Rightarrow> applyStringOps lib field s' rs inSlice)"

text \<open>A function with an error applied to each element, up to the first error.\<close>

fun map_each :: "('a \<Rightarrow> 'e + 'b) \<Rightarrow> 'a list \<Rightarrow> 'e + 'b list" where
  "map_each g [] = Inr []"
| "map_each g (x # xs) =
     (case g x of Inl e \<Rightarrow> Inl e | Inr y \<Rightarrow> (case map_each g xs of Inl e \<Rightarrow> Inl e | Inr ys \<Rightarrow> Inr (y # ys)))"

fun slice_ops :: "case_lib \<Rightarrow> string \<Rightarrow> string list \<Rightarrow> rule list \<Rightarrow> string list or_error" where
  "slice_ops lib field out [] = Inr out"
| "slice_ops lib field out (r # rs) =
     (if r_tag r = ''removeempty'' then slice_ops lib field (filter (\<lambda>s. s \<noteq> []) out) rs
      else case map_each (\<lambda>s. applyStringOps lib field s [r] True) out of
             Inl e \<Rightarrow> Inl e
           | Inr out' \<Rightarrow> slice_ops lib field out' rs)"

fun str_of :: "gval \<Rightarrow> string" where
  "str_of (VString s) = s"
| "str_of _ = []"

fun applySliceStringOps :: "case_lib \<Rightarrow> string \<Rightarrow> gval \<Rightarrow> rule list \<Rightarrow> gval or_error" where
  "applySliceStringOps lib field (VList vs) rules = map_sum id (VList \<circ> map VString) (slice_ops lib field (map str_of vs) rules)"
| "applySliceStringOps lib field v rules =
     map_sum id (\<lambda>out. if out = [] then v else VList (map VString out)) (slice_ops lib field [] rules)"

fun applyFieldRules :: "case_lib \<Rightarrow> field \<Rightarrow> gval \<Rightarrow> rule list \<Rightarrow> gval or_error" where
  "applyFieldRules lib f v rules =
     (case f_type f of
        GString \<Rightarrow> map_sum id VString (applyStringOps lib (f_name f) (str_of v) rules False)
      | GPtr t \<Rightarrow>
          (case (t, v) of
             (GString, VPtr u) \<Rightarrow> map_sum id (VPtr \<circ> VString) (applyStringOps lib (f_name f) (str_of u) rules False)
           | _ \<Rightarrow> Inr v)
      | GSlice t \<Rightarrow>
          if t \<noteq> GString then Inl (''transform: field '' @ f_name f @ '' has an unsupported slice type'')
          else applySliceStringOps lib (f_name f) v rules
      | _ \<Rightarrow> Inl (''transform: field '' @ f_name f @ '' has unsupported type''))"

definition rules_step :: "case_lib \<Rightarrow> field \<Rightarrow> gval \<Rightarrow> gval or_error" where
  "rules_step lib f v =
     (let rules = ParseValidateTag (f_tag f) in if rules = [] then Inr v else applyFieldRules lib f v rules)"

text \<open>
  \<open>applyTransformsValue\<close> on the fields of a struct, and \<open>recurseIntoField\<close>. The rules of a field never
  change a value that holds a struct (lemma \<open>rules_keep_structs\<close>), so the walk goes into the value the
  field had before them.
\<close>

fun applyTransformsValue :: "case_lib \<Rightarrow> type_env \<Rightarrow> field list \<Rightarrow> gval list \<Rightarrow> gval list or_error"
  and recurseIntoField :: "case_lib \<Rightarrow> type_env \<Rightarrow> gotype \<Rightarrow> gval \<Rightarrow> gval or_error"
  and transform_elems :: "case_lib \<Rightarrow> type_env \<Rightarrow> gotype \<Rightarrow> gval list \<Rightarrow> gval list or_error" where
  "applyTransformsValue lib te [] vs = Inr vs"
| "applyTransformsValue lib te fs [] = Inr []"
| "applyTransformsValue lib te (f # fs) (v # vs) =
     (case (if \<not> f_exported f then Inr v
            else case rules_step lib f v of
                   Inl e \<Rightarrow> Inl e
                 | Inr v' \<Rightarrow> if child_struct (f_type f) = None then Inr v' else recurseIntoField lib te (f_type f) v) of
        Inl e \<Rightarrow> Inl e
      | Inr w \<Rightarrow> (case applyTransformsValue lib te fs vs of Inl e \<Rightarrow> Inl e | Inr ws \<Rightarrow> Inr (w # ws)))"
| "recurseIntoField lib te (GStruct n) (VStruct vs) = map_sum id VStruct (applyTransformsValue lib te (struct_fields te n) vs)"
| "recurseIntoField lib te (GPtr t) (VPtr v) =
     (case t of GStruct n \<Rightarrow> map_sum id VPtr (recurseIntoField lib te t v) | _ \<Rightarrow> Inr (VPtr v))"
| "recurseIntoField lib te (GSlice t) (VList vs) =
     (if child_struct (GSlice t) = None then Inr (VList vs) else map_sum id VList (transform_elems lib te t vs))"
| "recurseIntoField lib te (GArray k t) (VList vs) =
     (if child_struct (GArray k t) = None then Inr (VList vs) else map_sum id VList (transform_elems lib te t vs))"
| "recurseIntoField lib te t v = Inr v"
| "transform_elems lib te t [] = Inr []"
| "transform_elems lib te t (v # vs) =
     (case recurseIntoField lib te t v of
        Inl e \<Rightarrow> Inl e
      | Inr w \<Rightarrow> (case transform_elems lib te t vs of Inl e \<Rightarrow> Inl e | Inr ws \<Rightarrow> Inr (w # ws)))"

section \<open>The static check\<close>

text \<open>The struct types declared in the environment that have not been visited.\<close>

definition unseen :: "type_env \<Rightarrow> string list \<Rightarrow> nat" where
  "unseen te seen = card (fst ` set (te_structs te) - set seen)"

lemma unseen_Cons: "n \<in> fst ` set (te_structs te) \<Longrightarrow> n \<notin> set seen \<Longrightarrow> unseen te seen = Suc (unseen te (n # seen))"
proof -
  assume h: "n \<in> fst ` set (te_structs te)" "n \<notin> set seen"
  let ?A = "fst ` set (te_structs te) - set seen"
  have "?A = insert n (?A - {n})" using h by blast
  then have "card ?A = Suc (card (?A - {n}))" by (metis Diff_iff card_insert_disjoint finite_Diff finite_imageI finite_set insertI1)
  moreover have "?A - {n} = fst ` set (te_structs te) - set (n # seen)" by auto
  ultimately show ?thesis by (simp add: unseen_def)
qed

lemma unseen_mono: "set seen \<subseteq> set seen' \<Longrightarrow> unseen te seen' \<le> unseen te seen"
  unfolding unseen_def by (rule card_mono) auto

lemma struct_fields_unknown: "n \<notin> fst ` set (te_structs te) \<Longrightarrow> struct_fields te n = []"
  by (simp add: struct_fields_def map_of_eq_None_iff [symmetric])

definition returns :: "string list \<Rightarrow> (tag_error + string list) option \<Rightarrow> bool" where
  "returns seen r \<longleftrightarrow> (case r of None \<Rightarrow> False | Some (Inl e) \<Rightarrow> True | Some (Inr s) \<Rightarrow> set seen \<subseteq> set s)"

lemma validate_returns:
  "unseen te seen < k \<Longrightarrow> returns seen (validateTransformTagsType te k n seen)"
  "fs = [] \<or> unseen te seen < k \<Longrightarrow> returns seen (validate_fields te k fs seen)"
proof (induction te k n seen and te k fs seen rule: validateTransformTagsType_validate_fields.induct)
  case (2 te k n seen)
  show ?case
  proof (cases "n \<in> set seen")
    case False
    have "struct_fields te n = [] \<or> unseen te (n # seen) < k"
    proof (cases "n \<in> fst ` set (te_structs te)")
      case True
      then show ?thesis using 2(2) unseen_Cons [OF True False] by simp
    qed (simp add: struct_fields_unknown)
    from 2(1) [OF False this] show ?thesis using False
      by (auto simp: returns_def split: option.splits sum.splits)
  qed (simp add: returns_def)
next
  case (4 te k f fs seen)
  then have u: "unseen te seen < k" by simp
  show ?case
  proof (cases "f_exported f \<and> field_tag_error f = None \<and> child_struct (f_type f) \<noteq> None")
    case True
    then obtain m where m: "child_struct (f_type f) = Some m" by blast
    have r: "returns seen (validateTransformTagsType te k m seen)" using 4(3) True m u by auto
    show ?thesis
    proof (cases "validateTransformTagsType te k m seen")
      case (Some x)
      show ?thesis
      proof (cases x)
        case (Inr s)
        then have ss: "set seen \<subseteq> set s" using r Some by (simp add: returns_def)
        then have "unseen te s < k" using u unseen_mono [of seen s te] by simp
        then have "returns s (validate_fields te k fs s)" using 4(4) True m Some Inr by auto
        then show ?thesis using True m Some Inr ss by (auto simp: returns_def split: option.splits sum.splits)
      qed (use True m Some in \<open>simp add: returns_def\<close>)
    qed (use r in \<open>simp add: returns_def\<close>)
  next
    case False
    then show ?thesis using 4(1,2) u by (auto simp: returns_def split: option.splits)
  qed
qed (auto simp: returns_def)

lemma validate_fuel_mono:
  "validateTransformTagsType te k n seen = Some r \<Longrightarrow> validateTransformTagsType te (k + j) n seen = Some r"
  "validate_fields te k fs seen = Some r \<Longrightarrow> validate_fields te (k + j) fs seen = Some r"
proof (induction te k n seen and te k fs seen arbitrary: r and r rule: validateTransformTagsType_validate_fields.induct)
  case (4 te k f fs seen)
  show ?case
  proof (cases "f_exported f \<and> field_tag_error f = None \<and> child_struct (f_type f) \<noteq> None")
    case True
    then obtain m where m: "child_struct (f_type f) = Some m" by blast
    obtain x where x: "validateTransformTagsType te k m seen = Some x"
      using 4(5) True m by (auto split: option.splits)
    have "validateTransformTagsType te (k + j) m seen = Some x" using 4(3) True m x by auto
    then show ?thesis using 4(4,5) True m x by (auto split: sum.splits)
  next
    case False
    then show ?thesis using 4(1,2,5) by (auto split: option.splits if_splits)
  qed
qed (auto split: if_splits)

text \<open>
  A set of struct types whose tags are all right and that contains every type the walk can go on to.
\<close>

definition ok_fields :: "field list \<Rightarrow> bool" where
  "ok_fields fs \<longleftrightarrow> (\<forall>f\<in>set fs. f_exported f \<longrightarrow> field_tag_error f = None)"

definition children :: "field list \<Rightarrow> string set" where
  "children fs = {m. \<exists>f\<in>set fs. f_exported f \<and> child_struct (f_type f) = Some m}"

definition visited_ok :: "type_env \<Rightarrow> string list \<Rightarrow> string list \<Rightarrow> bool" where
  "visited_ok te seen s \<longleftrightarrow> set seen \<subseteq> set s \<and>
     (\<forall>m\<in>set s - set seen. ok_fields (struct_fields te m) \<and> children (struct_fields te m) \<subseteq> set s)"

lemma visited_ok_trans: "visited_ok te a b \<Longrightarrow> visited_ok te b c \<Longrightarrow> visited_ok te a c"
  by (auto simp: visited_ok_def) blast

lemma validate_visits:
  "validateTransformTagsType te k n seen = Some (Inr s) \<Longrightarrow> n \<in> set s \<and> visited_ok te seen s"
  "validate_fields te k fs seen = Some (Inr s) \<Longrightarrow> ok_fields fs \<and> children fs \<subseteq> set s \<and> visited_ok te seen s"
proof (induction te k n seen and te k fs seen arbitrary: s and s rule: validateTransformTagsType_validate_fields.induct)
  case (2 te k n seen)
  show ?case
  proof (cases "n \<in> set seen")
    case False
    then have "ok_fields (struct_fields te n) \<and> children (struct_fields te n) \<subseteq> set s \<and> visited_ok te (n # seen) s"
      using 2 by auto
    then show ?thesis by (auto simp: visited_ok_def)
  qed (use 2 in \<open>auto simp: visited_ok_def\<close>)
next
  case (4 te k f fs seen)
  have c: "children (f # fs) = (if f_exported f then set_option (child_struct (f_type f)) else {}) \<union> children fs"
    by (auto simp: children_def)
  have o: "ok_fields (f # fs) \<longleftrightarrow> (f_exported f \<longrightarrow> field_tag_error f = None) \<and> ok_fields fs"
    by (auto simp: ok_fields_def)
  show ?case
  proof (cases "f_exported f \<and> field_tag_error f = None \<and> child_struct (f_type f) \<noteq> None")
    case True
    then obtain m where m: "child_struct (f_type f) = Some m" by blast
    obtain s1 where s1: "validateTransformTagsType te k m seen = Some (Inr s1)" "validate_fields te k fs s1 = Some (Inr s)"
      using 4(5) True m by (auto split: option.splits sum.splits)
    have v1: "m \<in> set s1 \<and> visited_ok te seen s1" using 4(3) True m s1(1) by auto
    have v2: "ok_fields fs \<and> children fs \<subseteq> set s \<and> visited_ok te s1 s" using 4(4) True m s1 by auto
    have "m \<in> set s" using v1 v2 by (auto simp: visited_ok_def)
    moreover have "visited_ok te seen s" using v1 v2 visited_ok_trans by blast
    ultimately show ?thesis using v2 True m by (simp add: c o)
  next
    case False
    then show ?thesis using 4(1,2,5) by (auto simp: c o split: option.splits if_splits)
  qed
qed (auto simp: ok_fields_def children_def visited_ok_def)

section \<open>The walk\<close>

text \<open>Values of a type.\<close>

fun wt :: "type_env \<Rightarrow> gotype \<Rightarrow> gval \<Rightarrow> bool"
  and wt_fields :: "type_env \<Rightarrow> field list \<Rightarrow> gval list \<Rightarrow> bool"
  and wt_all :: "type_env \<Rightarrow> gotype \<Rightarrow> gval list \<Rightarrow> bool" where
  "wt te t (VString s) \<longleftrightarrow> t = GString"
| "wt te t VNil \<longleftrightarrow> (case t of GPtr u \<Rightarrow> True | GSlice u \<Rightarrow> True | _ \<Rightarrow> False)"
| "wt te t (VPtr v) \<longleftrightarrow> (case t of GPtr u \<Rightarrow> wt te u v | _ \<Rightarrow> False)"
| "wt te t (VList vs) \<longleftrightarrow>
     (case t of GSlice u \<Rightarrow> wt_all te u vs | GArray k u \<Rightarrow> length vs = k \<and> wt_all te u vs | _ \<Rightarrow> False)"
| "wt te t (VStruct vs) \<longleftrightarrow> (case t of GStruct n \<Rightarrow> wt_fields te (struct_fields te n) vs | _ \<Rightarrow> False)"
| "wt te t VOther \<longleftrightarrow>
     (case t of GString \<Rightarrow> False | GPtr u \<Rightarrow> False | GSlice u \<Rightarrow> False | GArray k u \<Rightarrow> False | GStruct n \<Rightarrow> False | _ \<Rightarrow> True)"
| "wt_fields te [] vs \<longleftrightarrow> vs = []"
| "wt_fields te (f # fs) vs \<longleftrightarrow> (case vs of [] \<Rightarrow> False | v # vs' \<Rightarrow> wt te (f_type f) v \<and> wt_fields te fs vs')"
| "wt_all te t [] \<longleftrightarrow> True"
| "wt_all te t (v # vs) \<longleftrightarrow> wt te t v \<and> wt_all te t vs"

lemma wt_all_iff: "wt_all te t vs \<longleftrightarrow> (\<forall>v\<in>set vs. wt te t v)"
  by (induction vs) auto

lemma map_each_ok: "(\<And>x. x \<in> set xs \<Longrightarrow> \<exists>y. g x = Inr y) \<Longrightarrow> \<exists>ys. map_each g xs = Inr ys \<and> length ys = length xs"
  by (induction xs) (fastforce split: sum.splits)+

lemma string_op_ok:
  "r_tag r \<in> set element_ops \<or> r_tag r = ''removeempty'' \<and> inSlice \<Longrightarrow> \<exists>s'. string_op lib field inSlice r s = Inr s'"
  by (auto simp: string_op_def element_ops_def)

lemma applyStringOps_ok:
  "check_ops f rules = None \<Longrightarrow> \<not> string_slice (f_type f) \<Longrightarrow> \<exists>s'. applyStringOps lib field s rules b = Inr s'"
proof (induction rules arbitrary: s)
  case (Cons r rs)
  then have r: "r_tag r \<in> set element_ops" "check_ops f rs = None" by (auto split: if_splits)
  obtain s' where "string_op lib field b r s = Inr s'" using string_op_ok r(1) by blast
  then show ?case using Cons.IH [OF r(2) Cons.prems(2)] by simp
qed simp

lemma slice_ops_ok: "check_ops f rules = None \<Longrightarrow> \<exists>out'. slice_ops lib field out rules = Inr out'"
proof (induction rules arbitrary: out)
  case (Cons r rs)
  then have r: "r_tag r \<in> set element_ops \<or> r_tag r = ''removeempty''" "check_ops f rs = None" by (auto split: if_splits)
  show ?case
  proof (cases "r_tag r = ''removeempty''")
    case False
    then have "\<exists>y. applyStringOps lib field x [r] True = Inr y" for x
      using r(1) string_op_ok [of r True lib field x] by fastforce
    then obtain ys where "map_each (\<lambda>s. applyStringOps lib field s [r] True) out = Inr ys" using map_each_ok by metis
    then show ?thesis using False Cons.IH [OF r(2)] by simp
  qed (use Cons.IH [OF r(2)] in simp)
qed simp

lemma slice_rules_ok:
  assumes "check_ops f rules = None"
  shows "\<exists>w. applySliceStringOps lib field v rules = Inr w \<and> (wt te (GSlice GString) v \<longrightarrow> wt te (GSlice GString) w)"
proof -
  have o: "\<exists>out'. slice_ops lib field out rules = Inr out'" for out by (rule slice_ops_ok [OF assms])
  have w: "wt te (GSlice GString) (VList (map VString out))" for out by (simp add: wt_all_iff)
  show ?thesis
  proof (cases "\<exists>vs. v = VList vs")
    case True
    then obtain vs where "v = VList vs" by blast
    then show ?thesis using o [of "map str_of vs"] w by auto
  next
    case False
    then have "applySliceStringOps lib field v rules =
        map_sum id (\<lambda>out. if out = [] then v else VList (map VString out)) (slice_ops lib field [] rules)" by (cases v) auto
    then show ?thesis using o [of "[]"] w by auto
  qed
qed

text \<open>Rules that pass the static check succeed on every value and keep its type.\<close>

lemma rules_step_ok:
  assumes "field_tag_error f = None"
  shows "\<exists>w. rules_step lib f v = Inr w \<and> (wt te (f_type f) v \<longrightarrow> wt te (f_type f) w)"
proof (cases "ParseValidateTag (f_tag f) = []")
  case False
  let ?r = "ParseValidateTag (f_tag f)"
  have "f_tag f \<noteq> []" using False by (auto simp: ParseValidateTag_def)
  then have v: "string_field (f_type f) \<or> string_slice (f_type f)" and c: "check_ops f ?r = None"
    using assms by (auto simp: field_tag_error_def validateTransformTagOnField_def split: if_splits)
  consider "f_type f = GString" | "f_type f = GPtr GString" | "f_type f = GSlice GString"
    using v by (auto simp: string_field_def string_slice_def)
  then show ?thesis
  proof cases
    case 1
    then show ?thesis using applyStringOps_ok [OF c, of lib "f_name f" "str_of v" False] False
      by (auto simp: rules_step_def string_slice_def Let_def)
  next
    case 2
    show ?thesis
    proof (cases v)
      case (VPtr u)
      then show ?thesis using 2 applyStringOps_ok [OF c, of lib "f_name f" "str_of u" False] False
        by (auto simp: rules_step_def string_slice_def Let_def)
    qed (use 2 False in \<open>auto simp: rules_step_def Let_def\<close>)
  next
    case 3
    then show ?thesis using slice_rules_ok [OF c, of lib "f_name f" v te] False by (auto simp: rules_step_def Let_def)
  qed
qed (simp add: rules_step_def)

lemma rules_keep_structs:
  assumes "child_struct (f_type f) \<noteq> None" "rules_step lib f v = Inr w"
  shows "w = v"
proof (cases "ParseValidateTag (f_tag f) = []")
  case False
  then have "applyFieldRules lib f v (ParseValidateTag (f_tag f)) = Inr w" using assms(2) by (simp add: rules_step_def Let_def)
  then show ?thesis using assms(1)
    by (cases "f_type f") (auto split: gotype.splits gval.splits if_splits)
qed (use assms in \<open>simp add: rules_step_def\<close>)

definition closed_ok :: "type_env \<Rightarrow> string set \<Rightarrow> bool" where
  "closed_ok te S \<longleftrightarrow> (\<forall>n\<in>S. ok_fields (struct_fields te n) \<and> children (struct_fields te n) \<subseteq> S)"

lemma children_Cons: "f_exported f \<Longrightarrow> child_struct (f_type f) = Some m \<Longrightarrow> m \<in> children (f # fs)"
  by (auto simp: children_def)

lemma children_tl: "children fs \<subseteq> children (f # fs)"
  by (auto simp: children_def)

definition walk_child :: "gotype \<Rightarrow> string option" where
  "walk_child t = (case t of GStruct n \<Rightarrow> Some n | GPtr (GStruct n) \<Rightarrow> Some n | _ \<Rightarrow> None)"

lemma child_struct_container: "child_struct (GSlice t) = walk_child t" "child_struct (GArray k t) = walk_child t"
  by (cases t; auto simp: walk_child_def split: gotype.splits)+

lemma walk_child_struct: "walk_child t = Some n \<Longrightarrow> child_struct t = Some n"
  by (cases t) (auto simp: walk_child_def split: gotype.splits)

lemma walk_ok:
  assumes S: "closed_ok te S"
  shows "ok_fields fs \<Longrightarrow> children fs \<subseteq> S \<Longrightarrow>
      \<exists>ws. applyTransformsValue lib te fs vs = Inr ws \<and> (wt_fields te fs vs \<longrightarrow> wt_fields te fs ws)"
    "child_struct t = Some n \<Longrightarrow> n \<in> S \<Longrightarrow>
      \<exists>w. recurseIntoField lib te t v = Inr w \<and> (wt te t v \<longrightarrow> wt te t w)"
    "walk_child t = Some n \<Longrightarrow> n \<in> S \<Longrightarrow>
      \<exists>ws. transform_elems lib te t vs = Inr ws \<and> length ws = length vs \<and> (wt_all te t vs \<longrightarrow> wt_all te t ws)"
  using S
proof (induction lib te fs vs and lib te t v and lib te t vs arbitrary: n and n and n
    rule: applyTransformsValue_recurseIntoField_transform_elems.induct)
  case (3 lib te f fs v vs)
  have ok: "ok_fields fs" "children fs \<subseteq> S" "f_exported f \<Longrightarrow> field_tag_error f = None"
    using 3(3,4) children_tl [of fs f] by (auto simp: ok_fields_def)
  have "\<exists>w. (if \<not> f_exported f then Inr v
            else case rules_step lib f v of
                   Inl e \<Rightarrow> Inl e
                 | Inr v' \<Rightarrow> if child_struct (f_type f) = None then Inr v' else recurseIntoField lib te (f_type f) v) = Inr w \<and>
      (wt te (f_type f) v \<longrightarrow> wt te (f_type f) w)"
  proof (cases "f_exported f")
    case True
    obtain w where w: "rules_step lib f v = Inr w" "wt te (f_type f) v \<longrightarrow> wt te (f_type f) w"
      using rules_step_ok [OF ok(3) [OF True]] by blast
    show ?thesis
    proof (cases "child_struct (f_type f)")
      case (Some m)
      then have "m \<in> S" using 3(4) children_Cons [OF True Some] by blast
      with 3 True w Some show ?thesis by auto
    qed (use True w in auto)
  qed simp
  then obtain w where w: "(if \<not> f_exported f then Inr v
            else case rules_step lib f v of
                   Inl e \<Rightarrow> Inl e
                 | Inr v' \<Rightarrow> if child_struct (f_type f) = None then Inr v' else recurseIntoField lib te (f_type f) v) = Inr w"
      "wt te (f_type f) v \<longrightarrow> wt te (f_type f) w" by blast
  from 3(2) [OF w(1) ok(1,2) 3(5)] show ?case using w by auto
next
  case (4 lib te m vs)
  then have "ok_fields (struct_fields te m)" "children (struct_fields te m) \<subseteq> S" by (auto simp: closed_ok_def)
  then show ?case using 4 by auto
next
  case (5 lib te t v)
  then show ?case by (cases t) auto
next
  case (6 lib te t vs)
  then show ?case using child_struct_container(1) [of t] by auto
next
  case (7 lib te k t vs)
  then show ?case using child_struct_container(2) [of k t] by auto
qed (auto, drule walk_child_struct, fastforce)

section \<open>Properties\<close>

text \<open>The struct types the walk can come to.\<close>

inductive reaches :: "type_env \<Rightarrow> string \<Rightarrow> string \<Rightarrow> bool" for te n where
  reaches_self: "reaches te n n"
| reaches_child: "reaches te n m \<Longrightarrow> k \<in> children (struct_fields te m) \<Longrightarrow> reaches te n k"

lemma reaches_closed: "reaches te n m \<Longrightarrow> closed_ok te S \<Longrightarrow> n \<in> S \<Longrightarrow> m \<in> S"
  by (induction rule: reaches.induct) (auto simp: closed_ok_def)

lemma reaches_trans: "reaches te m k \<Longrightarrow> reaches te n m \<Longrightarrow> reaches te n k"
  by (induction rule: reaches.induct) (auto intro: reaches_child)

definition bad_tag :: "type_env \<Rightarrow> string \<Rightarrow> tag_error \<Rightarrow> bool" where
  "bad_tag te m e \<longleftrightarrow> (\<exists>f\<in>set (struct_fields te m). f_exported f \<and> field_tag_error f = Some e)"

lemma validate_error:
  "validateTransformTagsType te k n seen = Some (Inl e) \<Longrightarrow> \<exists>m. reaches te n m \<and> bad_tag te m e"
  "validate_fields te k fs seen = Some (Inl e) \<Longrightarrow>
     (\<exists>f\<in>set fs. f_exported f \<and> field_tag_error f = Some e) \<or> (\<exists>c\<in>children fs. \<exists>m. reaches te c m \<and> bad_tag te m e)"
proof (induction te k n seen and te k fs seen rule: validateTransformTagsType_validate_fields.induct)
  case (2 te k n seen)
  then have "(\<exists>f\<in>set (struct_fields te n). f_exported f \<and> field_tag_error f = Some e) \<or>
      (\<exists>c\<in>children (struct_fields te n). \<exists>m. reaches te c m \<and> bad_tag te m e)" by (auto split: if_splits)
  then show ?case
  proof
    assume "\<exists>c\<in>children (struct_fields te n). \<exists>m. reaches te c m \<and> bad_tag te m e"
    then obtain c m where c: "c \<in> children (struct_fields te n)" "reaches te c m" "bad_tag te m e" by blast
    have "reaches te n m" by (rule reaches_trans [OF c(2) reaches_child [OF reaches_self c(1)]])
    with c show ?thesis by blast
  qed (auto simp: bad_tag_def intro: reaches_self)
next
  case (4 te k f fs seen)
  show ?case
  proof (cases "f_exported f \<and> field_tag_error f = None \<and> child_struct (f_type f) \<noteq> None")
    case True
    then obtain c where c: "child_struct (f_type f) = Some c" by blast
    then have "c \<in> children (f # fs)" using True children_Cons by blast
    then show ?thesis using 4(3-5) True c children_tl [of fs f] by (fastforce split: option.splits sum.splits)
  next
    case False
    then show ?thesis using 4(1,2,5) children_tl [of fs f] by (fastforce split: option.splits if_splits)
  qed
qed simp_all

lemma validate_result:
  obtains e where "ValidateTransformTags te (GStruct n) = Some (Inl e)" "\<exists>m. reaches te n m \<and> bad_tag te m e"
  | s where "ValidateTransformTags te (GStruct n) = Some (Inr s)" "closed_ok te (set s)" "n \<in> set s"
proof -
  have "unseen te [] < Suc (length (te_structs te))"
    using card_image_le [of "set (te_structs te)" fst] card_length [of "te_structs te"] by (simp add: unseen_def)
  then have "returns [] (validateTransformTagsType te (Suc (length (te_structs te))) n [])" by (rule validate_returns)
  moreover have "closed_ok te (set s) \<and> n \<in> set s" if "validateTransformTagsType te k n [] = Some (Inr s)" for k s
    using validate_visits(1) [OF that] by (auto simp: visited_ok_def closed_ok_def)
  moreover have v: "validateTransformTagsType te (Suc (length (te_structs te))) n [] = ValidateTransformTags te (GStruct n)"
    unfolding ValidateTransformTags_def strip_ptrs.simps gotype.case ..
  ultimately consider e where "ValidateTransformTags te (GStruct n) = Some (Inl e)"
    | s where "ValidateTransformTags te (GStruct n) = Some (Inr s)" "closed_ok te (set s)" "n \<in> set s"
    unfolding returns_def v [symmetric] by (auto split: option.splits sum.splits simp del: validateTransformTagsType.simps)
  then show ?thesis
  proof cases
    case (1 e)
    then show ?thesis using that(1) validate_error(1) [of te _ n "[]" e] unfolding v [symmetric] by blast
  qed (use that(2) in blast)
qed

lemma tag_check_returns: "ValidateTransformTags te t \<noteq> None"
proof (cases "\<exists>m. strip_ptrs t = GStruct m")
  case True
  then obtain m where "strip_ptrs t = GStruct m" by blast
  then have "ValidateTransformTags te t = ValidateTransformTags te (GStruct m)" by (simp add: ValidateTransformTags_def)
  then show ?thesis by (cases rule: validate_result [of te m]) auto
qed (auto simp: ValidateTransformTags_def split: gotype.splits)


text \<open>
  Property C37. The check accepts a struct type exactly if every struct type that can be reached from it through
  exported fields has only admissible tags, and a reported error is that of such a field.
\<close>

theorem tag_check_exact:
  "((\<exists>s. ValidateTransformTags te (GStruct n) = Some (Inr s)) \<longleftrightarrow> \<not> (\<exists>m e. reaches te n m \<and> bad_tag te m e)) \<and>
   (\<forall>e. ValidateTransformTags te (GStruct n) = Some (Inl e) \<longrightarrow> (\<exists>m. reaches te n m \<and> bad_tag te m e))"
proof (cases rule: validate_result [of te n])
  case (1 e)
  then show ?thesis by auto
next
  case (2 s)
  have "\<not> bad_tag te m e" if "reaches te n m" for m e
  proof -
    have "ok_fields (struct_fields te m)" using reaches_closed [OF that 2(2,3)] 2(2) by (simp add: closed_ok_def)
    then show ?thesis by (auto simp: ok_fields_def bad_tag_def)
  qed
  then show ?thesis using 2(1) by auto
qed

text \<open>
  Property C35. A parameter type that passed the check at registration is normalized without error on every request,
  and the result is again a value of the type.
\<close>

theorem transforms_type_safe:
  assumes "ValidateTransformTags te t = Some (Inr s)" "strip_ptrs t = GStruct n"
    and "wt_fields te (struct_fields te n) vs"
  shows "\<exists>ws. applyTransformsValue lib te (struct_fields te n) vs = Inr ws \<and> wt_fields te (struct_fields te n) ws"
proof (cases rule: validate_result [of te n])
  case (1 e)
  then show ?thesis using assms(1,2) by (simp add: ValidateTransformTags_def)
next
  case (2 s)
  then have "ok_fields (struct_fields te n)" "children (struct_fields te n) \<subseteq> set s" by (auto simp: closed_ok_def)
  from walk_ok(1) [OF 2(2) this] assms(3) show ?thesis by blast
qed

text \<open>A type that contains itself, and a value of it.\<close>

definition te0 :: type_env where
  "te0 = \<lparr>te_structs =
      [(''Req'', [\<lparr>f_name = ''Name'', f_exported = True, f_tag = ''trim, lowercase'', f_type = GString\<rparr>,
                  \<lparr>f_name = ''Tags'', f_exported = True, f_tag = ''trim,removeempty'', f_type = GSlice GString\<rparr>,
                  \<lparr>f_name = ''Next'', f_exported = True, f_tag = [], f_type = GPtr (GStruct ''Req'')\<rparr>])],
    te_context = (\<lambda>t. t = GIface ''context.Context''), te_error = (\<lambda>t. t = GIface ''error'')\<rparr>"

definition lib0 :: case_lib where
  "lib0 = \<lparr>cl_upper = id, cl_lower = id\<rparr>"

definition req0 :: "gval list" where
  "req0 = [VString ''  a'', VList [VString '' '', VString ''b ''], VPtr (VStruct [VString ''c '', VNil, VNil])]"

lemma te0_accepted: "ValidateTransformTags te0 (GPtr (GStruct ''Req'')) = Some (Inr [''Req''])"
  by code_simp

lemma req0_typed: "wt_fields te0 (struct_fields te0 ''Req'') req0"
  by code_simp

lemma req0_transformed: "applyTransformsValue lib0 te0 (struct_fields te0 ''Req'') req0 =
    Inr [VString ''a'', VList [VString ''b''], VPtr (VStruct [VString ''c'', VNil, VNil])]"
  by code_simp

theorem tag_check_exact_witness: "\<not> (\<exists>m e. reaches te0 ''Req'' m \<and> bad_tag te0 m e)"
proof -
  have "ValidateTransformTags te0 (GStruct ''Req'') = Some (Inr [''Req''])" by code_simp
  then show ?thesis using tag_check_exact [of te0 "''Req''"] by blast
qed

theorem transforms_type_safe_witness:
  "wt_fields te0 (struct_fields te0 ''Req'') [VString ''a'', VList [VString ''b''], VPtr (VStruct [VString ''c'', VNil, VNil])]"
  using transforms_type_safe [OF te0_accepted _ req0_typed, of lib0] by (simp add: req0_transformed)

end
