(* ===== verification/Aprot_Registry.thy ===== *)
theory Aprot_Registry
  imports Aprot_Transform
begin

text \<open>
  The handler registry (\<open>handler.go\<close>, \<open>mcp_registry.go\<close>): which methods become handlers, how groups
  are exposed over the socket, REST and MCP, how a wire_method method is looked up, and how the JSON
  parameters of a request become the arguments of the reflective call. A panic of a registration is
  an error value: a program whose registration panics does not start.
\<close>

section \<open>Handler methods\<close>

record param_info =
  pi_type :: gotype
  pi_variadic :: bool

record handler_info =
  hi_name :: string
  hi_params :: "param_info list"
  hi_response :: "gotype option"
  hi_struct :: string
  hi_isVoid :: bool
  hi_kind :: handler_kind
  hi_streamKey :: "gotype option"

text \<open>A method of the handler struct, without its receiver. The last input of a variadic method is a slice.\<close>

record go_method =
  m_name :: string
  m_ins :: "gotype list"
  m_variadic :: bool
  m_outs :: "gotype list"

definition isIterSeq :: "gotype \<Rightarrow> gotype option" where
  "isIterSeq t =
     (case t of GFunc [y] [] False \<Rightarrow> (case y of GFunc [elem] [GBool] False \<Rightarrow> Some elem | _ \<Rightarrow> None) | _ \<Rightarrow> None)"

definition isIterSeq2 :: "gotype \<Rightarrow> (gotype \<times> gotype) option" where
  "isIterSeq2 t =
     (case t of GFunc [y] [] False \<Rightarrow> (case y of GFunc [k, v] [GBool] False \<Rightarrow> Some (k, v) | _ \<Rightarrow> None) | _ \<Rightarrow> None)"

fun deref :: "gotype \<Rightarrow> gotype" where
  "deref (GPtr t) = t"
| "deref t = t"

definition validateOutputs :: "type_env \<Rightarrow> go_method \<Rightarrow> string \<Rightarrow> param_info list \<Rightarrow> handler_info option" where
  "validateOutputs te m structName params =
     (case m_outs m of
        [o1] \<Rightarrow>
          if \<not> te_error te o1 then None
          else Some \<lparr>hi_name = m_name m, hi_params = params, hi_response = None, hi_struct = structName,
                     hi_isVoid = True, hi_kind = HandlerKindUnary, hi_streamKey = None\<rparr>
      | [o0, o1] \<Rightarrow>
          if \<not> te_error te o1 then None
          else (case isIterSeq o0 of
                  Some elem \<Rightarrow>
                    Some \<lparr>hi_name = m_name m, hi_params = params, hi_response = Some (deref elem), hi_struct = structName,
                          hi_isVoid = False, hi_kind = HandlerKindStream, hi_streamKey = None\<rparr>
                | None \<Rightarrow>
                    (case isIterSeq2 o0 of
                       Some (k, v) \<Rightarrow>
                         Some \<lparr>hi_name = m_name m, hi_params = params, hi_response = Some (deref v), hi_struct = structName,
                               hi_isVoid = False, hi_kind = HandlerKindStream2, hi_streamKey = Some k\<rparr>
                     | None \<Rightarrow>
                         Some \<lparr>hi_name = m_name m, hi_params = params, hi_response = Some (deref o0), hi_struct = structName,
                               hi_isVoid = False, hi_kind = HandlerKindUnary, hi_streamKey = None\<rparr>))
      | _ \<Rightarrow> None)"

fun slice_elem :: "gotype \<Rightarrow> gotype" where
  "slice_elem (GSlice t) = t"
| "slice_elem t = t"

fun collect_params :: "bool \<Rightarrow> gotype list \<Rightarrow> param_info list" where
  "collect_params variadic [] = []"
| "collect_params variadic [t] = [\<lparr>pi_type = (if variadic then slice_elem t else t), pi_variadic = variadic\<rparr>]"
| "collect_params variadic (t # ts) = \<lparr>pi_type = t, pi_variadic = False\<rparr> # collect_params variadic ts"

definition validateMethod :: "type_env \<Rightarrow> go_method \<Rightarrow> string \<Rightarrow> handler_info option" where
  "validateMethod te m structName =
     (case m_ins m of
        [] \<Rightarrow> None
      | c # ts \<Rightarrow> if \<not> te_context te c then None else validateOutputs te m structName (collect_params (m_variadic m) ts))"

section \<open>Registration\<close>

record 'm group =
  g_name :: string
  g_handlers :: "(string, handler_info) gomap"
  g_middleware :: "'m list"
  g_socket :: bool

record ('m, 'v) registry =
  rg_handlers :: "(string, handler_info) gomap"
  rg_groups :: "(string, 'm group) gomap"
  rg_rest :: "string list"
  rg_mcpOnly :: "string list"
  rg_mcpTools :: "string list"
  rg_errorCodes :: "(string \<times> int) list"
  rg_errorMappings :: "'v error_mappings"
  rg_nextErrorCode :: int

definition NewRegistry :: "('m, 'v) registry" where
  "NewRegistry = \<lparr>rg_handlers = [], rg_groups = [], rg_rest = [], rg_mcpOnly = [], rg_mcpTools = [],
     rg_errorCodes = [], rg_errorMappings = [], rg_nextErrorCode = 1000\<rparr>"

datatype reg_panic =
    NotPointerToStruct
  | AlreadyRegistered string
  | BadTransformTag string string tag_error
  | DuplicateMethod string
  | StreamingHandler string string
  | UnregisteredHandler string
  | NoSuchMethod string string

definition wire_method :: "string \<Rightarrow> string \<Rightarrow> string" where
  "wire_method structName m = structName @ ''.'' @ m"

text \<open>The struct a handler is registered with: whether it is a pointer to a struct, its name, its methods.\<close>

record handler_struct =
  hs_pointer :: bool
  hs_name :: string
  hs_methods :: "go_method list"

fun params_tag_error :: "type_env \<Rightarrow> param_info list \<Rightarrow> tag_error option" where
  "params_tag_error te [] = None"
| "params_tag_error te (p # ps) =
     (case ValidateTransformTags te (pi_type p) of Some (Inl e) \<Rightarrow> Some e | _ \<Rightarrow> params_tag_error te ps)"

text \<open>The loop of \<open>register\<close> over the methods, with the dispatch map and the handlers of the group.\<close>

fun add_methods :: "type_env \<Rightarrow> string \<Rightarrow> bool \<Rightarrow> go_method list \<Rightarrow> (string, handler_info) gomap \<Rightarrow> (string, handler_info) gomap \<Rightarrow>
    reg_panic + (string, handler_info) gomap \<times> (string, handler_info) gomap" where
  "add_methods te structName socket [] hs gs = Inr (hs, gs)"
| "add_methods te structName socket (m # ms) hs gs =
     (case validateMethod te m structName of
        None \<Rightarrow> add_methods te structName socket ms hs gs
      | Some info \<Rightarrow>
          (case params_tag_error te (hi_params info) of
             Some e \<Rightarrow> Inl (BadTransformTag structName (hi_name info) e)
           | None \<Rightarrow>
               let w = wire_method structName (hi_name info); gs' = AList.update (hi_name info) info gs
               in if \<not> socket then add_methods te structName socket ms hs gs'
                  else if map_of hs w \<noteq> None then Inl (DuplicateMethod w)
                  else add_methods te structName socket ms (AList.update w info hs) gs'))"

definition register_group :: "type_env \<Rightarrow> handler_struct \<Rightarrow> bool \<Rightarrow> 'm list \<Rightarrow> ('m, 'v) registry \<Rightarrow> reg_panic + ('m, 'v) registry" where
  "register_group te h addToWSDispatch middleware r =
     (if \<not> hs_pointer h then Inl NotPointerToStruct
      else if map_of (rg_groups r) (hs_name h) \<noteq> None then Inl (AlreadyRegistered (hs_name h))
      else case add_methods te (hs_name h) addToWSDispatch (hs_methods h) (rg_handlers r) [] of
             Inl e \<Rightarrow> Inl e
           | Inr (hs, gs) \<Rightarrow>
               Inr (r\<lparr>rg_handlers := hs,
                      rg_groups := AList.update (hs_name h)
                        \<lparr>g_name = hs_name h, g_handlers = gs, g_middleware = middleware, g_socket = addToWSDispatch\<rparr> (rg_groups r)\<rparr>))"

definition Register :: "type_env \<Rightarrow> handler_struct \<Rightarrow> 'm list \<Rightarrow> ('m, 'v) registry \<Rightarrow> reg_panic + ('m, 'v) registry" where
  "Register te h middleware r = register_group te h True middleware r"

definition assertNoStreamHandlers :: "string \<Rightarrow> ('m, 'v) registry \<Rightarrow> reg_panic option" where
  "assertNoStreamHandlers groupName r =
     (case map_of (rg_groups r) groupName of
        None \<Rightarrow> None
      | Some g \<Rightarrow>
          map_option (\<lambda>(m, info). StreamingHandler groupName m) (find (\<lambda>(m, info). hi_kind info \<noteq> HandlerKindUnary) (g_handlers g)))"

definition RegisterREST :: "type_env \<Rightarrow> handler_struct \<Rightarrow> 'm list \<Rightarrow> ('m, 'v) registry \<Rightarrow> reg_panic + ('m, 'v) registry" where
  "RegisterREST te h middleware r =
     (case register_group te h False middleware r of
        Inl e \<Rightarrow> Inl e
      | Inr r1 \<Rightarrow>
          (case assertNoStreamHandlers (hs_name h) r1 of
             Some e \<Rightarrow> Inl e
           | None \<Rightarrow> Inr (r1\<lparr>rg_rest := List.insert (hs_name h) (rg_rest r1)\<rparr>)))"

definition EnableREST :: "string \<Rightarrow> ('m, 'v) registry \<Rightarrow> reg_panic + ('m, 'v) registry" where
  "EnableREST name r =
     (if map_of (rg_groups r) name = None then Inl (UnregisteredHandler name)
      else case assertNoStreamHandlers name r of
             Some e \<Rightarrow> Inl e
           | None \<Rightarrow> Inr (r\<lparr>rg_rest := List.insert name (rg_rest r)\<rparr>))"

definition RegisterMCP :: "type_env \<Rightarrow> handler_struct \<Rightarrow> 'm list \<Rightarrow> ('m, 'v) registry \<Rightarrow> reg_panic + ('m, 'v) registry" where
  "RegisterMCP te h middleware r =
     (case register_group te h False middleware r of
        Inl e \<Rightarrow> Inl e
      | Inr r1 \<Rightarrow>
          (case assertNoStreamHandlers (hs_name h) r1 of
             Some e \<Rightarrow> Inl e
           | None \<Rightarrow> Inr (r1\<lparr>rg_mcpOnly := List.insert (hs_name h) (rg_mcpOnly r1)\<rparr>)))"

fun enable_tools :: "string \<Rightarrow> 'm group \<Rightarrow> string list \<Rightarrow> string list \<Rightarrow> reg_panic + string list" where
  "enable_tools name g [] tools = Inr tools"
| "enable_tools name g (m # ms) tools =
     (case map_of (g_handlers g) m of
        None \<Rightarrow> Inl (NoSuchMethod name m)
      | Some info \<Rightarrow>
          if hi_kind info \<noteq> HandlerKindUnary then Inl (StreamingHandler name m)
          else enable_tools name g ms (List.insert (wire_method name m) tools))"

definition EnableMCP :: "string \<Rightarrow> string list \<Rightarrow> ('m, 'v) registry \<Rightarrow> reg_panic + ('m, 'v) registry" where
  "EnableMCP name ms r =
     (case map_of (rg_groups r) name of
        None \<Rightarrow> Inl (UnregisteredHandler name)
      | Some g \<Rightarrow>
          (case enable_tools name g ms (rg_mcpTools r) of
             Inl e \<Rightarrow> Inl e
           | Inr tools \<Rightarrow> Inr (r\<lparr>rg_mcpTools := tools\<rparr>)))"

definition IsREST :: "string \<Rightarrow> ('m, 'v) registry \<Rightarrow> bool" where
  "IsREST name r \<longleftrightarrow> name \<in> set (rg_rest r)"

definition IsMCPOnly :: "string \<Rightarrow> ('m, 'v) registry \<Rightarrow> bool" where
  "IsMCPOnly name r \<longleftrightarrow> name \<in> set (rg_mcpOnly r)"

definition RegisterErrorCode :: "string \<Rightarrow> ('m, 'v) registry \<Rightarrow> ('m, 'v) registry \<times> int" where
  "RegisterErrorCode name r =
     (let code = rg_nextErrorCode r
      in (r\<lparr>rg_nextErrorCode := code + 1, rg_errorCodes := rg_errorCodes r @ [(name, code)]\<rparr>, code))"

definition RegisterError :: "'v go_error \<Rightarrow> string \<Rightarrow> ('m, 'v) registry \<Rightarrow> ('m, 'v) registry" where
  "RegisterError err name r =
     (let code = rg_nextErrorCode r
      in r\<lparr>rg_nextErrorCode := code + 1, rg_errorCodes := rg_errorCodes r @ [(name, code)],
           rg_errorMappings := rg_errorMappings r @ [(err, code)]\<rparr>)"

section \<open>Lookup\<close>

definition Get :: "string \<Rightarrow> ('m, 'v) registry \<Rightarrow> handler_info option" where
  "Get m r = map_of (rg_handlers r) m"

text \<open>\<open>strings.Cut\<close> at the first dot.\<close>

definition cut_dot :: "string \<Rightarrow> (string \<times> string) option" where
  "cut_dot s =
     (if CHR ''.'' \<in> set s
      then Some (takeWhile (\<lambda>c. c \<noteq> CHR ''.'') s, tl (dropWhile (\<lambda>c. c \<noteq> CHR ''.'') s)) else None)"

definition lookupMethod :: "string \<Rightarrow> ('m, 'v) registry \<Rightarrow> handler_info option" where
  "lookupMethod m r =
     (case map_of (rg_handlers r) m of
        Some info \<Rightarrow> Some info
      | None \<Rightarrow>
          (case cut_dot m of
             None \<Rightarrow> None
           | Some (structName, methodName) \<Rightarrow>
               (case map_of (rg_groups r) structName of
                  None \<Rightarrow> None
                | Some g \<Rightarrow> map_of (g_handlers g) methodName)))"

definition GroupMiddleware :: "string \<Rightarrow> ('m, 'v) registry \<Rightarrow> 'm list" where
  "GroupMiddleware name r = (case map_of (rg_groups r) name of None \<Rightarrow> [] | Some g \<Rightarrow> g_middleware g)"

definition GetMiddleware :: "string \<Rightarrow> ('m, 'v) registry \<Rightarrow> 'm list" where
  "GetMiddleware m r =
     (case lookupMethod m r of
        None \<Rightarrow> []
      | Some info \<Rightarrow> (case map_of (rg_groups r) (hi_struct info) of None \<Rightarrow> [] | Some g \<Rightarrow> g_middleware g))"

section \<open>Arguments of a call\<close>

text \<open>
  What the arguments of a request come from: the parser of the JSON array, the decoder of a value of a
  type, the case conversions and the validator, if one is set.
\<close>

record ('j, 'v) call_env =
  ce_types :: type_env
  ce_parse :: "string \<Rightarrow> string + 'j list"
  ce_unmarshal :: "gotype \<Rightarrow> 'j \<Rightarrow> string + gval"
  ce_lib :: case_lib
  ce_validator :: "(gval \<Rightarrow> 'v go_error option) option"

datatype 'v args_outcome = Args "gval list" | ArgsError "'v go_error" | ArgsPanic

definition unmarshalParam :: "('j, 'v) call_env \<Rightarrow> gotype \<Rightarrow> 'j \<Rightarrow> string + gval" where
  "unmarshalParam e t d =
     (case t of GPtr u \<Rightarrow> map_sum id VPtr (ce_unmarshal e u d) | _ \<Rightarrow> ce_unmarshal e t d)"

definition hasVariadic :: "param_info list \<Rightarrow> bool" where
  "hasVariadic ps \<longleftrightarrow> ps \<noteq> [] \<and> pi_variadic (last ps)"

definition fixedCount :: "param_info list \<Rightarrow> nat" where
  "fixedCount ps = length ps - (if hasVariadic ps then 1 else 0)"

text \<open>The type of each of \<open>n\<close> positional values.\<close>

definition arg_types :: "param_info list \<Rightarrow> nat \<Rightarrow> gotype list" where
  "arg_types ps n = map pi_type (take (fixedCount ps) ps) @ replicate (n - fixedCount ps) (pi_type (last ps))"

definition decode_args :: "('j, 'v) call_env \<Rightarrow> param_info list \<Rightarrow> string \<Rightarrow> string + gval list" where
  "decode_args e ps raw =
     (if ps = [] then Inr []
      else case (if raw = [] then Inr [] else ce_parse e raw) of
             Inl err \<Rightarrow> Inl err
           | Inr js \<Rightarrow>
               if hasVariadic ps \<and> length js < fixedCount ps
               then Inl (''expected at least '' @ nat_str (fixedCount ps) @ '' params, got '' @ nat_str (length js))
               else if \<not> hasVariadic ps \<and> length js \<noteq> length ps
               then Inl (''expected '' @ nat_str (length ps) @ '' params, got '' @ nat_str (length js))
               else map_each (\<lambda>(t, d). unmarshalParam e t d) (zip (arg_types ps (length js)) js))"

definition is_struct :: "gotype \<Rightarrow> bool" where
  "is_struct t \<longleftrightarrow> (case t of GStruct n \<Rightarrow> True | _ \<Rightarrow> False)"

text \<open>
  The loop over the parameters that applies the transformations, and the one that validates. The
  argument of parameter \<open>i\<close> is taken by its index; the first component counts the parameters done.
\<close>

fun transform_args :: "('j, 'v) call_env \<Rightarrow> nat \<Rightarrow> param_info list \<Rightarrow> gval list \<Rightarrow> 'v args_outcome" where
  "transform_args e i [] args = Args args"
| "transform_args e i (p # ps) args =
     (if \<not> is_struct (deref (pi_type p)) then transform_args e (Suc i) ps args
      else if i \<ge> length args then ArgsPanic
      else case recurseIntoField (ce_lib e) (ce_types e) (pi_type p) (args ! i) of
             Inl err \<Rightarrow> ArgsError (ErrInvalidParams err)
           | Inr v \<Rightarrow> transform_args e (Suc i) ps (args[i := v]))"

fun validate_args :: "(gval \<Rightarrow> 'v go_error option) \<Rightarrow> nat \<Rightarrow> param_info list \<Rightarrow> gval list \<Rightarrow> 'v args_outcome" where
  "validate_args check i [] args = Args args"
| "validate_args check i (p # ps) args =
     (if \<not> is_struct (deref (pi_type p)) then validate_args check (Suc i) ps args
      else if i \<ge> length args then ArgsPanic
      else case args ! i of
             VNil \<Rightarrow> ArgsPanic
           | v \<Rightarrow> (case check (case v of VPtr u \<Rightarrow> u | _ \<Rightarrow> v) of
                      Some err \<Rightarrow> ArgsError err
                    | None \<Rightarrow> validate_args check (Suc i) ps args))"

definition buildArgs :: "('j, 'v) call_env \<Rightarrow> param_info list \<Rightarrow> string \<Rightarrow> 'v args_outcome" where
  "buildArgs e ps raw =
     (case decode_args e ps raw of
        Inl err \<Rightarrow> ArgsError (ErrInvalidParams err)
      | Inr args0 \<Rightarrow>
          (case transform_args e 0 ps args0 of
             Args args \<Rightarrow> (case ce_validator e of None \<Rightarrow> Args args | Some check \<Rightarrow> validate_args check 0 ps args)
           | r \<Rightarrow> r))"

section \<open>Invariant of the registry\<close>

definition dot_free :: "string \<Rightarrow> bool" where
  "dot_free s \<longleftrightarrow> CHR ''.'' \<notin> set s"

definition struct_ok :: "handler_struct \<Rightarrow> bool" where
  "struct_ok h \<longleftrightarrow> distinct (map m_name (hs_methods h)) \<and> (\<forall>m\<in>set (hs_methods h). dot_free (m_name m))"

definition group_ok :: "string \<Rightarrow> 'm group \<Rightarrow> bool" where
  "group_ok n g \<longleftrightarrow> g_name g = n \<and> gm_wf (g_handlers g) \<and>
     (\<forall>m i. map_of (g_handlers g) m = Some i \<longrightarrow> hi_name i = m \<and> hi_struct i = n \<and> dot_free m)"

definition all_unary :: "'m group \<Rightarrow> bool" where
  "all_unary g \<longleftrightarrow> (\<forall>m i. map_of (g_handlers g) m = Some i \<longrightarrow> hi_kind i = HandlerKindUnary)"

definition socket_method :: "('m, 'v) registry \<Rightarrow> string \<Rightarrow> handler_info \<Rightarrow> bool" where
  "socket_method r w i \<longleftrightarrow> (\<exists>n g m. w = wire_method n m \<and> map_of (rg_groups r) n = Some g \<and> g_socket g \<and> map_of (g_handlers g) m = Some i)"

definition dispatch_ok :: "('m, 'v) registry \<Rightarrow> bool" where
  "dispatch_ok r \<longleftrightarrow> gm_wf (rg_handlers r) \<and> gm_wf (rg_groups r) \<and>
     (\<forall>n g. map_of (rg_groups r) n = Some g \<longrightarrow> group_ok n g) \<and>
     (\<forall>w i. map_of (rg_handlers r) w = Some i \<longleftrightarrow> socket_method r w i)"

definition exposed_ok :: "('m, 'v) registry \<Rightarrow> bool" where
  "exposed_ok r \<longleftrightarrow>
     (\<forall>n\<in>set (rg_rest r) \<union> set (rg_mcpOnly r). \<exists>g. map_of (rg_groups r) n = Some g \<and> all_unary g) \<and>
     (\<forall>n\<in>set (rg_mcpOnly r). \<exists>g. map_of (rg_groups r) n = Some g \<and> \<not> g_socket g) \<and>
     (\<forall>w\<in>set (rg_mcpTools r). \<exists>n g m i. w = wire_method n m \<and> map_of (rg_groups r) n = Some g \<and>
        map_of (g_handlers g) m = Some i \<and> hi_kind i = HandlerKindUnary)"

definition codes_ok :: "('m, 'v) registry \<Rightarrow> bool" where
  "codes_ok r \<longleftrightarrow> rg_nextErrorCode r = 1000 + int (length (rg_errorCodes r)) \<and>
     map snd (rg_errorCodes r) = map (\<lambda>k. 1000 + int k) [0..<length (rg_errorCodes r)] \<and>
     (\<forall>(e, c)\<in>set (rg_errorMappings r). 1000 \<le> c \<and> c < rg_nextErrorCode r)"

definition reg_inv :: "('m, 'v) registry \<Rightarrow> bool" where
  "reg_inv r \<longleftrightarrow> dispatch_ok r \<and> exposed_ok r \<and> codes_ok r"

inductive reg_step :: "type_env \<Rightarrow> ('m, 'v) registry \<Rightarrow> ('m, 'v) registry \<Rightarrow> bool" for te where
  rs_register: "struct_ok h \<Longrightarrow> Register te h mw r = Inr r' \<Longrightarrow> reg_step te r r'"
| rs_rest: "struct_ok h \<Longrightarrow> RegisterREST te h mw r = Inr r' \<Longrightarrow> reg_step te r r'"
| rs_mcp: "struct_ok h \<Longrightarrow> RegisterMCP te h mw r = Inr r' \<Longrightarrow> reg_step te r r'"
| rs_enable_rest: "EnableREST n r = Inr r' \<Longrightarrow> reg_step te r r'"
| rs_enable_mcp: "EnableMCP n ms r = Inr r' \<Longrightarrow> reg_step te r r'"
| rs_error: "reg_step te r (RegisterError err n r)"
| rs_error_code: "reg_step te r (fst (RegisterErrorCode n r))"

lemma wire_inject:
  assumes "dot_free m" "dot_free m'"
  shows "wire_method n m = wire_method n' m' \<longleftrightarrow> n = n' \<and> m = m'"
proof
  assume h: "wire_method n m = wire_method n' m'"
  have r: "takeWhile (\<lambda>c. c \<noteq> CHR ''.'') (rev (wire_method n m)) = rev m" if "dot_free m" for n m
    using that by (auto simp: wire_method_def dot_free_def takeWhile_append)
  have "rev m = rev m'" using r [OF assms(1), of n] r [OF assms(2), of n'] h by simp
  then have "m = m'" by simp
  with h show "n = n' \<and> m = m'" by (simp add: wire_method_def)
qed simp

lemma validateMethod_name: "validateMethod te m n = Some i \<Longrightarrow> hi_name i = m_name m \<and> hi_struct i = n"
  by (auto simp: validateMethod_def validateOutputs_def split: list.splits if_splits option.splits prod.splits)

text \<open>What the loop over the methods adds to the group and to the dispatch map.\<close>

lemma add_methods_spec:
  assumes "add_methods te n socket ms hs gs = Inr (hs', gs')" "distinct (map m_name ms)"
    "\<forall>m\<in>set ms. dot_free (m_name m) \<and> map_of gs (m_name m) = None" "gm_wf hs" "gm_wf gs"
  shows "gm_wf hs' \<and> gm_wf gs' \<and>
    (\<forall>m i. map_of gs' m = Some i \<longrightarrow> map_of gs m = Some i \<or> hi_name i = m \<and> hi_struct i = n \<and> dot_free m) \<and>
    (\<forall>m i. map_of gs m = Some i \<longrightarrow> map_of gs' m = Some i) \<and>
    (\<forall>w i. map_of hs' w = Some i \<longleftrightarrow>
       map_of hs w = Some i \<or> socket \<and> (\<exists>m. w = wire_method n m \<and> map_of gs' m = Some i \<and> map_of gs m = None))"
  using assms
proof (induction ms arbitrary: hs gs)
  case (Cons m ms)
  show ?case
  proof (cases "validateMethod te m n")
    case None
    then show ?thesis using Cons by auto
  next
    case (Some info)
    then have nm: "hi_name info = m_name m" "hi_struct info = n" using validateMethod_name by auto
    let ?w = "wire_method n (m_name m)"
    let ?gs = "AList.update (m_name m) info gs"
    let ?hs = "if socket then AList.update ?w info hs else hs"
    have rest: "add_methods te n socket ms ?hs ?gs = Inr (hs', gs')" and new: "socket \<Longrightarrow> map_of hs ?w = None"
      using Cons.prems(1) Some nm by (auto simp: Let_def split: option.splits if_splits)
    have dist: "distinct (map m_name ms)" "\<forall>m'\<in>set ms. m_name m' \<noteq> m_name m" using Cons.prems(2) by (auto simp: image_iff)
    have pre: "\<forall>m'\<in>set ms. dot_free (m_name m') \<and> map_of ?gs (m_name m') = None"
      using Cons.prems(3) dist by (auto simp: map_of_update)
    note IH = Cons.IH [OF rest dist(1) pre]
    have fresh: "map_of gs (m_name m) = None" "dot_free (m_name m)" using Cons.prems(3) by auto
    have ih: "gm_wf hs'" "gm_wf gs'"
      "\<And>m' i. map_of gs' m' = Some i \<Longrightarrow> map_of ?gs m' = Some i \<or> hi_name i = m' \<and> hi_struct i = n \<and> dot_free m'"
      "\<And>m' i. map_of ?gs m' = Some i \<Longrightarrow> map_of gs' m' = Some i"
      "\<And>w i. map_of hs' w = Some i \<longleftrightarrow>
         map_of ?hs w = Some i \<or> socket \<and> (\<exists>m'. w = wire_method n m' \<and> map_of gs' m' = Some i \<and> map_of ?gs m' = None)"
      using IH Cons.prems(4,5) by auto
    have mg: "map_of gs' (m_name m) = Some info" using ih(4) [of "m_name m" info] by (simp add: map_of_update)
    have "map_of hs' w = Some i \<longleftrightarrow>
        map_of hs w = Some i \<or> socket \<and> (\<exists>m'. w = wire_method n m' \<and> map_of gs' m' = Some i \<and> map_of gs m' = None)" for w i
    proof (cases socket)
      case True
      show ?thesis
      proof (cases "w = ?w")
        case w: True
        have "(\<exists>m'. w = wire_method n m' \<and> map_of gs' m' = Some i \<and> map_of gs m' = None) \<longleftrightarrow> i = info"
          using w mg fresh by (auto simp: wire_method_def)
        then show ?thesis using ih(5) [of w i] True new [OF True] w mg
          by (auto simp: map_of_update wire_method_def)
      next
        case w: False
        have "map_of ?gs m' = None \<longleftrightarrow> m' \<noteq> m_name m \<and> map_of gs m' = None" for m' by (simp add: map_of_update)
        with w have "(\<exists>m'. w = wire_method n m' \<and> map_of gs' m' = Some i \<and> map_of ?gs m' = None) \<longleftrightarrow>
            (\<exists>m'. w = wire_method n m' \<and> map_of gs' m' = Some i \<and> map_of gs m' = None)"
          by blast
        then show ?thesis using ih(5) [of w i] True w by (simp add: map_of_update)
      qed
    qed (use ih(5) [of w i] in simp)
    moreover have "map_of gs m' = Some i \<or> hi_name i = m' \<and> hi_struct i = n \<and> dot_free m'" if "map_of gs' m' = Some i" for m' i
      using ih(3) [OF that] nm fresh by (auto simp: map_of_update split: if_splits)
    moreover have "map_of gs' m' = Some i" if "map_of gs m' = Some i" for m' i
      using ih(4) [of m' i] that fresh by (cases "m' = m_name m") (simp_all add: map_of_update)
    ultimately show ?thesis using ih(1,2) by blast
  qed
qed auto

lemma register_inv:
  assumes inv: "reg_inv r" and h: "struct_ok h" and r': "register_group te h socket mw r = Inr r'"
  shows "reg_inv r' \<and> (\<exists>g. map_of (rg_groups r') (hs_name h) = Some g \<and> g_socket g = socket \<and> g_middleware g = mw) \<and>
    hs_name h \<notin> set (rg_rest r') \<union> set (rg_mcpOnly r')"
proof -
  let ?n = "hs_name h"
  from r' obtain hs gs where none: "map_of (rg_groups r) ?n = None"
    and add: "add_methods te ?n socket (hs_methods h) (rg_handlers r) [] = Inr (hs, gs)"
    and r'_eq: "r' = r\<lparr>rg_handlers := hs,
        rg_groups := AList.update ?n \<lparr>g_name = ?n, g_handlers = gs, g_middleware = mw, g_socket = socket\<rparr> (rg_groups r)\<rparr>"
    by (auto simp: register_group_def split: if_splits sum.splits)
  have d: "dispatch_ok r" and x: "exposed_ok r" and c: "codes_ok r" using inv by (simp_all add: reg_inv_def)
  note d' = d [unfolded dispatch_ok_def]
  have spec: "gm_wf hs" "gm_wf gs" "\<And>m i. map_of gs m = Some i \<Longrightarrow> hi_name i = m \<and> hi_struct i = ?n \<and> dot_free m"
    "\<And>w i. map_of hs w = Some i \<longleftrightarrow> map_of (rg_handlers r) w = Some i \<or> socket \<and> (\<exists>m. w = wire_method ?n m \<and> map_of gs m = Some i)"
    using add_methods_spec [OF add] h d' by (auto simp: struct_ok_def)
  let ?g = "\<lparr>g_name = ?n, g_handlers = gs, g_middleware = mw, g_socket = socket\<rparr>"
  have gr: "map_of (rg_groups r') k = (if k = ?n then Some ?g else map_of (rg_groups r) k)" for k
    by (simp add: r'_eq)
  have old: "map_of (rg_groups r) k = Some g \<Longrightarrow> map_of (rg_groups r') k = Some g" for k g using none by (auto simp: gr)
  have "group_ok k g" if "map_of (rg_groups r') k = Some g" for k g
    using that d' spec(2,3) by (auto simp: gr group_ok_def split: if_splits)
  moreover have "map_of hs w = Some i \<longleftrightarrow> socket_method r' w i" for w i
  proof -
    have "socket_method r' w i \<longleftrightarrow> socket_method r w i \<or> socket \<and> (\<exists>m. w = wire_method ?n m \<and> map_of gs m = Some i)"
    proof
      assume "socket_method r' w i"
      then show "socket_method r w i \<or> socket \<and> (\<exists>m. w = wire_method ?n m \<and> map_of gs m = Some i)"
        by (fastforce simp: socket_method_def gr split: if_splits)
    next
      assume "socket_method r w i \<or> socket \<and> (\<exists>m. w = wire_method ?n m \<and> map_of gs m = Some i)"
      then show "socket_method r' w i"
      proof
        assume "socket_method r w i"
        then show ?thesis using old unfolding socket_method_def by blast
      next
        assume "socket \<and> (\<exists>m. w = wire_method ?n m \<and> map_of gs m = Some i)"
        then obtain m where "socket" "w = wire_method ?n m" "map_of gs m = Some i" by blast
        then show ?thesis unfolding socket_method_def
          by - (rule exI [of _ ?n], rule exI [of _ ?g], rule exI [of _ m], simp add: gr)
      qed
    qed
    then show ?thesis using d' by (simp add: spec(4))
  qed
  ultimately have "dispatch_ok r'" using d' spec(1) unfolding dispatch_ok_def by (simp add: r'_eq)
  moreover have "exposed_ok r'"
  proof -
    have eqs: "rg_rest r' = rg_rest r" "rg_mcpOnly r' = rg_mcpOnly r" "rg_mcpTools r' = rg_mcpTools r" by (simp_all add: r'_eq)
    note x' = x [unfolded exposed_ok_def]
    show ?thesis unfolding exposed_ok_def eqs
    proof (intro conjI ballI)
      fix k assume "k \<in> set (rg_rest r) \<union> set (rg_mcpOnly r)"
      then show "\<exists>g. map_of (rg_groups r') k = Some g \<and> all_unary g" using x' old by blast
    next
      fix k assume "k \<in> set (rg_mcpOnly r)"
      then show "\<exists>g. map_of (rg_groups r') k = Some g \<and> \<not> g_socket g" using x' old by blast
    next
      fix w assume "w \<in> set (rg_mcpTools r)"
      then show "\<exists>n g m i. w = wire_method n m \<and> map_of (rg_groups r') n = Some g \<and> map_of (g_handlers g) m = Some i \<and>
          hi_kind i = HandlerKindUnary" using x' old by blast
    qed
  qed
  moreover have "codes_ok r'"
  proof -
    have "codes_ok (r\<lparr>rg_handlers := a, rg_groups := b\<rparr>) = codes_ok r" for a b by (simp add: codes_ok_def)
    with c show ?thesis unfolding r'_eq by blast
  qed
  moreover have out: "?n \<notin> set (rg_rest r) \<union> set (rg_mcpOnly r)" 
    using x none unfolding exposed_ok_def by (metis option.distinct(1))
  ultimately have "reg_inv r'" by (simp add: reg_inv_def)
  then show ?thesis using out by (simp add: gr) (simp add: r'_eq)
qed

lemma assertNoStream_unary:
  "assertNoStreamHandlers n r = None \<Longrightarrow> map_of (rg_groups r) n = Some g \<Longrightarrow> all_unary g"
  by (fastforce simp: assertNoStreamHandlers_def all_unary_def find_None_iff dest: map_of_SomeD split: option.splits)

lemma exposure_keeps_dispatch [simp]:
  "dispatch_ok (r\<lparr>rg_rest := a\<rparr>) = dispatch_ok r" "codes_ok (r\<lparr>rg_rest := a\<rparr>) = codes_ok r"
  "dispatch_ok (r\<lparr>rg_mcpOnly := a\<rparr>) = dispatch_ok r" "codes_ok (r\<lparr>rg_mcpOnly := a\<rparr>) = codes_ok r"
  "dispatch_ok (r\<lparr>rg_mcpTools := a\<rparr>) = dispatch_ok r" "codes_ok (r\<lparr>rg_mcpTools := a\<rparr>) = codes_ok r"
  by (simp_all add: dispatch_ok_def socket_method_def codes_ok_def)

lemma enable_tools_spec:
  "enable_tools n g ms tools = Inr tools' \<Longrightarrow> w \<in> set tools' \<Longrightarrow>
     w \<in> set tools \<or> (\<exists>m i. w = wire_method n m \<and> map_of (g_handlers g) m = Some i \<and> hi_kind i = HandlerKindUnary)"
  by (induction n g ms tools rule: enable_tools.induct) (auto split: option.splits if_splits)

lemma codes_ok_error: "codes_ok r \<Longrightarrow> codes_ok (RegisterError err n r) \<and> codes_ok (fst (RegisterErrorCode n r))"
  by (auto simp: codes_ok_def RegisterError_def RegisterErrorCode_def Let_def)

lemma reg_inv_step: "reg_step te r r' \<Longrightarrow> reg_inv r \<Longrightarrow> reg_inv r'"
proof (induction rule: reg_step.induct)
  case (rs_register h mw r r')
  then show ?case using register_inv [of r h te True mw r'] by (simp add: Register_def)
next
  case (rs_rest h mw r r')
  then obtain r1 where r1: "register_group te h False mw r = Inr r1" "assertNoStreamHandlers (hs_name h) r1 = None"
      and r': "r' = r1\<lparr>rg_rest := List.insert (hs_name h) (rg_rest r1)\<rparr>"
    by (auto simp: RegisterREST_def split: sum.splits option.splits)
  from register_inv [OF rs_rest(3,1) r1(1)] obtain g where g: "reg_inv r1" "map_of (rg_groups r1) (hs_name h) = Some g" by blast
  then show ?case using assertNoStream_unary [OF r1(2) g(2)]
    by (simp add: r' reg_inv_def) (simp add: exposed_ok_def)
next
  case (rs_mcp h mw r r')
  then obtain r1 where r1: "register_group te h False mw r = Inr r1" "assertNoStreamHandlers (hs_name h) r1 = None"
      and r': "r' = r1\<lparr>rg_mcpOnly := List.insert (hs_name h) (rg_mcpOnly r1)\<rparr>"
    by (auto simp: RegisterMCP_def split: sum.splits option.splits)
  from register_inv [OF rs_mcp(3,1) r1(1)] obtain g where g: "reg_inv r1" "map_of (rg_groups r1) (hs_name h) = Some g" "\<not> g_socket g"
    by auto
  then show ?case using assertNoStream_unary [OF r1(2) g(2)]
    by (simp add: r' reg_inv_def) (simp add: exposed_ok_def)
next
  case (rs_enable_rest n r r')
  then obtain g where g: "map_of (rg_groups r) n = Some g" "assertNoStreamHandlers n r = None"
      and r': "r' = r\<lparr>rg_rest := List.insert n (rg_rest r)\<rparr>"
    by (auto simp: EnableREST_def split: if_splits option.splits)
  then show ?case using rs_enable_rest(2) assertNoStream_unary [OF g(2,1)]
    by (simp add: r' reg_inv_def) (simp add: exposed_ok_def)
next
  case (rs_enable_mcp n ms r r')
  then obtain g tools where g: "map_of (rg_groups r) n = Some g" "enable_tools n g ms (rg_mcpTools r) = Inr tools"
      and r': "r' = r\<lparr>rg_mcpTools := tools\<rparr>"
    by (auto simp: EnableMCP_def split: option.splits sum.splits)
  have "\<exists>k g' m i. w = wire_method k m \<and> map_of (rg_groups r) k = Some g' \<and> map_of (g_handlers g') m = Some i \<and> hi_kind i = HandlerKindUnary"
    if "w \<in> set tools" for w
    using enable_tools_spec [OF g(2) that] g(1) rs_enable_mcp(2) unfolding reg_inv_def exposed_ok_def by blast
  then show ?case using rs_enable_mcp(2)
    by (simp add: r' reg_inv_def) (simp add: exposed_ok_def)
next
  case (rs_error r err n)
  then show ?case using codes_ok_error [of r err n]
    by (simp add: reg_inv_def) (simp add: RegisterError_def Let_def exposed_ok_def dispatch_ok_def socket_method_def)
next
  case (rs_error_code r n)
  then show ?case using codes_ok_error [of r undefined n]
    by (simp add: reg_inv_def) (simp add: RegisterErrorCode_def Let_def exposed_ok_def dispatch_ok_def socket_method_def)
qed

interpretation reg_ts: trans_sys "\<lambda>r. r = NewRegistry" "reg_step te" reg_inv
proof
  show "reg_inv r" if "r = NewRegistry" for r
    using that by (simp add: NewRegistry_def reg_inv_def dispatch_ok_def exposed_ok_def codes_ok_def socket_method_def)
  show "reg_inv t" if "reg_step te s t" "reg_inv s" for s t using reg_inv_step that by blast
qed

section \<open>Properties of the registry\<close>

lemma cut_wire: "dot_free n \<Longrightarrow> cut_dot (wire_method n m) = Some (n, m)"
  by (auto simp: cut_dot_def wire_method_def dot_free_def takeWhile_append dropWhile_append)

lemma get_not_socket:
  assumes "dispatch_ok r" "map_of (rg_groups r) n = Some g" "map_of (g_handlers g) m = Some i"
  shows "Get (wire_method n m) r = (if g_socket g then Some i else None)"
proof -
  have ok: "group_ok n g" using assms by (simp add: dispatch_ok_def)
  have "socket_method r (wire_method n m) j \<longleftrightarrow> g_socket g \<and> j = i" for j
  proof
    assume "socket_method r (wire_method n m) j"
    then obtain n' g' m' where h: "wire_method n m = wire_method n' m'" "map_of (rg_groups r) n' = Some g'" "g_socket g'" "map_of (g_handlers g') m' = Some j"
      by (auto simp: socket_method_def)
    have "group_ok n' g'" using h(2) assms(1) by (simp add: dispatch_ok_def)
    then have "dot_free m" "dot_free m'" using ok assms(3) h(4) by (auto simp: group_ok_def)
    then have "n = n'" "m = m'" using h(1) wire_inject by auto
    then show "g_socket g \<and> j = i" using h assms by simp
  qed (use assms in \<open>auto simp: socket_method_def\<close>)
  then have "map_of (rg_handlers r) (wire_method n m) = Some j \<longleftrightarrow> g_socket g \<and> j = i" for j
    using assms(1) by (simp add: dispatch_ok_def)
  then show ?thesis unfolding Get_def by (cases "map_of (rg_handlers r) (wire_method n m)") auto
qed


text \<open>
  Custom error codes are distinct, start at 1000 and never coincide with a code of the protocol,
  and every mapped error has a registered code.
\<close>

theorem custom_codes_distinct:
  assumes "(reg_step te)\<^sup>*\<^sup>* NewRegistry r"
  shows "distinct (map snd (rg_errorCodes r)) \<and> set (map snd (rg_errorMappings r)) \<subseteq> set (map snd (rg_errorCodes r)) \<and>
    set (map snd (rg_errorCodes r)) \<inter> set standard_codes = {} \<and>
    snd (RegisterErrorCode nm r) \<notin> set (map snd (rg_errorCodes r))"
proof -
  have c: "codes_ok r" using reg_ts.inv_reachable [OF refl assms] by (simp add: reg_inv_def)
  have s: "map snd (rg_errorCodes r) = map (\<lambda>k. 1000 + int k) [0..<length (rg_errorCodes r)]"
    "rg_nextErrorCode r = 1000 + int (length (rg_errorCodes r))" using c by (auto simp: codes_ok_def)
  have d: "distinct (map snd (rg_errorCodes r))" unfolding s(1) by (simp add: distinct_map inj_on_def)
  have m: "x \<in> set (map snd (rg_errorCodes r)) \<longleftrightarrow> 1000 \<le> x \<and> x < rg_nextErrorCode r" for x
  proof -
    have "1000 \<le> x \<and> x < rg_nextErrorCode r \<Longrightarrow> x = 1000 + int (nat (x - 1000)) \<and> nat (x - 1000) < length (rg_errorCodes r)"
      using s(2) by auto
    then show ?thesis unfolding s by (auto simp: image_iff intro!: bexI [of _ "nat (x - 1000)"])
  qed
  have "set (map snd (rg_errorMappings r)) \<subseteq> set (map snd (rg_errorCodes r))"
  proof
    fix x assume "x \<in> set (map snd (rg_errorMappings r))"
    then have "1000 \<le> x \<and> x < rg_nextErrorCode r" using c unfolding codes_ok_def by fastforce
    then show "x \<in> set (map snd (rg_errorCodes r))" by (simp only: m)
  qed
  moreover have "x \<notin> set standard_codes" if "x \<in> set (map snd (rg_errorCodes r))" for x
  proof -
    have "\<forall>y\<in>set standard_codes. y < 0" by (simp add: standard_codes_def code_defs)
    then show ?thesis using that m [of x] by force
  qed
  moreover have "snd (RegisterErrorCode nm r) \<notin> set (map snd (rg_errorCodes r))"
    unfolding m by (simp add: RegisterErrorCode_def Let_def)
  ultimately show ?thesis using d by blast
qed

section \<open>Properties of the arguments\<close>

lemma map_each_Inr: "map_each g xs = Inr ys \<Longrightarrow> list_all2 (\<lambda>x y. g x = Inr y) xs ys"
  by (induction xs arbitrary: ys) (auto split: sum.splits)

text \<open>What is known of the arguments: one per type, each a value of it and not a nil pointer.\<close>

definition arg_ok :: "type_env \<Rightarrow> gotype \<Rightarrow> gval \<Rightarrow> bool" where
  "arg_ok te t v \<longleftrightarrow> wt te t v \<and> (is_struct (deref t) \<longrightarrow> v \<noteq> VNil)"

definition decoder_ok :: "('j, 'v) call_env \<Rightarrow> bool" where
  "decoder_ok e \<longleftrightarrow> (\<forall>t d v. ce_unmarshal e t d = Inr v \<longrightarrow> wt (ce_types e) t v)"

lemma unmarshalParam_ok: "decoder_ok e \<Longrightarrow> unmarshalParam e t d = Inr v \<Longrightarrow> arg_ok (ce_types e) t v"
proof (cases "\<exists>u. t = GPtr u")
  case True
  assume h: "decoder_ok e" "unmarshalParam e t d = Inr v"
  obtain u where u: "t = GPtr u" using True by blast
  then obtain w where "v = VPtr w" "ce_unmarshal e u d = Inr w"
    using h(2) by (auto simp: unmarshalParam_def map_sum_def split: sum.splits)
  then show ?thesis using h(1) u by (simp add: decoder_ok_def arg_ok_def)
next
  case False
  assume h: "decoder_ok e" "unmarshalParam e t d = Inr v"
  have "ce_unmarshal e t d = Inr v" using h(2) False by (cases t) (auto simp: unmarshalParam_def)
  then have "wt (ce_types e) t v" using h(1) by (simp add: decoder_ok_def)
  moreover have "deref t = t" using False by (cases t) auto
  ultimately show ?thesis by (cases t; cases v) (auto simp: arg_ok_def is_struct_def)
qed

lemma length_arg_types:
  "ps \<noteq> [] \<Longrightarrow> (if hasVariadic ps then fixedCount ps \<le> n else n = length ps) \<Longrightarrow> length (arg_types ps n) = n"
  by (auto simp: arg_types_def fixedCount_def split: if_splits)

lemma nth_arg_types:
  assumes "k < length ps" "is_struct (deref (pi_type (ps ! k)))" "hasVariadic ps \<Longrightarrow> \<not> is_struct (deref (pi_type (last ps)))"
    "if hasVariadic ps then fixedCount ps \<le> n else n = length ps"
  shows "k < n \<and> arg_types ps n ! k = pi_type (ps ! k)"
proof -
  have "k < fixedCount ps"
  proof (cases "hasVariadic ps")
    case True
    then have "k \<noteq> length ps - 1" using assms(2,3) by (metis hasVariadic_def last_conv_nth)
    then show ?thesis using assms(1) True by (simp add: fixedCount_def)
  qed (use assms(1) in \<open>simp add: fixedCount_def\<close>)
  then show ?thesis using assms(1,4) by (auto simp: arg_types_def nth_append fixedCount_def split: if_splits)
qed

lemma decode_args_ok:
  assumes "decoder_ok e" "decode_args e ps raw = Inr args" "ps \<noteq> []"
  shows "(if hasVariadic ps then fixedCount ps \<le> length args else length args = length ps) \<and>
    list_all2 (arg_ok (ce_types e)) (arg_types ps (length args)) args"
proof -
  obtain js where js: "(if raw = [] then Inr [] else ce_parse e raw) = Inr js"
    using assms(2,3) by (cases "if raw = [] then Inr [] else ce_parse e raw") (simp_all add: decode_args_def)
  have m: "map_each (\<lambda>(t, d). unmarshalParam e t d) (zip (arg_types ps (length js)) js) = Inr args"
      and len: "if hasVariadic ps then fixedCount ps \<le> length js else length js = length ps"
    using assms(2,3) unfolding decode_args_def js by (auto split: if_splits)
  have la: "length (arg_types ps (length js)) = length js" using length_arg_types [OF assms(3), of "length js"] len by simp
  have all: "list_all2 (\<lambda>(t, d) v. unmarshalParam e t d = Inr v) (zip (arg_types ps (length js)) js) args"
    using map_each_Inr [OF m] by (simp add: case_prod_beta')
  then have n: "length args = length js" using la by (simp add: list_all2_lengthD [symmetric])
  have "list_all2 (arg_ok (ce_types e)) (arg_types ps (length js)) args"
    using all unmarshalParam_ok [OF assms(1)] la n by (auto simp: list_all2_conv_all_nth)
  then show ?thesis using len n by simp
qed

lemma transform_arg_ok:
  assumes "ValidateTransformTags te t = Some (Inr s)" "is_struct (deref t)" "arg_ok te t v"
  shows "\<exists>w. recurseIntoField lib te t v = Inr w \<and> arg_ok te t w"
proof -
  obtain n where n: "deref t = GStruct n" using assms(2) by (auto simp: is_struct_def split: gotype.splits)
  then have c: "child_struct t = Some n" "strip_ptrs t = GStruct n" by (cases t; simp)+
  then have "ValidateTransformTags te (GStruct n) = Some (Inr s)" using assms(1) by (simp add: ValidateTransformTags_def)
  then obtain S where S: "closed_ok te S" "n \<in> S" by (cases rule: validate_result [of te n]) auto
  from walk_ok(2) [OF S(1) c(1) S(2)] obtain w where w: "recurseIntoField lib te t v = Inr w" "wt te t w"
    using assms(3) unfolding arg_ok_def by blast
  have "w \<noteq> VNil"
  proof (cases "\<exists>u. t = GPtr u")
    case True
    then have t: "t = GPtr (GStruct n)" using n by auto
    then obtain u where "v = VPtr u" using assms(2,3) by (cases v) (auto simp: arg_ok_def)
    then show ?thesis using w(1) t by (auto simp: map_sum_def split: sum.splits)
  next
    case False
    then have "t = GStruct n" using n by (cases t) auto
    then show ?thesis using w(2) by auto
  qed
  with w show ?thesis by (auto simp: arg_ok_def)
qed

definition covers :: "nat \<Rightarrow> param_info list \<Rightarrow> gotype list \<Rightarrow> bool" where
  "covers i ps ts \<longleftrightarrow> (\<forall>k<length ps. is_struct (deref (pi_type (ps ! k))) \<longrightarrow> i + k < length ts \<and> ts ! (i + k) = pi_type (ps ! k))"

lemma covers_Cons:
  "covers i (p # ps) ts \<longleftrightarrow> (is_struct (deref (pi_type p)) \<longrightarrow> i < length ts \<and> ts ! i = pi_type p) \<and> covers (Suc i) ps ts"
  by (auto simp: covers_def nth_Cons split: nat.splits)

lemma transform_args_ok:
  assumes "params_tag_error (ce_types e) ps = None" "covers i ps ts" "list_all2 (arg_ok (ce_types e)) ts args"
  shows "\<exists>args'. transform_args e i ps args = Args args' \<and> list_all2 (arg_ok (ce_types e)) ts args'"
  using assms
proof (induction ps arbitrary: i args)
  case (Cons p ps)
  have len: "length args = length ts" using Cons.prems(3) by (simp add: list_all2_lengthD)
  have c: "covers (Suc i) ps ts" using Cons.prems(2) by (simp add: covers_Cons)
  obtain s where s: "ValidateTransformTags (ce_types e) (pi_type p) = Some (Inr s)" and pt: "params_tag_error (ce_types e) ps = None"
    using Cons.prems(1) tag_check_returns [of "ce_types e" "pi_type p"] by (auto split: option.splits sum.splits)
  show ?case
  proof (cases "is_struct (deref (pi_type p))")
    case True
    then have i: "i < length args" "ts ! i = pi_type p" using Cons.prems(2) len by (auto simp: covers_Cons)
    then have "arg_ok (ce_types e) (pi_type p) (args ! i)" using Cons.prems(3) by (auto simp: list_all2_conv_all_nth)
    from transform_arg_ok [OF s True this] obtain w
      where w: "recurseIntoField (ce_lib e) (ce_types e) (pi_type p) (args ! i) = Inr w" "arg_ok (ce_types e) (pi_type p) w" by blast
    have "list_all2 (arg_ok (ce_types e)) ts (args[i := w])"
      using Cons.prems(3) w(2) i by (auto simp: list_all2_conv_all_nth nth_list_update)
    from Cons.IH [OF pt c this] show ?thesis using True i w(1) by simp
  next
    case False
    then show ?thesis using Cons.IH [OF pt c Cons.prems(3)] by simp
  qed
qed simp

definition target :: "gval \<Rightarrow> gval" where
  "target v = (case v of VPtr u \<Rightarrow> u | _ \<Rightarrow> v)"

lemma validate_args_ok:
  assumes "covers i ps ts" "list_all2 (arg_ok te) ts args"
  shows "case validate_args check i ps args of
      Args args' \<Rightarrow> args' = args \<and> (\<forall>k<length ps. is_struct (deref (pi_type (ps ! k))) \<longrightarrow> check (target (args ! (i + k))) = None)
    | ArgsError err \<Rightarrow> \<exists>k<length ps. is_struct (deref (pi_type (ps ! k))) \<and> check (target (args ! (i + k))) = Some err
    | ArgsPanic \<Rightarrow> False"
  using assms
proof (induction ps arbitrary: i)
  case (Cons p ps)
  have c: "covers (Suc i) ps ts" using Cons.prems(1) by (simp add: covers_Cons)
  note IH = Cons.IH [OF c Cons.prems(2)]
  have ex: "(\<exists>k<length (p # ps). P k) \<longleftrightarrow> P 0 \<or> (\<exists>k<length ps. P (Suc k))" for P
    by (metis Suc_less_eq length_Cons less_Suc_eq_0_disj zero_less_Suc)
  have all: "(\<forall>k<length (p # ps). P k) \<longleftrightarrow> P 0 \<and> (\<forall>k<length ps. P (Suc k))" for P
    by (metis Suc_less_eq length_Cons less_Suc_eq_0_disj zero_less_Suc)
  show ?case
  proof (cases "is_struct (deref (pi_type p))")
    case True
    then have i: "i < length args" "args ! i \<noteq> VNil"
      using Cons.prems by (auto simp: covers_Cons list_all2_conv_all_nth arg_ok_def)
    then have v: "validate_args check i (p # ps) args =
        (case check (target (args ! i)) of Some err \<Rightarrow> ArgsError err | None \<Rightarrow> validate_args check (Suc i) ps args)"
      using True by (cases "args ! i") (auto simp: target_def)
    show ?thesis
    proof (cases "check (target (args ! i))")
      case None
      then show ?thesis using IH True unfolding v all ex by (auto split: args_outcome.splits)
    qed (use True in \<open>unfold v all ex, auto\<close>)
  next
    case False
    then show ?thesis using IH unfolding all ex by (auto split: args_outcome.splits)
  qed
qed simp

text \<open>
  Property C17. Reflective calls are safe. For a registered handler without a variadic struct parameter, a decoder
  that yields values of the requested types and any request, building the arguments never panics, and
  if it succeeds there is one argument of the right type for every parameter of the method and every
  struct argument, after its normalization, was accepted by the validator.
\<close>

theorem arguments_checked:
  assumes "decoder_ok e" "params_tag_error (ce_types e) ps = None"
    and "\<not> (hasVariadic ps \<and> is_struct (deref (pi_type (last ps))))"
  shows "case buildArgs e ps raw of
      Args args \<Rightarrow> list_all2 (wt (ce_types e)) (arg_types ps (length args)) args \<and>
        (if hasVariadic ps then fixedCount ps \<le> length args else length args = length ps) \<and>
        (\<forall>check k. ce_validator e = Some check \<and> k < length ps \<and> is_struct (deref (pi_type (ps ! k))) \<longrightarrow>
           check (target (args ! k)) = None)
    | ArgsError err \<Rightarrow> pe_code err = CodeInvalidParams \<or> (\<exists>check v. ce_validator e = Some check \<and> check v = Some err)
    | ArgsPanic \<Rightarrow> False"
proof (cases "decode_args e ps raw")
  case (Inl err)
  then show ?thesis by (simp add: buildArgs_def ErrInvalidParams_def NewError_def)
next
  case (Inr args0)
  show ?thesis
  proof (cases "ps = []")
    case True
    then show ?thesis using Inr
      by (auto simp: buildArgs_def decode_args_def hasVariadic_def arg_types_def fixedCount_def split: option.splits)
  next
    case False
    let ?ts = "arg_types ps (length args0)"
    note d = decode_args_ok [OF assms(1) Inr False]
    have cov: "covers 0 ps ?ts"
      using nth_arg_types [of _ ps "length args0"] assms(3) d length_arg_types [OF False, of "length args0"]
      by (auto simp: covers_def)
    obtain args where a: "transform_args e 0 ps args0 = Args args" "list_all2 (arg_ok (ce_types e)) ?ts args"
      using transform_args_ok [OF assms(2) cov] d by blast
    have len: "length args = length args0" using a(2) d by (metis list_all2_lengthD)
    have wt: "list_all2 (wt (ce_types e)) (arg_types ps (length args)) args"
      using a(2) unfolding len by (auto simp: arg_ok_def elim: list_all2_mono)
    show ?thesis
    proof (cases "ce_validator e")
      case None
      then show ?thesis using Inr a(1) wt d len by (simp add: buildArgs_def)
    next
      case (Some check)
      then have b: "buildArgs e ps raw = validate_args check 0 ps args" using Inr a(1) by (simp add: buildArgs_def)
      show ?thesis using validate_args_ok [OF cov a(2), of check] wt d len Some
        unfolding b by (auto split: args_outcome.splits)
    qed
  qed
qed


text \<open>Requests of a struct type; the JSON values are the decoded ones, and a name must not be empty.\<close>

definition call0 :: "gval list \<Rightarrow> (gval, int) call_env" where
  "call0 js = \<lparr>ce_types = te0, ce_parse = (\<lambda>raw. Inr js),
     ce_unmarshal = (\<lambda>t d. if wt te0 t d then Inr d else Inl ''mismatch''), ce_lib = lib0,
     ce_validator = Some (\<lambda>v. case v of VStruct (VString [] # _) \<Rightarrow> Some (NewError CodeValidationFailed ''validation failed'') | _ \<Rightarrow> None)\<rparr>"

lemma call0_decoder: "decoder_ok (call0 js)"
  by (auto simp: decoder_ok_def call0_def split: if_splits)

definition params0 :: "param_info list" where
  "params0 = [\<lparr>pi_type = GString, pi_variadic = False\<rparr>, \<lparr>pi_type = GStruct ''Req'', pi_variadic = False\<rparr>]"

lemma params0_tags: "params_tag_error te0 params0 = None"
  by code_simp

definition body0 :: "gval list" where
  "body0 = [VString ''x'', VStruct [VString ''b '', VNil, VNil]]"

lemma call0_result: "buildArgs (call0 body0) params0 ''[]'' = Args [VString ''x'', VStruct [VString ''b'', VNil, VNil]]"
  by code_simp

theorem arguments_checked_witness:
  "list_all2 (wt te0) (arg_types params0 (length [VString ''x'', VStruct [VString ''b'', VNil, VNil]]))
     [VString ''x'', VStruct [VString ''b'', VNil, VNil]]"
proof -
  have t: "ce_types (call0 body0) = te0" by (simp add: call0_def)
  have "case buildArgs (call0 body0) params0 ''[]'' of
      Args args \<Rightarrow> list_all2 (wt (ce_types (call0 body0))) (arg_types params0 (length args)) args \<and>
        (if hasVariadic params0 then fixedCount params0 \<le> length args else length args = length params0) \<and>
        (\<forall>check k. ce_validator (call0 body0) = Some check \<and> k < length params0 \<and> is_struct (deref (pi_type (params0 ! k))) \<longrightarrow>
           check (target (args ! k)) = None)
    | ArgsError err \<Rightarrow> pe_code err = CodeInvalidParams \<or> (\<exists>check v. ce_validator (call0 body0) = Some check \<and> check v = Some err)
    | ArgsPanic \<Rightarrow> False"
    by (rule arguments_checked [OF call0_decoder]) (unfold t params0_tags, simp_all add: hasVariadic_def params0_def is_struct_def)
  then show ?thesis unfolding call0_result args_outcome.case t by blast
qed

definition variadic0 :: param_info where
  "variadic0 = \<lparr>pi_type = GPtr (GStruct ''Req''), pi_variadic = True\<rparr>"


text \<open>A REST-only group, and one whose struct is an instance of a generic type over a type of another package.\<close>

definition list_method :: go_method where
  "list_method = \<lparr>m_name = ''List'', m_ins = [GIface ''context.Context''], m_variadic = False, m_outs = [GIface ''error'']\<rparr>"

definition rest_struct :: "string \<Rightarrow> handler_struct" where
  "rest_struct n = \<lparr>hs_pointer = True, hs_name = n, hs_methods = [list_method]\<rparr>"

definition list_info :: "string \<Rightarrow> handler_info" where
  "list_info n = \<lparr>hi_name = ''List'', hi_params = [], hi_response = None, hi_struct = n, hi_isVoid = True,
     hi_kind = HandlerKindUnary, hi_streamKey = None\<rparr>"

definition rest_registry :: "string \<Rightarrow> (string, int) registry" where
  "rest_registry n = NewRegistry\<lparr>rg_groups := [(n, \<lparr>g_name = n, g_handlers = [(''List'', list_info n)],
     g_middleware = [''auth''], g_socket = False\<rparr>)], rg_rest := [n]\<rparr>"

lemma rest_registry_built: "RegisterREST te0 (rest_struct n) [''auth''] NewRegistry = Inr (rest_registry n)"
  by (simp add: RegisterREST_def register_group_def rest_struct_def NewRegistry_def validateMethod_def list_method_def te0_def
      validateOutputs_def rest_registry_def list_info_def assertNoStreamHandlers_def Let_def List.insert_def)

lemma rest_registry_reachable: "(reg_step te0)\<^sup>*\<^sup>* NewRegistry (rest_registry n)"
  by (rule r_into_rtranclp, rule rs_rest [OF _ rest_registry_built])
    (simp add: struct_ok_def rest_struct_def list_method_def dot_free_def)


theorem custom_codes_distinct_witness:
  "snd (RegisterErrorCode ''NotFound'' (rest_registry ''Todos'')) \<notin> set (map snd (rg_errorCodes (rest_registry ''Todos'')))"
  using custom_codes_distinct [OF rest_registry_reachable [of "''Todos''"], where nm = "''NotFound''"] by (elim conjE)

text \<open>
  The middleware of a REST-only group is lost when the name of its struct contains a dot, as the name of
  a generic instance does: the lookup by wire method cuts the name at its first dot, finds no group and
  yields no middleware, although the group has it.
\<close>

theorem generic_group_loses_middleware:
  "RegisterREST te0 (rest_struct ''Crud[x.User]'') [''auth''] NewRegistry = Inr (rest_registry ''Crud[x.User]'') \<and>
   GroupMiddleware ''Crud[x.User]'' (rest_registry ''Crud[x.User]'') = [''auth''] \<and>
   lookupMethod (wire_method ''Crud[x.User]'' ''List'') (rest_registry ''Crud[x.User]'') = None \<and>
   GetMiddleware (wire_method ''Crud[x.User]'' ''List'') (rest_registry ''Crud[x.User]'') = []"
proof -
  have "cut_dot (wire_method ''Crud[x.User]'' ''List'') = Some (''Crud[x'', ''User].List'')"
    by (simp add: cut_dot_def wire_method_def)
  then have l: "lookupMethod (wire_method ''Crud[x.User]'' ''List'') (rest_registry ''Crud[x.User]'') = None"
    by (simp add: lookupMethod_def rest_registry_def NewRegistry_def)
  then have "GetMiddleware (wire_method ''Crud[x.User]'' ''List'') (rest_registry ''Crud[x.User]'') = []" by (simp only: GetMiddleware_def option.case)
  moreover have "GroupMiddleware ''Crud[x.User]'' (rest_registry ''Crud[x.User]'') = [''auth'']"
    by (simp add: GroupMiddleware_def rest_registry_def)
  ultimately show ?thesis using l rest_registry_built by blast
qed

end
