(* ===== verification/Aprot_Http.thy ===== *)
theory Aprot_Http
  imports Aprot_Registry Aprot_Server "HOL-Library.Char_ord" "HOL-Library.List_Lexorder"
begin

text \<open>
  The HTTP side of the library: the names of routes (\<open>naming.go\<close>), the REST adapter (\<open>rest.go\<close>), the
  CORS middleware (\<open>cors.go\<close>) and the origin check of the WebSocket upgrade (\<open>origin.go\<close>). Names of
  handlers are ASCII here; the patterns are matched by the standard library's router, which hands the
  adapter a route and the values of its path parameters.
\<close>

section \<open>Names\<close>

definition IsUpper :: "char \<Rightarrow> bool" where
  "IsUpper c \<longleftrightarrow> 65 \<le> byte c \<and> byte c \<le> 90"

definition IsLower :: "char \<Rightarrow> bool" where
  "IsLower c \<longleftrightarrow> 97 \<le> byte c \<and> byte c \<le> 122"

definition ToLower :: "char \<Rightarrow> char" where
  "ToLower c = (if IsUpper c then char_of (byte c + 32) else c)"

text \<open>\<open>toKebab\<close>; the first argument tells whether the character is the first one.\<close>

fun kebab :: "bool \<Rightarrow> string \<Rightarrow> string" where
  "kebab first [] = []"
| "kebab first (c # s) =
     (if IsUpper c then (if first then [] else ''-'') @ [ToLower c] else [c]) @ kebab False s"

definition toKebab :: "string \<Rightarrow> string" where
  "toKebab s = kebab True s"

text \<open>
  \<open>toKebabAcronyms\<close> on the rest of the name. A run of capitals is one word; if a small letter follows
  it, its last capital begins the next word.
\<close>

definition splitLast :: "string \<Rightarrow> string \<Rightarrow> bool" where
  "splitLast caps rest \<longleftrightarrow> 1 < length caps \<and> rest \<noteq> [] \<and> IsLower (hd rest)"

function kebab_acronyms :: "bool \<Rightarrow> string \<Rightarrow> string" where
  "kebab_acronyms first [] = []"
| "kebab_acronyms first (c # s) =
     (if \<not> IsUpper c then c # kebab_acronyms False s
      else
        let caps = takeWhile IsUpper (c # s); rest = dropWhile IsUpper (c # s); dash = (if first then [] else ''-'')
        in if \<not> splitLast caps rest then dash @ map ToLower caps @ kebab_acronyms False rest
           else dash @ map ToLower (butlast caps) @ kebab_acronyms False (last caps # rest))"
  by pat_completeness auto
termination
proof (relation "measure (\<lambda>(first, s). length s)"; clarsimp)
  fix c s
  assume h: "IsUpper c" "splitLast (c # takeWhile IsUpper s) (dropWhile IsUpper s)"
  have "length (takeWhile IsUpper s) + length (dropWhile IsUpper s) = length s" by (metis length_append takeWhile_dropWhile_id)
  moreover have "0 < length (takeWhile IsUpper s)" using h(2) by (simp add: splitLast_def)
  ultimately show "length (dropWhile IsUpper s) < length s" by linarith
qed (simp_all add: le_imp_less_Suc length_dropWhile_le)

declare kebab_acronyms.simps(2) [simp del]

definition toKebabAcronyms :: "string \<Rightarrow> string" where
  "toKebabAcronyms s = kebab_acronyms True s"

definition toLowerCamel :: "string \<Rightarrow> string" where
  "toLowerCamel s = (case s of [] \<Rightarrow> [] | c # cs \<Rightarrow> ToLower c # cs)"

definition toLowerCamelAcronyms :: "string \<Rightarrow> string" where
  "toLowerCamelAcronyms s =
     (let upper = length (takeWhile IsUpper s)
      in if s = [] then []
         else if upper = 0 then s
         else if upper = length s then map ToLower s
         else if upper = 1 then ToLower (hd s) # tl s
         else let end = (if upper < length s \<and> IsLower (s ! upper) then upper - 1 else upper)
              in map ToLower (take end s) @ drop end s)"

definition toSnake :: "string \<Rightarrow> string" where
  "toSnake s = map (\<lambda>c. if c = CHR ''-'' then CHR ''_'' else c) (toKebabAcronyms s)"

text \<open>What the REST adapter uses of a naming plugin, and the default one.\<close>

record naming =
  PathPrefix :: "string \<Rightarrow> string"
  PathSegment :: "string \<Rightarrow> string"

definition DefaultNaming :: "bool \<Rightarrow> naming" where
  "DefaultNaming FixAcronyms =
     (let FileName = (if FixAcronyms then toKebabAcronyms else toKebab)
      in \<lparr>PathPrefix = (\<lambda>g. ''/'' @ FileName g), PathSegment = FileName\<rparr>)"

section \<open>Routes\<close>

datatype http_method = HTTPGet | HTTPPost | HTTPPut | HTTPPatch | HTTPDelete

definition http_prefixes :: "(string \<times> http_method) list" where
  "http_prefixes = [(''Get'', HTTPGet), (''List'', HTTPGet), (''Find'', HTTPGet), (''Create'', HTTPPost), (''Add'', HTTPPost),
     (''Update'', HTTPPut), (''Set'', HTTPPatch), (''Delete'', HTTPDelete), (''Remove'', HTTPDelete)]"

definition inferHTTPMethod :: "string \<Rightarrow> http_method" where
  "inferHTTPMethod methodName =
     (case find (\<lambda>(p, m). prefix p methodName) http_prefixes of Some (p, m) \<Rightarrow> m | None \<Rightarrow> HTTPPost)"

record route =
  rt_method :: http_method
  rt_path :: string
  rt_group :: string
  rt_name :: string
  rt_wire :: string
  rt_pathParams :: "(string \<times> gotype) list"
  rt_body :: "gotype option"
  rt_info :: handler_info

text \<open>The loop over the parameters: struct parameters are the body, the others path parameters.\<close>

fun classify :: "string list \<Rightarrow> nat \<Rightarrow> param_info list \<Rightarrow> (string \<times> gotype) list \<Rightarrow> gotype option \<Rightarrow>
    (string \<times> gotype) list \<times> gotype option" where
  "classify names i [] pathParams body = (pathParams, body)"
| "classify names i (p # ps) pathParams body =
     (if is_struct (deref (pi_type p)) then classify names (Suc i) ps pathParams (Some (pi_type p))
      else classify names (Suc i) ps
             (pathParams @ [(if i < length names then names ! i else ''arg'' @ nat_str i, pi_type p)]) body)"

definition build_route :: "naming \<Rightarrow> (string \<Rightarrow> string \<Rightarrow> string list) \<Rightarrow> string \<Rightarrow> string \<Rightarrow> handler_info \<Rightarrow> route" where
  "build_route nm paramNames groupName methodName info =
     (case classify (paramNames (hi_struct info) (hi_name info)) 0 (hi_params info) [] None of (pathParams, body) \<Rightarrow>
        \<lparr>rt_method = inferHTTPMethod methodName,
         rt_path = PathPrefix nm groupName @ ''/'' @ PathSegment nm methodName @
           concat (map (\<lambda>(n, t). ''/{'' @ n @ ''}'') pathParams),
         rt_group = groupName, rt_name = methodName, rt_wire = wire_method groupName methodName,
         rt_pathParams = pathParams, rt_body = body, rt_info = info\<rparr>)"

definition buildRoutes :: "naming \<Rightarrow> (string \<Rightarrow> string \<Rightarrow> string list) \<Rightarrow> ('m, 'v) registry \<Rightarrow> route list" where
  "buildRoutes nm paramNames r =
     concat (map (\<lambda>groupName.
       if \<not> IsREST groupName r then []
       else case map_of (rg_groups r) groupName of
              None \<Rightarrow> []
            | Some g \<Rightarrow>
                map (\<lambda>methodName. build_route nm paramNames groupName methodName (the (map_of (g_handlers g) methodName)))
                  (sort (map fst (g_handlers g))))
       (sort (map fst (rg_groups r))))"

section \<open>Path parameters\<close>

datatype num_error = ErrSyntax | ErrRange

text \<open>\<open>strconv.ParseUint\<close> and \<open>ParseInt\<close> in base 10 for 64 bits.\<close>

definition ParseUint :: "string \<Rightarrow> num_error + nat" where
  "ParseUint s =
     (case parse_nat s of None \<Rightarrow> Inl ErrSyntax | Some n \<Rightarrow> if n < 2 ^ 64 then Inr n else Inl ErrRange)"

definition ParseInt :: "string \<Rightarrow> num_error + int" where
  "ParseInt s =
     (let neg = (s \<noteq> [] \<and> hd s = CHR ''-''); digits = (if s \<noteq> [] \<and> hd s \<in> {CHR ''-'', CHR ''+''} then tl s else s)
      in case ParseUint digits of
           Inl e \<Rightarrow> Inl e
         | Inr n \<Rightarrow>
             if \<not> neg \<and> n \<ge> 2 ^ 63 then Inl ErrRange
             else if neg \<and> n > 2 ^ 63 then Inl ErrRange
             else Inr (if neg then - int n else int n))"

definition ParseBool :: "string \<Rightarrow> num_error + bool" where
  "ParseBool s =
     (if s \<in> set [''1'', ''t'', ''T'', ''TRUE'', ''true'', ''True''] then Inr True
      else if s \<in> set [''0'', ''f'', ''F'', ''FALSE'', ''false'', ''False''] then Inr False
      else Inl ErrSyntax)"

datatype json_param = RawParam string | StringParam string

text \<open>
  \<open>convertPathParam\<close>. \<open>float\<close> is \<open>ParseFloat\<close> followed by \<open>FormatFloat\<close>: \<open>Inr None\<close> stands for a value that is
  not finite.
\<close>

fun convertPathParam :: "(string \<Rightarrow> num_error + string option) \<Rightarrow> string \<Rightarrow> gotype \<Rightarrow> unit + json_param" where
  "convertPathParam float val t =
     (case deref t of
        GInt k \<Rightarrow> (case ParseInt val of Inl e \<Rightarrow> Inl () | Inr n \<Rightarrow> Inr (RawParam (int_str n)))
      | GUint k \<Rightarrow> (case ParseUint val of Inl e \<Rightarrow> Inl () | Inr n \<Rightarrow> Inr (RawParam (nat_str n)))
      | GFloat k \<Rightarrow> (case float val of Inr (Some f) \<Rightarrow> Inr (RawParam f) | _ \<Rightarrow> Inl ())
      | GBool \<Rightarrow> (case ParseBool val of Inl e \<Rightarrow> Inl () | Inr b \<Rightarrow> Inr (RawParam (if b then ''true'' else ''false'')))
      | _ \<Rightarrow> Inr (StringParam val))"

fun json_part :: "(string \<Rightarrow> string option) \<Rightarrow> json_param \<Rightarrow> unit + string" where
  "json_part quote (RawParam s) = Inr s"
| "json_part quote (StringParam s) = (case quote s of None \<Rightarrow> Inl () | Some q \<Rightarrow> Inr q)"

definition marshalJSONParams :: "(string \<Rightarrow> string option) \<Rightarrow> json_param list \<Rightarrow> unit + string" where
  "marshalJSONParams quote ps =
     (case map_each (json_part quote) ps of Inl e \<Rightarrow> Inl e | Inr parts \<Rightarrow> Inr (''['' @ join '','' parts @ '']''))"

section \<open>Requests\<close>

definition protocolErrorToHTTPStatus :: "int \<Rightarrow> int" where
  "protocolErrorToHTTPStatus code =
     (if code = CodeInvalidParams then 400
      else if code = CodeValidationFailed then 422
      else if code = CodeUnauthorized then 401
      else if code = CodeForbidden then 403
      else if code = CodeMethodNotFound then 404
      else 500)"

datatype 'v http_body = ErrorBody "'v frame" | ResultBody "'v payload" | EmptyBody

datatype 'v http_response = Response int "'v http_body"

definition writeJSONErrorData :: "'v wire \<Rightarrow> int \<Rightarrow> int \<Rightarrow> string \<Rightarrow> 'v option \<Rightarrow> 'v http_response" where
  "writeJSONErrorData w status code message data =
     (let resp = ErrorMessage [] code message data
      in Response status (if marshalJSON w resp = None then ErrorBody resp else EmptyBody))"

definition writeJSONError :: "'v wire \<Rightarrow> int \<Rightarrow> int \<Rightarrow> string \<Rightarrow> 'v http_response" where
  "writeJSONError w status code message = writeJSONErrorData w status code message None"

fun rest_payload :: "'v result \<Rightarrow> 'v payload" where
  "rest_payload (BlobPtr (Some b)) = BlobEnvelope b"
| "rest_payload r = result_payload r"

text \<open>
  What a REST request meets: the encoder of messages, the registered errors, whether a server is
  attached to the registry, the JSON string encoder, the float conversion, and the chain of adapter
  middleware around \<open>Server.invoke\<close> (or around the group's own chain without a server), given the
  parameters. \<open>re_marshalPanics\<close> tells whether encoding the result panics.
\<close>

record 'v rest_env =
  re_wire :: "'v wire"
  re_errors :: "'v error_mappings"
  re_server :: bool
  re_quote :: "string \<Rightarrow> string option"
  re_float :: "string \<Rightarrow> num_error + string option"
  re_chain :: "string \<Rightarrow> 'v outcome \<times> string list"
  re_marshalPanics :: bool

text \<open>The parameters of the call; \<open>body\<close> is what reading the request body gives.\<close>

definition rest_params :: "'v rest_env \<Rightarrow> route \<Rightarrow> (string \<Rightarrow> string) \<Rightarrow> string option \<Rightarrow> string + string" where
  "rest_params e route pathValue body =
     (case map_each (\<lambda>(n, t). case convertPathParam (re_float e) (pathValue n) t of
            Inl _ \<Rightarrow> Inl (''invalid value for path parameter '' @ n) | Inr v \<Rightarrow> Inr v) (rt_pathParams route) of
        Inl err \<Rightarrow> Inl err
      | Inr ps \<Rightarrow>
          (case (case (rt_body route, body) of
                   (None, _) \<Rightarrow> Inr ps
                 | (Some t, None) \<Rightarrow> Inl ''failed to read request body''
                 | (Some t, Some b) \<Rightarrow>
                     if b \<noteq> [] then Inr (ps @ [RawParam b])
                     else if rt_method route \<noteq> HTTPGet then Inl ''request body is required''
                     else Inr ps) of
             Inl err \<Rightarrow> Inl err
           | Inr js \<Rightarrow>
               if js = [] then Inr []
               else (case marshalJSONParams (re_quote e) js of Inl _ \<Rightarrow> Inl ''failed to marshal params'' | Inr s \<Rightarrow> Inr s)))"

definition error_response :: "'v rest_env \<Rightarrow> 'v go_error \<Rightarrow> 'v http_response" where
  "error_response e err =
     (case err of
        ProtocolError a code m c d \<Rightarrow> writeJSONErrorData (re_wire e) (protocolErrorToHTTPStatus code) code m d
      | _ \<Rightarrow>
          (case LookupError (re_errors e) err of
             Some code \<Rightarrow> writeJSONError (re_wire e) 500 code (error_str err)
           | None \<Rightarrow> writeJSONError (re_wire e) 500 CodeInternalError (error_str err)))"

text \<open>
  \<open>handleRequest\<close>: the responses written, and the refresh triggers flushed after them. No response is
  written when the handler aborts with \<open>http.ErrAbortHandler\<close>, which goes on to the server.
\<close>

definition rest_handleRequest ::
  "'v rest_env \<Rightarrow> route \<Rightarrow> (string \<Rightarrow> string) \<Rightarrow> string option \<Rightarrow> 'v http_response list \<times> string list" where
  "rest_handleRequest e route pathValue body =
     (case rest_params e route pathValue body of
        Inl err \<Rightarrow> ([writeJSONError (re_wire e) 400 CodeInvalidParams err], [])
      | Inr params \<Rightarrow>
          (case re_chain e params of (out, keys) \<Rightarrow>
             (case out of
                Aborted \<Rightarrow> ([], [])
              | Panicked \<Rightarrow> ([error_response e panicError], [])
              | Failed err \<Rightarrow> ([error_response e err], [])
              | Returned r \<Rightarrow>
                  ([if hi_isVoid (rt_info route) then Response 204 EmptyBody
                    else if re_marshalPanics e
                    then writeJSONError (re_wire e) 500 (pe_code (panicError :: 'v go_error)) (pe_message (panicError :: 'v go_error))
                    else if payload_err (re_wire e) (rest_payload r) = None then Response 200 (ResultBody (rest_payload r))
                    else writeJSONError (re_wire e) 500 CodeInternalError ''failed to marshal response''],
                   if re_server e then keys else []))))"

section \<open>Cross-origin requests\<close>

record cors_options =
  AllowedOrigins :: "string list"
  AllowedMethods :: "string list"
  AllowedHeaders :: "string list"
  ExposedHeaders :: "string list"
  AllowCredentials :: bool
  MaxAge :: int

record http_request =
  rq_method :: string
  rq_header :: "string \<Rightarrow> string"
  rq_host :: string

type_synonym headers = "(string, string list) gomap"

definition header_set :: "string \<Rightarrow> string \<Rightarrow> headers \<Rightarrow> headers" where
  "header_set k v h = AList.update k [v] h"

definition header_add :: "string \<Rightarrow> string \<Rightarrow> headers \<Rightarrow> headers" where
  "header_add k v h = AList.update k ((case map_of h k of None \<Rightarrow> [] | Some vs \<Rightarrow> vs) @ [v]) h"

definition defaultCORSMethods :: "string list" where
  "defaultCORSMethods = [''GET'', ''POST'', ''PUT'', ''PATCH'', ''DELETE'', ''OPTIONS'']"

fun resolve_in :: "bool \<Rightarrow> string \<Rightarrow> string list \<Rightarrow> string option" where
  "resolve_in credentials origin [] = None"
| "resolve_in credentials origin (a # as) =
     (if a = origin then Some origin
      else if a = ''*'' then Some (if credentials then origin else ''*'')
      else resolve_in credentials origin as)"

definition resolveOrigin :: "cors_options \<Rightarrow> string \<Rightarrow> string option" where
  "resolveOrigin opts origin = resolve_in (AllowCredentials opts) origin (AllowedOrigins opts)"

definition is_preflight :: "http_request \<Rightarrow> bool" where
  "is_preflight r \<longleftrightarrow> rq_method r = ''OPTIONS'' \<and> rq_header r ''Access-Control-Request-Method'' \<noteq> []"

text \<open>The headers of an allowed origin on every response, and those of a preflight response.\<close>

definition origin_headers :: "cors_options \<Rightarrow> string \<Rightarrow> headers \<Rightarrow> headers" where
  "origin_headers opts allowOrigin h =
     (let expose = join '', '' (ExposedHeaders opts);
          h1 = header_set ''Access-Control-Allow-Origin'' allowOrigin h;
          h2 = (if AllowCredentials opts then header_set ''Access-Control-Allow-Credentials'' ''true'' h1 else h1)
      in if expose \<noteq> [] then header_set ''Access-Control-Expose-Headers'' expose h2 else h2)"

definition preflight_headers :: "cors_options \<Rightarrow> http_request \<Rightarrow> headers \<Rightarrow> headers" where
  "preflight_headers opts r h =
     (let methods = (if AllowedMethods opts = [] then defaultCORSMethods else AllowedMethods opts);
          heads = (if AllowedHeaders opts = [] then [''Content-Type''] else AllowedHeaders opts);
          asked = rq_header r ''Access-Control-Request-Headers'';
          h1 = header_set ''Access-Control-Allow-Methods'' (join '', '' methods) h;
          h2 = (if ''*'' \<in> set heads \<and> AllowCredentials opts
                then (if asked \<noteq> [] then header_set ''Access-Control-Allow-Headers'' asked h1 else h1)
                else header_set ''Access-Control-Allow-Headers'' (join '', '' heads) h1)
      in if MaxAge opts > 0 then header_set ''Access-Control-Max-Age'' (int_str (MaxAge opts)) h2 else h2)"

text \<open>
  The handler \<open>CORS\<close> returns: the headers it sets, and whether it calls the wrapped handler; otherwise it
  answers with status 204.
\<close>

definition CORS :: "cors_options \<Rightarrow> http_request \<Rightarrow> headers \<times> bool" where
  "CORS opts r =
     (let origin = rq_header r ''Origin''
      in if origin = [] then ([], True)
         else
           let allow = resolveOrigin opts origin;
               h1 = header_add ''Vary'' ''Origin'' [];
               h2 = (case allow of None \<Rightarrow> h1 | Some v \<Rightarrow> origin_headers opts v h1)
           in if \<not> is_preflight r then (h2, True)
              else
                let h3 = header_add ''Vary'' ''Access-Control-Request-Headers'' (header_add ''Vary'' ''Access-Control-Request-Method'' h2)
                in (if allow = None then h3 else preflight_headers opts r h3, False))"

text \<open>
  \<open>SameOriginCheck\<close>. The URL parser (the host of a URL, \<open>None\<close> for an error) and the case folding are
  those of the standard library.
\<close>

record url_lib =
  ul_host :: "string \<Rightarrow> string option"
  ul_equalFold :: "string \<Rightarrow> string \<Rightarrow> bool"
  ul_lower :: "string \<Rightarrow> string"

definition trim_slash :: "string \<Rightarrow> string" where
  "trim_slash s = (if s \<noteq> [] \<and> last s = CHR ''/'' then butlast s else s)"

definition SameOriginCheck :: "url_lib \<Rightarrow> string list \<Rightarrow> http_request \<Rightarrow> bool" where
  "SameOriginCheck lib extraOrigins r =
     (let origin = rq_header r ''Origin''
      in if origin = [] \<or> ul_equalFold lib origin ''null'' then False
         else if ul_lower lib (trim_slash origin) \<in> set (map (\<lambda>x. ul_lower lib (trim_slash x)) extraOrigins) then True
         else case ul_host lib origin of None \<Rightarrow> False | Some h \<Rightarrow> h \<noteq> [] \<and> ul_equalFold lib h (rq_host r))"

section \<open>Lemmas\<close>

text \<open>Names in which no two capitals follow each other, and names Go exports.\<close>

fun no_acronym :: "string \<Rightarrow> bool" where
  "no_acronym (a # b # s) \<longleftrightarrow> \<not> (IsUpper a \<and> IsUpper b) \<and> no_acronym (b # s)"
| "no_acronym _ \<longleftrightarrow> True"

definition exported :: "string \<Rightarrow> bool" where
  "exported s \<longleftrightarrow> s \<noteq> [] \<and> IsUpper (hd s) \<and> CHR ''-'' \<notin> set s"

lemma kebab_acronyms_plain: "no_acronym s \<Longrightarrow> kebab_acronyms first s = kebab first s"
proof (induction s arbitrary: first)
  case (Cons c s)
  have na: "no_acronym s" using Cons.prems by (cases s) auto
  show ?case
  proof (cases "IsUpper c")
    case True
    have hd: "s = [] \<or> \<not> IsUpper (hd s)" using Cons.prems True by (cases s) auto
    have tw: "takeWhile IsUpper s = []" using hd by (cases s) auto
    have dw: "dropWhile IsUpper s = s" using hd by (cases s) auto
    show ?thesis using True Cons.IH [OF na]
      by (simp add: kebab_acronyms.simps(2) tw dw splitLast_def)
  qed (simp add: kebab_acronyms.simps(2) Cons.IH [OF na])
qed simp

lemma byte_inject: "byte c = byte d \<Longrightarrow> c = d"
  by (simp add: byte_def)

lemma byte_char_of: "n < 256 \<Longrightarrow> byte (char_of n) = n"
  by (simp add: byte_def of_char_mod_256)

lemma byte_ToLower: "IsUpper c \<Longrightarrow> byte (ToLower c) = byte c + 32"
  by (simp add: ToLower_def IsUpper_def byte_char_of)

lemma ToLower_inject: "IsUpper c \<Longrightarrow> IsUpper d \<Longrightarrow> ToLower c = ToLower d \<Longrightarrow> c = d"
  by (metis add_right_cancel byte_ToLower byte_inject)

lemma kebab_False_inject: "CHR ''-'' \<notin> set s \<Longrightarrow> CHR ''-'' \<notin> set t \<Longrightarrow> kebab False s = kebab False t \<Longrightarrow> s = t"
proof (induction s arbitrary: t)
  case Nil
  then show ?case by (cases t) (auto split: if_splits)
next
  case (Cons c s)
  then obtain d t' where t: "t = d # t'" by (cases t) (auto split: if_splits)
  have "IsUpper c = IsUpper d" using Cons.prems t by (auto split: if_splits)
  then have "c = d \<and> kebab False s = kebab False t'" using Cons.prems t ToLower_inject by (auto split: if_splits)
  then show ?case using Cons.IH [of t'] Cons.prems t by auto
qed

lemma toKebab_inject: "exported s \<Longrightarrow> exported t \<Longrightarrow> toKebab s = toKebab t \<Longrightarrow> s = t"
proof -
  assume h: "exported s" "exported t" "toKebab s = toKebab t"
  obtain c s' where s: "s = c # s'" using h(1) by (cases s) (auto simp: exported_def)
  obtain d t' where t: "t = d # t'" using h(2) by (cases t) (auto simp: exported_def)
  have "ToLower c = ToLower d" "kebab False s' = kebab False t'"
    using h s t by (auto simp: toKebab_def exported_def)
  then show ?thesis using ToLower_inject kebab_False_inject h s t by (auto simp: exported_def)
qed

lemma classify_spec:
  "classify names i ps pp b = (pp', b') \<Longrightarrow>
     map snd pp' = map snd pp @ filter (\<lambda>t. \<not> is_struct (deref t)) (map pi_type ps) \<and>
     b' = (if \<exists>p\<in>set ps. is_struct (deref (pi_type p)) then Some (last (filter (\<lambda>t. is_struct (deref t)) (map pi_type ps))) else b)"
  by (induction names i ps pp b rule: classify.induct) (auto simp: filter_empty_conv split: if_splits)

definition sent_types :: "route \<Rightarrow> gotype list" where
  "sent_types rt = map snd (rt_pathParams rt) @ (case rt_body rt of None \<Rightarrow> [] | Some t \<Rightarrow> [t])"

lemma filter_order:
  "filter (\<lambda>x. \<not> P x) xs @ (if \<exists>x\<in>set xs. P x then [last (filter P xs)] else []) = xs \<longleftrightarrow>
     (\<forall>k<length xs. P (xs ! k) \<longrightarrow> Suc k = length xs)"
proof
  assume eq: "filter (\<lambda>x. \<not> P x) xs @ (if \<exists>x\<in>set xs. P x then [last (filter P xs)] else []) = xs"
  show "\<forall>k<length xs. P (xs ! k) \<longrightarrow> Suc k = length xs"
  proof (intro allI impI)
    fix k assume k: "k < length xs" "P (xs ! k)"
    have ex: "\<exists>x\<in>set xs. P x" using k nth_mem by blast
    let ?ys = "filter (\<lambda>x. \<not> P x) xs"
    have xs: "xs = ?ys @ [last (filter P xs)]" using eq ex by simp
    have "\<not> k < length ?ys"
    proof
      assume lt: "k < length ?ys"
      then have "xs ! k = ?ys ! k" by (metis xs nth_append)
      then show False using lt nth_mem [OF lt] k(2) by simp
    qed
    moreover have "length xs = Suc (length ?ys)" by (metis xs length_append_singleton)
    ultimately show "Suc k = length xs" using k(1) by linarith
  qed
next
  assume h: "\<forall>k<length xs. P (xs ! k) \<longrightarrow> Suc k = length xs"
  show "filter (\<lambda>x. \<not> P x) xs @ (if \<exists>x\<in>set xs. P x then [last (filter P xs)] else []) = xs"
  proof (cases xs rule: rev_cases)
    case (snoc ys y)
    have np: "\<not> P z" if "z \<in> set ys" for z
    proof -
      from that obtain k where "k < length ys" "ys ! k = z" by (metis in_set_conv_nth)
      then show ?thesis using h snoc by (auto simp: nth_append dest: spec [of _ k])
    qed
    then have "filter (\<lambda>x. \<not> P x) ys = ys" "filter P ys = []" by (simp_all add: filter_empty_conv)
    then show ?thesis using snoc np by auto
  qed simp
qed

lemma error_response_socket:
  assumes "\<forall>(x, c)\<in>set (re_errors e). 1000 \<le> c"
  shows "\<exists>m d. error_response e err =
      writeJSONErrorData (re_wire e) (protocolErrorToHTTPStatus (errorCode (re_errors e) (Some err))) (errorCode (re_errors e) (Some err)) m d \<and>
    (marshalJSON (re_wire e) (ErrorMessage i (errorCode (re_errors e) (Some err)) m d) = None \<longrightarrow>
     sendErrorFor (re_wire e) (re_errors e) False i err =
       ([ErrorMessage i (errorCode (re_errors e) (Some err)) m d], errorCode (re_errors e) (Some err)))"
proof -
  have big: "1000 \<le> c" if "LookupError ms err = Some c" "\<forall>(x, c)\<in>set ms. 1000 \<le> c" for ms c
    using that by (induction ms err rule: LookupError.induct) (auto split: if_splits)
  have st: "protocolErrorToHTTPStatus c = 500" if "1000 \<le> c \<or> c = CodeInternalError" for c
    using that by (auto simp: protocolErrorToHTTPStatus_def code_defs)
  show ?thesis
  proof (cases err)
    case (ProtocolError a code m c d)
    then show ?thesis
      by (intro exI [of _ m] exI [of _ d]) (simp add: error_response_def sendProtocolError_def Let_def sendRaw_def)
  next
    case (CancelReason r)
    then show ?thesis using st big [OF _ assms]
      by (intro exI [of _ "error_str err"] exI [of _ None])
        (auto simp: error_response_def writeJSONError_def sendError_def sendJSON_def sendRaw_def split: option.splits)
  next
    case (OtherError a t ws)
    then show ?thesis using st big [OF _ assms]
      by (intro exI [of _ "error_str err"] exI [of _ None])
        (auto simp: error_response_def writeJSONError_def sendError_def sendJSON_def sendRaw_def split: option.splits)
  qed
qed

lemma ParseUint_nat_str: "n < 2 ^ 64 \<Longrightarrow> ParseUint (nat_str n) = Inr n"
  by (simp add: ParseUint_def)

lemma nat_str_no_sign: "hd (nat_str n) \<noteq> CHR ''-'' \<and> hd (nat_str n) \<noteq> CHR ''+''"
proof -
  have "hd (nat_str n) \<in> set (nat_str n)" by simp
  then obtain d where d: "d < 10" "hd (nat_str n) = digit_char d" using nat_str_digits by blast
  have "char_digit (CHR ''-'') = None" "char_digit (CHR ''+'') = None" by code_simp+
  then show ?thesis using d char_digit_digit_char [OF d(1)] by (metis option.distinct(1))
qed

lemma ParseInt_int_str:
  assumes "- (2 ^ 63) \<le> n" "n < 2 ^ 63"
  shows "ParseInt (int_str n) = Inr n"
proof (cases "n < 0")
  case True
  have "nat (- n) < 2 ^ 64" "\<not> nat (- n) > 2 ^ 63" using assms by auto
  then show ?thesis using True ParseUint_nat_str [of "nat (- n)"]
    by (simp add: ParseInt_def int_str_def Let_def)
next
  case False
  have "nat n < 2 ^ 64" "\<not> nat n \<ge> 2 ^ 63" using assms by auto
  then show ?thesis using False nat_str_no_sign [of "nat n"] ParseUint_nat_str [of "nat n"]
    by (simp add: ParseInt_def int_str_def Let_def)
qed

lemma ParseInt_range: "ParseInt s = Inr n \<Longrightarrow> - (2 ^ 63) \<le> n \<and> n < 2 ^ 63"
  by (auto simp: ParseInt_def Let_def split: sum.splits if_splits)

lemma map_of_header [simp]:
  "map_of (header_set k v h) = (map_of h)(k \<mapsto> [v])"
  "map_of (header_add k v h) = (map_of h)(k \<mapsto> (case map_of h k of None \<Rightarrow> [] | Some vs \<Rightarrow> vs) @ [v])"
  by (simp_all add: header_set_def header_add_def)

lemma origin_headers_view:
  "map_of (origin_headers opts v h) ''Vary'' = map_of h ''Vary''"
  "map_of (origin_headers opts v h) ''Access-Control-Allow-Origin'' = Some [v]"
  by (simp_all add: origin_headers_def Let_def)

lemma preflight_headers_view:
  "map_of (preflight_headers opts r h) ''Vary'' = map_of h ''Vary''"
  "map_of (preflight_headers opts r h) ''Access-Control-Allow-Origin'' = map_of h ''Access-Control-Allow-Origin''"
  by (simp_all add: preflight_headers_def Let_def)

section \<open>Properties\<close>


text \<open>
  Positional parameters of a REST request: the values arrive in the order of the handler's parameters
  exactly if no struct parameter precedes another parameter. A handler with a struct parameter elsewhere
  gets a route that no request can use.
\<close>

theorem rest_binding_order:
  "sent_types (build_route nm paramNames g m info) = map pi_type (hi_params info) \<longleftrightarrow>
     (\<forall>k<length (hi_params info). is_struct (deref (pi_type (hi_params info ! k))) \<longrightarrow> Suc k = length (hi_params info))"
proof -
  obtain pp b where c: "classify (paramNames (hi_struct info) (hi_name info)) 0 (hi_params info) [] None = (pp, b)" by fastforce
  let ?ts = "map pi_type (hi_params info)"
  have "sent_types (build_route nm paramNames g m info) =
      filter (\<lambda>t. \<not> is_struct (deref t)) ?ts @ (if \<exists>t\<in>set ?ts. is_struct (deref t) then [last (filter (\<lambda>t. is_struct (deref t)) ?ts)] else [])"
    using classify_spec [OF c] by (simp add: sent_types_def build_route_def c)
  also have "\<dots> = ?ts \<longleftrightarrow> (\<forall>k<length ?ts. is_struct (deref (?ts ! k)) \<longrightarrow> Suc k = length ?ts)"
    by (rule filter_order)
  finally show ?thesis by simp
qed

text \<open>
  Numbers in a path: every integer of the handler's range is read back from its decimal form, whatever is
  accepted fits 64 bits and is passed on in canonical form, and everything else is refused.
\<close>

theorem path_int_roundtrip:
  "(- (2 ^ 63) \<le> n \<and> n < 2 ^ 63 \<longrightarrow> convertPathParam float (int_str n) (GInt k) = Inr (RawParam (int_str n))) \<and>
   (\<forall>p. convertPathParam float s (GInt k) = Inr p \<longrightarrow>
      (\<exists>v. ParseInt s = Inr v \<and> - (2 ^ 63) \<le> v \<and> v < 2 ^ 63 \<and> p = RawParam (int_str v)))"
proof (intro conjI impI allI)
  assume "- (2 ^ 63) \<le> n \<and> n < 2 ^ 63"
  then show "convertPathParam float (int_str n) (GInt k) = Inr (RawParam (int_str n))" using ParseInt_int_str [of n] by simp
next
  fix p assume "convertPathParam float s (GInt k) = Inr p"
  then show "\<exists>v. ParseInt s = Inr v \<and> - (2 ^ 63) \<le> v \<and> v < 2 ^ 63 \<and> p = RawParam (int_str v)"
    using ParseInt_range [of s] by (auto split: sum.splits)
qed

text \<open>
  Names of routes: on names without two adjacent capitals both forms of the default naming agree, and
  distinct exported names have distinct routes there.
\<close>

theorem route_names:
  "(no_acronym s \<longrightarrow> toKebabAcronyms s = toKebab s) \<and>
   (exported s \<and> exported t \<and> s \<noteq> t \<longrightarrow> toKebab s \<noteq> toKebab t) \<and>
   (exported s \<and> exported t \<and> no_acronym s \<and> no_acronym t \<and> s \<noteq> t \<longrightarrow> toKebabAcronyms s \<noteq> toKebabAcronyms t)"
  using toKebab_inject kebab_acronyms_plain by (auto simp: toKebabAcronyms_def toKebab_def)

text \<open>
  CORS is closed by default: a preflight request never reaches the wrapped handler and every other
  request does; an origin that is not listed gets no CORS header at all; the origin that is allowed is
  the caller's own or \<open>*\<close>, and never \<open>*\<close> together with credentials; and whenever there is an origin the
  response varies on it.
\<close>

theorem cors_closed_by_default:
  assumes "rq_header r ''Origin'' = origin" "CORS opts r = (h, reached)"
  shows "(reached \<longleftrightarrow> origin = [] \<or> \<not> is_preflight r) \<and> (origin = [] \<longrightarrow> h = []) \<and>
    (origin \<noteq> [] \<longrightarrow> (\<exists>vs. map_of h ''Vary'' = Some vs \<and> ''Origin'' \<in> set vs)) \<and>
    (origin \<notin> set (AllowedOrigins opts) \<and> ''*'' \<notin> set (AllowedOrigins opts) \<longrightarrow> set (map fst h) \<subseteq> {''Vary''}) \<and>
    (\<forall>vs. map_of h ''Access-Control-Allow-Origin'' = Some vs \<longrightarrow>
       vs = [origin] \<or> vs = [''*''] \<and> \<not> AllowCredentials opts)"
proof -
  have none: "resolve_in c origin as = None \<longleftrightarrow> origin \<notin> set as \<and> ''*'' \<notin> set as" for c as
    by (induction as) auto
  have some: "resolve_in c origin as = Some v \<Longrightarrow> v = origin \<or> v = ''*'' \<and> \<not> c" for c as v
    by (induction as) (auto split: if_splits)
  show ?thesis
  proof (cases "origin = []")
    case True
    then show ?thesis using assms by (simp add: CORS_def)
  next
    case False
    have keys: "set (map fst x) = dom (map_of x)" for x :: headers by (simp add: dom_map_of_conv_image_fst)
    have r: "reached \<longleftrightarrow> \<not> is_preflight r" using assms False by (auto simp: CORS_def Let_def split: if_splits)
    show ?thesis
    proof (cases "resolveOrigin opts origin")
      case None
      then have "map_of h = [''Vary'' \<mapsto> [''Origin''] @ (if is_preflight r then [''Access-Control-Request-Method'', ''Access-Control-Request-Headers''] else [])]"
        using assms False by (auto simp: CORS_def Let_def split: if_splits)
      then show ?thesis using r False unfolding keys by auto
    next
      case (Some v)
      then have v: "v = origin \<or> v = ''*'' \<and> \<not> AllowCredentials opts"
        and listed: "origin \<in> set (AllowedOrigins opts) \<or> ''*'' \<in> set (AllowedOrigins opts)"
        using some none [of "AllowCredentials opts" "AllowedOrigins opts"] by (auto simp: resolveOrigin_def)
      have "map_of h ''Access-Control-Allow-Origin'' = Some [v] \<and> (\<exists>vs. map_of h ''Vary'' = Some vs \<and> ''Origin'' \<in> set vs)"
        using assms False Some
        by (auto simp: CORS_def Let_def preflight_headers_view origin_headers_view split: if_splits)
      then show ?thesis using r v listed False by auto
    qed
  qed
qed

text \<open>
  Error data that does not encode: the socket sends the error without it, a REST client gets an empty
  body.
\<close>

theorem rest_error_data_lost:
  assumes "marshal_err w v = Some x" "utf8_valid m" "utf8_valid i"
  shows "sendProtocolError w False i code m (Some v) = [ErrorMessage i code m None] \<and>
    writeJSONErrorData w status code m (Some v) = Response status EmptyBody"
proof -
  have e: "str_err w [] = None" "str_err w m = None" "str_err w i = None" "data_err w (Some v) = Some x"
    using assms by (simp_all add: data_err_def)
  then show ?thesis by (simp add: sendProtocolError_def writeJSONErrorData_def Let_def sendRaw_def)
qed

definition wire0 :: "int wire" where
  "wire0 = \<lparr>marshal_err = (\<lambda>v. if v < 0 then Some ''negative'' else None), utf8_err = ''invalid UTF-8'', header_len = (\<lambda>i ct. 64)\<rparr>"

definition rest0 :: "int rest_env" where
  "rest0 = \<lparr>re_wire = wire0, re_errors = [(OtherError 7 ''gone'' [], 1000)], re_server = True, re_quote = (\<lambda>s. Some s),
     re_float = (\<lambda>s. Inl ErrSyntax), re_chain = (\<lambda>params. (Failed (NewError CodeForbidden ''not yours''), [''todos''])),
     re_marshalPanics = False\<rparr>"

definition route0 :: route where
  "route0 = build_route (DefaultNaming True) (\<lambda>s m. []) ''Todos'' ''List'' (list_info ''Todos'')"

theorem rest_error_data_lost_witness:
  "writeJSONErrorData wire0 422 CodeValidationFailed ''no'' (Some (- 1)) = Response 422 EmptyBody"
  using rest_error_data_lost [of wire0 "- 1" "''negative''" "''no''" "''''" CodeValidationFailed 422]
  by (simp add: wire0_def) code_simp


text \<open>A handler that takes the struct first.\<close>

definition swapped_info :: handler_info where
  "swapped_info = (list_info ''Todos'')\<lparr>hi_params := [\<lparr>pi_type = GPtr (GStruct ''Req''), pi_variadic = False\<rparr>,
     \<lparr>pi_type = GString, pi_variadic = False\<rparr>]\<rparr>"

theorem rest_binding_order_witness:
  "sent_types (build_route (DefaultNaming True) (\<lambda>s m. []) ''Todos'' ''Update'' swapped_info) \<noteq> map pi_type (hi_params swapped_info)"
proof -
  have k: "0 < length (hi_params swapped_info)" "is_struct (deref (pi_type (hi_params swapped_info ! 0)))" "Suc 0 \<noteq> length (hi_params swapped_info)"
    by (simp_all add: swapped_info_def is_struct_def)
  show ?thesis
  proof
    assume "sent_types (build_route (DefaultNaming True) (\<lambda>s m. []) ''Todos'' ''Update'' swapped_info) = map pi_type (hi_params swapped_info)"
    then show False using k unfolding rest_binding_order by blast
  qed
qed

theorem path_int_roundtrip_witness:
  "convertPathParam (\<lambda>s. Inl ErrSyntax) (int_str (- 9223372036854775808)) (GInt 64) = Inr (RawParam (int_str (- 9223372036854775808)))"
proof -
  have "- (2 ^ 63) \<le> (- 9223372036854775808 :: int) \<and> (- 9223372036854775808 :: int) < 2 ^ 63" by simp
  then show ?thesis using path_int_roundtrip [of "- 9223372036854775808" "\<lambda>s. Inl ErrSyntax" 64] by blast
qed

theorem route_names_witness: "toKebabAcronyms ''UpdateUser'' = toKebab ''UpdateUser''"
proof -
  have "no_acronym ''UpdateUser''" by code_simp
  then show ?thesis using route_names by blast
qed

definition request0 :: http_request where
  "request0 = \<lparr>rq_method = ''OPTIONS'',
     rq_header = (\<lambda>k. if k = ''Origin'' then ''https://evil.test'' else if k = ''Access-Control-Request-Method'' then ''PUT'' else []),
     rq_host = ''api.test''\<rparr>"

definition cors0 :: cors_options where
  "cors0 = \<lparr>AllowedOrigins = [''https://app.test''], AllowedMethods = [], AllowedHeaders = [], ExposedHeaders = [],
     AllowCredentials = True, MaxAge = 600\<rparr>"

theorem cors_closed_by_default_witness: "set (map fst (fst (CORS cors0 request0))) \<subseteq> {''Vary''} \<and> \<not> snd (CORS cors0 request0)"
proof -
  have o: "rq_header request0 ''Origin'' = ''https://evil.test''" by (simp add: request0_def)
  have p: "is_preflight request0" by (simp add: is_preflight_def request0_def)
  have c: "CORS cors0 request0 = (fst (CORS cors0 request0), snd (CORS cors0 request0))" by simp
  show ?thesis using cors_closed_by_default [OF o c] p by (simp add: cors0_def)
qed

end
