(* ===== verification/Aprot_GoTypes.thy ===== *)
theory Aprot_GoTypes
  imports Aprot_Transform
begin

text \<open>
  Go types as the code generators see them through \<open>reflect\<close>, and the translation of a type and of
  the fields of a struct to TypeScript (\<open>generate.go\<close>).

  A type carries its package and name; the fields of a struct are found in the environment, so types
  that refer to themselves through a struct are allowed. Names are ASCII. What depends on the code of
  the program that uses the library is a parameter: the registered enums and field overrides, the
  marshalers of its types and what they make of a zero value, and \<open>strconv.Quote\<close>, which rests on the
  Unicode tables.
\<close>

section \<open>Types\<close>

type_synonym tyname = "string \<times> string"

datatype rtype =
    RBool tyname
  | RInt tyname nat
  | RUint tyname nat
  | RFloat tyname nat
  | RString tyname
  | RIface tyname
  | RPtr rtype
  | RSlice tyname rtype
  | RArray tyname nat rtype
  | RMap tyname rtype rtype
  | RStruct tyname
  | RNull string rtype
  | ROther tyname string

text \<open>
  \<open>RNull inst t\<close> is \<open>sql.Null[t]\<close>, whose name prints its argument as \<open>inst\<close>. A struct without a
  package is an anonymous one; the second component then only tells it from others.
\<close>

fun type_name :: "rtype \<Rightarrow> tyname" where
  "type_name (RBool n) = n"
| "type_name (RInt n b) = n"
| "type_name (RUint n b) = n"
| "type_name (RFloat n b) = n"
| "type_name (RString n) = n"
| "type_name (RIface n) = n"
| "type_name (RPtr t) = ([], [])"
| "type_name (RSlice n t) = n"
| "type_name (RArray n k t) = n"
| "type_name (RMap n k t) = n"
| "type_name (RStruct n) = (if fst n = [] then ([], []) else n)"
| "type_name (RNull inst t) = (''database/sql'', ''Null['' @ inst @ '']'')"
| "type_name (ROther n k) = n"

definition PkgPath :: "rtype \<Rightarrow> string" where
  "PkgPath t = fst (type_name t)"

definition TypeName :: "rtype \<Rightarrow> string" where
  "TypeName t = snd (type_name t)"

record rfield =
  rf_name :: string
  rf_exported :: bool
  rf_anonymous :: bool
  rf_json :: string
  rf_validate :: string
  rf_type :: rtype

datatype enum_value = EStr string | EInt int

record enum_info =
  e_Name :: string
  e_IsString :: bool
  e_Values :: "(string \<times> enum_value) list"

datatype json = JNull | JBool bool | JNum string | JStr string | JArr "json list" | JObj "(string \<times> json) list"

text \<open>
  \<open>ge_zero t\<close> is what a zero value of \<open>t\<close> marshals to, \<open>None\<close> when that fails or panics.
\<close>

record gen_env =
  ge_fields :: "tyname \<Rightarrow> rfield list"
  ge_enum :: "rtype \<Rightarrow> enum_info option"
  ge_override :: "tyname \<Rightarrow> string \<Rightarrow> rtype option"
  ge_json_marshaler :: "rtype \<Rightarrow> bool"
  ge_text_marshaler :: "rtype \<Rightarrow> bool"
  ge_zero :: "rtype \<Rightarrow> json option"
  ge_quote :: "string \<Rightarrow> string"

section \<open>Identifiers\<close>

definition in_range :: "char \<Rightarrow> char \<Rightarrow> char \<Rightarrow> bool" where
  "in_range lo hi c \<longleftrightarrow> byte lo \<le> byte c \<and> byte c \<le> byte hi"

definition is_letter :: "char \<Rightarrow> bool" where
  "is_letter c \<longleftrightarrow> in_range CHR ''a'' CHR ''z'' c \<or> in_range CHR ''A'' CHR ''Z'' c"

definition is_digit :: "char \<Rightarrow> bool" where
  "is_digit c \<longleftrightarrow> in_range CHR ''0'' CHR ''9'' c"

definition isIdentChar :: "char \<Rightarrow> bool" where
  "isIdentChar c \<longleftrightarrow> is_letter c \<or> is_digit c \<or> c = CHR ''_''"

definition js_start :: "char \<Rightarrow> bool" where
  "js_start c \<longleftrightarrow> is_letter c \<or> c = CHR ''_'' \<or> c = CHR ''$''"

definition isValidJSIdent :: "string \<Rightarrow> bool" where
  "isValidJSIdent name \<longleftrightarrow> name \<noteq> [] \<and> js_start (hd name) \<and> list_all (\<lambda>c. js_start c \<or> is_digit c) (tl name)"

definition tsObjectKey :: "gen_env \<Rightarrow> string \<Rightarrow> string" where
  "tsObjectKey e s = (if isValidJSIdent s then s else ge_quote e s)"

definition tsReservedWords :: "string list" where
  "tsReservedWords =
     [''break'', ''case'', ''catch'', ''class'', ''const'', ''continue'', ''debugger'', ''default'', ''delete'', ''do'',
      ''else'', ''enum'', ''export'', ''extends'', ''false'', ''finally'', ''for'', ''function'', ''if'', ''import'',
      ''in'', ''instanceof'', ''new'', ''null'', ''return'', ''super'', ''switch'', ''this'', ''throw'', ''true'',
      ''try'', ''typeof'', ''var'', ''void'', ''while'', ''with'', ''implements'', ''interface'', ''let'',
      ''package'', ''private'', ''protected'', ''public'', ''static'', ''yield'', ''await'']"

definition tsSafeIdent :: "string \<Rightarrow> string" where
  "tsSafeIdent name = (if name \<in> set tsReservedWords \<or> \<not> isValidJSIdent name then name @ ''_'' else name)"

definition to_upper :: "char \<Rightarrow> char" where
  "to_upper c = (if in_range CHR ''a'' CHR ''z'' c then char_of (byte c - 32) else c)"

text \<open>The loop of \<open>sanitizeTSIdent\<close>; the first argument tells whether this is the first character.\<close>

fun sanitize :: "bool \<Rightarrow> bool \<Rightarrow> string \<Rightarrow> string" where
  "sanitize first newWord [] = []"
| "sanitize first newWord (c # s) =
     (if js_start c \<or> \<not> first \<and> is_digit c
      then (if newWord then to_upper c else c) # sanitize False False s
      else sanitize False True s)"

definition sanitizeTSIdent :: "string \<Rightarrow> string" where
  "sanitizeTSIdent name = (if isValidJSIdent name then name else sanitize True False name)"

section \<open>Kinds\<close>

fun unptr :: "rtype \<Rightarrow> rtype" where
  "unptr (RPtr t) = t"
| "unptr t = t"

fun kind_string :: "rtype \<Rightarrow> string" where
  "kind_string (RString n) = ''string''"
| "kind_string (RInt n b) = ''int''"
| "kind_string (RUint n b) = ''uint''"
| "kind_string (RFloat n b) = ''float''"
| "kind_string (RBool n) = ''bool''"
| "kind_string (RSlice n t) = ''slice''"
| "kind_string (RArray n k t) = ''array''"
| "kind_string (RMap n k t) = ''map''"
| "kind_string (RStruct n) = ''struct''"
| "kind_string (RNull i t) = ''struct''"
| "kind_string (RPtr t) = ''ptr''"
| "kind_string (RIface n) = ''interface''"
| "kind_string (ROther n k) = k"

definition goKindString :: "rtype \<Rightarrow> string" where
  "goKindString t = kind_string (unptr t)"

text \<open>The element type of a slice, map or array.\<close>

fun elem_type :: "rtype \<Rightarrow> rtype option" where
  "elem_type (RSlice n t) = Some t"
| "elem_type (RArray n k t) = Some t"
| "elem_type (RMap n k t) = Some t"
| "elem_type t = None"

definition is_uint8 :: "rtype \<Rightarrow> bool" where
  "is_uint8 t \<longleftrightarrow> (case t of RUint n b \<Rightarrow> b = 8 | _ \<Rightarrow> False)"

definition isByteSlice :: "rtype \<Rightarrow> bool" where
  "isByteSlice t \<longleftrightarrow> (case t of RSlice n u \<Rightarrow> is_uint8 u | _ \<Rightarrow> False)"

definition isUnnamedByteSlice :: "rtype \<Rightarrow> bool" where
  "isUnnamedByteSlice t \<longleftrightarrow> isByteSlice t \<and> TypeName t = []"

definition isByteArray :: "rtype \<Rightarrow> bool" where
  "isByteArray t \<longleftrightarrow> (case t of RArray n k u \<Rightarrow> is_uint8 u | _ \<Rightarrow> False)"

definition isDuration :: "rtype \<Rightarrow> bool" where
  "isDuration t \<longleftrightarrow> PkgPath (unptr t) = ''time'' \<and> TypeName (unptr t) = ''Duration''"

definition blobType :: rtype where
  "blobType = RStruct (''github.com/marrasen/aprot'', ''Blob'')"

definition blobTSWireShape :: string where
  "blobTSWireShape = ''{ contentType?: string; data: string }''"

section \<open>Marshalers\<close>

fun jsonValueToTS :: "json \<Rightarrow> string" where
  "jsonValueToTS (JStr s) = ''string''"
| "jsonValueToTS (JNum n) = ''number''"
| "jsonValueToTS (JBool b) = ''boolean''"
| "jsonValueToTS j = ''unknown''"

text \<open>The loop over the values of an object or array: \<open>None\<close> when two of them differ.\<close>

fun common_ts :: "string \<Rightarrow> json list \<Rightarrow> string option" where
  "common_ts common [] = Some common"
| "common_ts common (j # js) =
     (if common = [] then common_ts (jsonValueToTS j) js
      else if jsonValueToTS j \<noteq> common then None else common_ts common js)"

definition inferObjectType :: "(string \<times> json) list \<Rightarrow> string" where
  "inferObjectType obj =
     (if obj = [] then ''Record<string, unknown>''
      else case common_ts [] (map snd obj) of
             None \<Rightarrow> ''Record<string, unknown>''
           | Some common \<Rightarrow> ''Record<string, '' @ common @ ''>'')"

definition inferArrayType :: "json list \<Rightarrow> string" where
  "inferArrayType arr =
     (if arr = [] then ''unknown[]''
      else case common_ts [] arr of None \<Rightarrow> ''unknown[]'' | Some common \<Rightarrow> common @ ''[]'')"

definition is_iface :: "rtype \<Rightarrow> bool" where
  "is_iface t \<longleftrightarrow> (case t of RIface n \<Rightarrow> True | _ \<Rightarrow> False)"

definition InferTypeFromMarshal :: "gen_env \<Rightarrow> rtype \<Rightarrow> string option" where
  "InferTypeFromMarshal e t =
     (if is_iface t then None
      else let hasJSON = ge_json_marshaler e t \<or> ge_json_marshaler e (RPtr t);
               hasText = ge_text_marshaler e t \<or> ge_text_marshaler e (RPtr t)
           in if \<not> hasJSON \<and> hasText then Some ''string''
              else if \<not> hasJSON then None
              else case ge_zero e t of
                     None \<Rightarrow> None
                   | Some (JStr s) \<Rightarrow> Some ''string''
                   | Some (JBool b) \<Rightarrow> Some ''boolean''
                   | Some (JObj obj) \<Rightarrow> Some (inferObjectType obj)
                   | Some (JArr arr) \<Rightarrow> Some (inferArrayType arr)
                   | Some JNull \<Rightarrow> None
                   | Some (JNum n) \<Rightarrow> Some ''number'')"

text \<open>The nullable types of \<open>database/sql\<close>: the concrete ones by name, and the argument of \<open>sql.Null[T]\<close>.\<close>

definition sql_nulls :: "(string \<times> string \<times> string) list" where
  "sql_nulls = [(''NullString'', ''string | null'', ''string''), (''NullInt64'', ''number | null'', ''int''),
     (''NullInt32'', ''number | null'', ''int''), (''NullInt16'', ''number | null'', ''int''),
     (''NullFloat64'', ''number | null'', ''float''), (''NullByte'', ''number | null'', ''int''),
     (''NullBool'', ''boolean | null'', ''bool''), (''NullTime'', ''string | null'', ''string'')]"

definition sql_null_fixed :: "rtype \<Rightarrow> (string \<times> string) option" where
  "sql_null_fixed t =
     (if PkgPath (unptr t) = ''database/sql'' then map_of sql_nulls (TypeName (unptr t)) else None)"

definition sql_null_elem :: "rtype \<Rightarrow> rtype option" where
  "sql_null_elem t = (case unptr t of RNull i u \<Rightarrow> Some u | _ \<Rightarrow> None)"

definition SQLNullTSType :: "(rtype \<Rightarrow> string) \<Rightarrow> rtype \<Rightarrow> string option" where
  "SQLNullTSType resolver t =
     (case sql_null_fixed t of
        Some (ts, k) \<Rightarrow> Some ts
      | None \<Rightarrow> (case sql_null_elem t of Some u \<Rightarrow> Some (resolver u @ '' | null'') | None \<Rightarrow> None))"

definition SQLNullGoKind :: "(rtype \<Rightarrow> string) \<Rightarrow> rtype \<Rightarrow> string" where
  "SQLNullGoKind resolver t =
     (case sql_null_fixed t of
        Some (ts, k) \<Rightarrow> k
      | None \<Rightarrow> (case sql_null_elem t of Some u \<Rightarrow> resolver u | None \<Rightarrow> []))"

section \<open>TypeScript types\<close>

definition array_of :: "string \<Rightarrow> string" where
  "array_of elemTS = (if sublist '' | '' elemTS then ''('' @ elemTS @ '')[]'' else elemTS @ ''[]'')"

definition maxTSTupleLen :: nat where
  "maxTSTupleLen = 16"

definition tsTupleOrArray :: "string \<Rightarrow> nat \<Rightarrow> string" where
  "tsTupleOrArray elemTS n =
     (if n > maxTSTupleLen then array_of elemTS else ''['' @ join '', '' (replicate n elemTS) @ '']'')"

definition is_raw_json :: "rtype \<Rightarrow> bool" where
  "is_raw_json t \<longleftrightarrow> type_name t = (''encoding/json'', ''RawMessage'') \<or>
     type_name t = (''encoding/json/jsontext'', ''Value'')"

lemma sql_null_elem_size: "sql_null_elem t = Some u \<Longrightarrow> size u < size t"
  by (cases t rule: unptr.cases) (auto simp: sql_null_elem_def split: rtype.splits)

text \<open>
  One level of \<open>goTypeToTS\<close>: which of its branches applies to a type, with the types it goes on with.
  \<open>collected\<close> are the enums collected so far.
\<close>

datatype ts_shape =
    Fixed string
  | ArrayOf rtype
  | TupleOf nat rtype
  | RecordOf rtype rtype
  | BoolRecordOf rtype
  | NullOf rtype
  | Same rtype

fun kind_shape :: "rtype \<Rightarrow> ts_shape" where
  "kind_shape (RString n) = Fixed ''string''"
| "kind_shape (RInt n b) = Fixed ''number''"
| "kind_shape (RUint n b) = Fixed ''number''"
| "kind_shape (RFloat n b) = Fixed ''number''"
| "kind_shape (RBool n) = Fixed ''boolean''"
| "kind_shape (RSlice n u) = (if isUnnamedByteSlice (RSlice n u) then Fixed ''string'' else ArrayOf u)"
| "kind_shape (RArray n k u) = (if isByteArray (RArray n k u) then Fixed ''string'' else TupleOf k u)"
| "kind_shape (RMap n k u) = (if kind_string k = ''bool'' then BoolRecordOf u else RecordOf k u)"
| "kind_shape (RPtr u) = Same u"
| "kind_shape (RStruct n) = Fixed (if fst n = [] then ''unknown'' else sanitizeTSIdent (snd n))"
| "kind_shape (RNull i u) = Fixed (sanitizeTSIdent (TypeName (RNull i u)))"
| "kind_shape (RIface n) = Fixed ''unknown''"
| "kind_shape (ROther n k) = Fixed ''unknown''"

definition elem_of_slice :: "rtype \<Rightarrow> rtype option" where
  "elem_of_slice t = (case t of RSlice n u \<Rightarrow> Some u | _ \<Rightarrow> None)"

definition marshal_shape :: "rtype \<Rightarrow> string \<Rightarrow> ts_shape" where
  "marshal_shape t mt =
     (case elem_of_slice t of Some u \<Rightarrow> if suffix ''[]'' mt then ArrayOf u else Fixed mt | None \<Rightarrow> Fixed mt)"

definition ts_shape :: "gen_env \<Rightarrow> (rtype \<Rightarrow> enum_info option) \<Rightarrow> rtype \<Rightarrow> ts_shape" where
  "ts_shape e collected t =
     (case ge_enum e t of Some info \<Rightarrow> Fixed (e_Name info @ ''Type'') | None \<Rightarrow>
      case collected t of Some info \<Rightarrow> Fixed (e_Name info @ ''Type'') | None \<Rightarrow>
      case InferTypeFromMarshal e t of Some mt \<Rightarrow> marshal_shape t mt | None \<Rightarrow>
      case sql_null_fixed t of Some (ts, k) \<Rightarrow> Fixed ts | None \<Rightarrow>
      case sql_null_elem t of Some u \<Rightarrow> NullOf u | None \<Rightarrow>
      if is_raw_json t then Fixed ''unknown''
      else if t = blobType then Fixed blobTSWireShape
      else kind_shape t)"

fun shape_parts :: "ts_shape \<Rightarrow> rtype list" where
  "shape_parts (Fixed s) = []"
| "shape_parts (ArrayOf u) = [u]"
| "shape_parts (TupleOf k u) = [u]"
| "shape_parts (RecordOf k u) = [k, u]"
| "shape_parts (BoolRecordOf u) = [u]"
| "shape_parts (NullOf u) = [u]"
| "shape_parts (Same u) = [u]"

lemma kind_shape_size: "u \<in> set (shape_parts (kind_shape t)) \<Longrightarrow> size u < size t"
  by (cases t) (auto split: if_splits)

lemma ts_shape_size: "ts_shape e c t = sh \<Longrightarrow> u \<in> set (shape_parts sh) \<Longrightarrow> size u < size t"
  by (auto simp: ts_shape_def marshal_shape_def elem_of_slice_def dest: kind_shape_size sql_null_elem_size
      split: option.splits if_splits rtype.splits)

function goTypeToTS :: "gen_env \<Rightarrow> (rtype \<Rightarrow> enum_info option) \<Rightarrow> rtype \<Rightarrow> string" where
  "goTypeToTS e collected t =
     (case ts_shape e collected t of
        Fixed s \<Rightarrow> s
      | ArrayOf u \<Rightarrow> array_of (goTypeToTS e collected u)
      | TupleOf k u \<Rightarrow> tsTupleOrArray (goTypeToTS e collected u) k
      | RecordOf k u \<Rightarrow> ''Record<'' @ goTypeToTS e collected k @ '', '' @ goTypeToTS e collected u @ ''>''
      | BoolRecordOf u \<Rightarrow> ''Partial<Record<\"true\" | \"false\", '' @ goTypeToTS e collected u @ ''>>''
      | NullOf u \<Rightarrow> goTypeToTS e collected u @ '' | null''
      | Same u \<Rightarrow> goTypeToTS e collected u)"
  by pat_completeness auto
termination
  by (relation "measure (\<lambda>(e, c, t). size t)") (auto intro: ts_shape_size)

declare goTypeToTS.simps [simp del]

definition hasMarshalOverride :: "gen_env \<Rightarrow> (rtype \<Rightarrow> enum_info option) \<Rightarrow> rtype \<Rightarrow> bool" where
  "hasMarshalOverride e collected t \<longleftrightarrow>
     InferTypeFromMarshal e t \<noteq> None \<or> SQLNullTSType (goTypeToTS e collected) t \<noteq> None"

section \<open>Fields of an interface\<close>

record field_data =
  fd_Name :: string
  fd_Type :: string
  fd_Optional :: bool
  fd_GoType :: string
  fd_ValidateTag :: string
  fd_SQLNullKind :: string
  fd_ElemGoKind :: string
  fd_ElemTypeName :: string
  fd_ArrayLen :: nat
  fd_Enum :: "enum_info option"
  fd_ElemEnum :: "enum_info option"
  fd_Nullable :: bool
  fd_ElemLazy :: bool

definition shouldSkipField :: "rfield \<Rightarrow> bool" where
  "shouldSkipField f \<longleftrightarrow> rf_json f = ''-''"

definition getJSONName :: "rfield \<Rightarrow> string" where
  "getJSONName f =
     (if rf_json f = [] then rf_name f
      else let p = hd (split_on CHR '','' (rf_json f)) in if p = [] then rf_name f else p)"

definition is_ptr :: "rtype \<Rightarrow> bool" where
  "is_ptr t \<longleftrightarrow> (case t of RPtr u \<Rightarrow> True | _ \<Rightarrow> False)"

definition isOptional :: "rfield \<Rightarrow> bool" where
  "isOptional f \<longleftrightarrow> sublist ''omitempty'' (rf_json f) \<or> is_ptr (rf_type f)"

definition jsonFormatOption :: "rfield \<Rightarrow> string" where
  "jsonFormatOption f =
     (if rf_json f = [] then []
      else case find (prefix ''format:'') (tl (split_on CHR '','' (rf_json f))) of
             Some p \<Rightarrow> drop (length ''format:'') p
           | None \<Rightarrow> [])"

definition durationFormatShape :: "string \<Rightarrow> string option" where
  "durationFormatShape format = (if format = ''units'' \<or> format = ''iso8601'' then Some ''string'' else None)"

definition byteSliceFormatShape :: "string \<Rightarrow> (string \<times> string \<times> string) option" where
  "byteSliceFormatShape format =
     (if format = ''array'' then Some (''number[]'', ''slice'', ''uint'')
      else if format \<in> {''base64'', ''base64url'', ''base32'', ''base32hex'', ''base16'', ''hex''}
      then Some (''string'', ''string'', []) else None)"

definition lookupEnum :: "gen_env \<Rightarrow> rtype \<Rightarrow> enum_info option" where
  "lookupEnum e t = ge_enum e (unptr t)"

definition lookupElemEnum :: "gen_env \<Rightarrow> rtype \<Rightarrow> enum_info option" where
  "lookupElemEnum e t = (case elem_type (unptr t) of None \<Rightarrow> None | Some u \<Rightarrow> ge_enum e (unptr u))"

definition elemTypeInfo :: "rtype \<Rightarrow> string \<times> string" where
  "elemTypeInfo t =
     (case elem_type (unptr t) of
        None \<Rightarrow> ([], [])
      | Some u \<Rightarrow>
          let el = unptr u; kind = goKindString el
          in if kind = ''struct''
             then (if TypeName el \<noteq> [] \<and> PkgPath el \<noteq> [] then (kind, sanitizeTSIdent (TypeName el)) else ([], []))
             else if kind \<in> {''slice'', ''map'', ''array''} then ([], []) else (kind, []))"

definition array_len :: "rtype \<Rightarrow> nat" where
  "array_len t = (case unptr t of RArray n k u \<Rightarrow> k | _ \<Rightarrow> 0)"

text \<open>
  The loop body of \<open>collectInterfaceFields\<close> for a field that is not flattened: the defaults, and then
  the two sections that adjust durations and bytes.
\<close>

definition default_field :: "gen_env \<Rightarrow> (rtype \<Rightarrow> enum_info option) \<Rightarrow> rfield \<Rightarrow> field_data" where
  "default_field e c f =
     (let ty = rf_type f; ts = goTypeToTS e c ty;
          nullable = (is_ptr ty \<and> \<not> sublist ''omitempty'' (rf_json f))
      in \<lparr>fd_Name = tsObjectKey e (getJSONName f),
          fd_Type = (if nullable \<and> \<not> suffix '' | null'' ts then ts @ '' | null'' else ts),
          fd_Optional = (if nullable then False else isOptional f),
          fd_GoType = goKindString ty, fd_ValidateTag = rf_validate f,
          fd_SQLNullKind = SQLNullGoKind goKindString ty,
          fd_ElemGoKind = fst (elemTypeInfo ty), fd_ElemTypeName = snd (elemTypeInfo ty),
          fd_ArrayLen = array_len ty, fd_Enum = lookupEnum e ty, fd_ElemEnum = lookupElemEnum e ty,
          fd_Nullable = nullable, fd_ElemLazy = False\<rparr>)"

definition adjust_duration :: "rfield \<Rightarrow> field_data \<Rightarrow> field_data" where
  "adjust_duration f d =
     (if isDuration (rf_type f)
      then case durationFormatShape (jsonFormatOption f) of
             None \<Rightarrow> d
           | Some ts \<Rightarrow> d\<lparr>fd_Type := (if fd_Nullable d then ts @ '' | null'' else ts), fd_GoType := ''string'',
                fd_ElemGoKind := [], fd_ElemTypeName := []\<rparr>
      else d)"

definition adjust_bytes :: "rfield \<Rightarrow> field_data \<Rightarrow> field_data" where
  "adjust_bytes f d =
     (let ty = rf_type f; format = jsonFormatOption f
      in if \<not> isByteSlice ty \<and> \<not> isByteArray ty then d
         else if format \<noteq> []
         then (case byteSliceFormatShape format of
                 None \<Rightarrow> d
               | Some (ts, gk, ek) \<Rightarrow>
                   let d' = d\<lparr>fd_Type := ts, fd_GoType := gk, fd_ElemGoKind := ek, fd_ElemTypeName := []\<rparr>
                   in if format = ''array'' \<and> isByteArray ty
                      then d'\<lparr>fd_Type := tsTupleOrArray ''number'' (fd_ArrayLen d), fd_GoType := ''array''\<rparr> else d')
         else if isUnnamedByteSlice ty \<or> isByteArray ty
         then d\<lparr>fd_GoType := ''string'', fd_ElemGoKind := [], fd_ElemTypeName := [], fd_ArrayLen := 0\<rparr>
         else d)"

definition field_of :: "gen_env \<Rightarrow> (rtype \<Rightarrow> enum_info option) \<Rightarrow> rfield \<Rightarrow> field_data" where
  "field_of e c f = adjust_bytes f (adjust_duration f (default_field e c f))"

definition effectiveFieldType :: "gen_env \<Rightarrow> rtype \<Rightarrow> rfield \<Rightarrow> rtype" where
  "effectiveFieldType e owner f =
     (case owner of
        RStruct n \<Rightarrow> (case ge_override e n (rf_name f) of Some t \<Rightarrow> t | None \<Rightarrow> rf_type f)
      | _ \<Rightarrow> rf_type f)"

text \<open>The fields of a struct type; \<open>sql.Null[T]\<close> has the value and the flag.\<close>

definition fields_of :: "gen_env \<Rightarrow> rtype \<Rightarrow> rfield list" where
  "fields_of e t =
     (case t of
        RStruct n \<Rightarrow> ge_fields e n
      | RNull i u \<Rightarrow>
          [\<lparr>rf_name = ''V'', rf_exported = True, rf_anonymous = False, rf_json = [], rf_validate = [], rf_type = u\<rparr>,
           \<lparr>rf_name = ''Valid'', rf_exported = True, rf_anonymous = False, rf_json = [], rf_validate = [], rf_type = RBool ([], ''bool'')\<rparr>]
      | _ \<Rightarrow> [])"

definition is_struct_kind :: "rtype \<Rightarrow> bool" where
  "is_struct_kind t = (case t of RStruct n \<Rightarrow> True | RNull i u \<Rightarrow> True | _ \<Rightarrow> False)"

definition wire_field :: "rfield \<Rightarrow> bool" where
  "wire_field f \<longleftrightarrow> rf_exported f \<and> \<not> shouldSkipField f"

definition embeds :: "rfield \<Rightarrow> rtype option" where
  "embeds f = (if rf_anonymous f \<and> is_struct_kind (unptr (rf_type f)) then Some (unptr (rf_type f)) else None)"

text \<open>
  \<open>collectInterfaceFields\<close>: embedded structs are flattened in place. The number bounds the nesting of
  embedded structs; \<open>None\<close> is a walk that exceeds it.
\<close>

fun collectInterfaceFields :: "gen_env \<Rightarrow> (rtype \<Rightarrow> enum_info option) \<Rightarrow> nat \<Rightarrow> rtype \<Rightarrow> field_data list option"
  and collect_fields :: "gen_env \<Rightarrow> (rtype \<Rightarrow> enum_info option) \<Rightarrow> nat \<Rightarrow> rtype \<Rightarrow> rfield list \<Rightarrow> field_data list option" where
  "collectInterfaceFields e c 0 t = None"
| "collectInterfaceFields e c (Suc k) t = collect_fields e c k t (fields_of e t)"
| "collect_fields e c k t [] = Some []"
| "collect_fields e c k t (f # fs) =
     (if \<not> wire_field f then collect_fields e c k t fs
      else case embeds f of
             Some u \<Rightarrow>
               (case (collectInterfaceFields e c k u, collect_fields e c k t fs) of
                  (Some ds, Some es) \<Rightarrow> Some (ds @ es)
                | _ \<Rightarrow> None)
           | None \<Rightarrow>
               (case collect_fields e c k t fs of
                  Some es \<Rightarrow> Some (field_of e c (f\<lparr>rf_type := effectiveFieldType e t f\<rparr>) # es)
                | None \<Rightarrow> None))"

text \<open>An environment without marshalers, enums and overrides, for examples.\<close>

definition plain_env :: "(tyname \<Rightarrow> rfield list) \<Rightarrow> gen_env" where
  "plain_env fs = \<lparr>ge_fields = fs, ge_enum = (\<lambda>_. None), ge_override = (\<lambda>_ _. None),
     ge_json_marshaler = (\<lambda>_. False), ge_text_marshaler = (\<lambda>_. False), ge_zero = (\<lambda>_. None),
     ge_quote = (\<lambda>s. ''\"'' @ s @ ''\"'')\<rparr>"

end
