(* ===== verification/Aprot_Zod.thy ===== *)
theory Aprot_Zod
  imports Aprot_GoTypes Aprot_Http
begin

text \<open>
  Generation of Zod schemas (\<open>zod.go\<close>): the expression of a field, and the order of the declarations
  in a file. A schema is a top-level constant, so one that mentions another must come after it; within
  a cycle of references the mention is deferred with \<open>z.lazy\<close>.
\<close>

section \<open>Fields\<close>

fun enum_value_text :: "gen_env \<Rightarrow> enum_value \<Rightarrow> string" where
  "enum_value_text e (EStr s) = ge_quote e s"
| "enum_value_text e (EInt i) = int_str i"

text \<open>A string enum takes the string in each value, the empty one for a value of another type.\<close>

definition enum_str :: "enum_value \<Rightarrow> string" where
  "enum_str v = (case v of EStr s \<Rightarrow> s | EInt i \<Rightarrow> [])"

definition zodEnumBase :: "gen_env \<Rightarrow> enum_info \<Rightarrow> string" where
  "zodEnumBase e info =
     (if e_IsString info
      then ''enum(['' @ join '', '' (map (\<lambda>(n, v). ge_quote e (enum_str v)) (e_Values info)) @ ''])''
      else ''union(['' @ join '', '' (map (\<lambda>(n, v). ''z.literal('' @ enum_value_text e v @ '')'') (e_Values info)) @ ''])'')"

text \<open>\<open>strings.Fields\<close>.\<close>

definition at_space :: "string \<Rightarrow> bool" where
  "at_space s \<longleftrightarrow> list_ex (\<lambda>w. w \<noteq> [] \<and> prefix w s) space_runes"

fun word :: "string \<Rightarrow> string" where
  "word [] = []"
| "word (c # s) = (if at_space (c # s) then [] else c # word s)"

lemma trim_left_le: "length (trim_left ws s) \<le> length s"
  unfolding trim_left_def by (induction ws s rule: strip.induct) (subst strip.simps, auto split: option.split)

lemma trim_left_no_space: "trim_left space_runes s = c # s' \<Longrightarrow> \<not> at_space (c # s')"
  unfolding trim_left_def
proof (induction space_runes s rule: strip.induct)
  case (1 s)
  show ?case
  proof (cases "find (\<lambda>w. w \<noteq> [] \<and> prefix w s) space_runes")
    case None
    then have "s = c # s'" using 1(2) by (subst (asm) strip.simps) simp
    with None show ?thesis by (auto simp: find_None_iff at_space_def list_ex_iff)
  next
    case (Some w)
    have "strip space_runes s = strip space_runes (drop (length w) s)" by (subst strip.simps) (simp add: Some)
    with 1(1) [OF Some] 1(2) show ?thesis by simp
  qed
qed

function Fields :: "string \<Rightarrow> string list" where
  "Fields s =
     (let s' = trim_left space_runes s
      in if s' = [] then [] else word s' # Fields (drop (length (word s')) s'))"
  by pat_completeness auto
termination
proof (relation "measure length", goal_cases)
  case (2 s s')
  then obtain c r where s': "s' = c # r" using list.exhaust by metis
  then have "word s' = c # word r" using trim_left_no_space [of s c r] 2 by simp
  then have "length (drop (length (word s')) s') < length s'" using s' by simp
  also have "length s' \<le> length s" using 2 trim_left_le by simp
  finally show ?case by simp
qed simp

declare Fields.simps [simp del]

definition zodOneof :: "gen_env \<Rightarrow> string \<Rightarrow> string \<Rightarrow> string" where
  "zodOneof e goKind param =
     (let vals = Fields param
      in if vals = [] then []
         else if goKind = ''string'' then ''z.enum(['' @ join '', '' (map (ge_quote e) vals) @ ''])''
         else if goKind \<in> {''int'', ''uint'', ''float''}
         then (if length vals = 1 then ''z.literal('' @ hd vals @ '')''
               else ''z.union(['' @ join '', '' (map (\<lambda>v. ''z.literal('' @ v @ '')'') vals) @ ''])'')
         else [])"

text \<open>\<open>strconv.Atoi\<close>, and the number printed after an addition that wraps around.\<close>

definition bound_text :: "string \<Rightarrow> string \<Rightarrow> int \<Rightarrow> string" where
  "bound_text m param d =
     (case ParseInt param of
        Inl err \<Rightarrow> []
      | Inr n \<Rightarrow> m @ ''('' @ int_str (sint (word_of_int (n + d) :: i64)) @ '')'')"

definition zodConstraint :: "gen_env \<Rightarrow> string \<Rightarrow> rule \<Rightarrow> string" where
  "zodConstraint e goKind r =
     (let tag = r_tag r; p = r_param r; q = ge_quote e;
          refine = (\<lambda>f msg. ''refine(v => v.'' @ f @ ''('' @ q p @ ''), { message: '' @ q (msg @ p) @ '' })'')
      in if goKind = ''map'' \<or> goKind = ''array'' then []
         else if (goKind = ''string'' \<or> goKind = ''slice'') \<and> tag = ''gt'' then bound_text ''min'' p 1
         else if (goKind = ''string'' \<or> goKind = ''slice'') \<and> tag = ''lt'' then bound_text ''max'' p (- 1)
         else if tag = ''required'' then (if goKind = ''string'' then ''min(1)'' else [])
         else if tag = ''min'' \<or> tag = ''gte'' then ''min('' @ p @ '')''
         else if tag = ''max'' \<or> tag = ''lte'' then ''max('' @ p @ '')''
         else if tag = ''len'' then ''length('' @ p @ '')''
         else if tag = ''gt'' then ''gt('' @ p @ '')''
         else if tag = ''lt'' then ''lt('' @ p @ '')''
         else if tag = ''email'' then ''email()''
         else if tag = ''url'' then ''url()''
         else if tag = ''uuid'' then ''uuid()''
         else if tag = ''alpha'' then ''regex(/^[a-zA-Z]+$/)''
         else if tag = ''alphanum'' then ''regex(/^[a-zA-Z0-9]+$/)''
         else if tag = ''contains'' then refine ''includes'' ''must contain ''
         else if tag = ''startswith'' then refine ''startsWith'' ''must start with ''
         else if tag = ''endswith'' then refine ''endsWith'' ''must end with ''
         else [])"

definition zodElemExpr :: "gen_env \<Rightarrow> string list \<Rightarrow> field_data \<Rightarrow> string" where
  "zodElemExpr e known f =
     (case fd_ElemEnum f of
        Some info \<Rightarrow> ''z.'' @ zodEnumBase e info
      | None \<Rightarrow>
          let k = fd_ElemGoKind f; n = fd_ElemTypeName f
          in if k = ''string'' then ''z.string()''
             else if k = ''int'' \<or> k = ''uint'' then ''z.number().int()''
             else if k = ''float'' then ''z.number()''
             else if k = ''bool'' then ''z.boolean()''
             else if k = ''struct'' \<and> n \<noteq> [] \<and> n \<in> set known
             then (if fd_ElemLazy f then ''z.lazy(() => '' @ n @ ''Schema)'' else n @ ''Schema'')
             else ''z.unknown()'')"

definition zodBaseType :: "gen_env \<Rightarrow> string list \<Rightarrow> string \<Rightarrow> field_data \<Rightarrow> string" where
  "zodBaseType e known goKind f =
     (let el = zodElemExpr e known f
      in if goKind = ''string'' then ''string()''
         else if goKind = ''int'' \<or> goKind = ''uint'' then ''number().int()''
         else if goKind = ''float'' then ''number()''
         else if goKind = ''bool'' then ''boolean()''
         else if goKind = ''slice'' then ''array('' @ el @ '')''
         else if goKind = ''array''
         then (if fd_ArrayLen f > maxTSTupleLen then ''array('' @ el @ '').length('' @ nat_str (fd_ArrayLen f) @ '')''
               else ''tuple(['' @ join '', '' (replicate (fd_ArrayLen f) el) @ ''])'')
         else if goKind = ''map'' then ''record(z.string(), '' @ el @ '')''
         else ''unknown()'')"

text \<open>The endings shared by the three branches of \<open>fieldToZod\<close>.\<close>

definition zod_wrap :: "bool \<Rightarrow> bool \<Rightarrow> bool \<Rightarrow> string \<Rightarrow> string" where
  "zod_wrap nullable emptyOk optional body =
     (let b1 = (if nullable then body @ ''.nullable()'' else body);
          b2 = (if emptyOk then ''z.union([z.literal(\"\"), '' @ b1 @ ''])'' else b1)
      in if optional then b2 @ ''.optional()'' else b2)"

definition fieldToZod :: "gen_env \<Rightarrow> string list \<Rightarrow> field_data \<Rightarrow> string" where
  "fieldToZod e known f =
     (let rules = ParseValidateTag (fd_ValidateTag f);
          kind = (if fd_SQLNullKind f \<noteq> [] then fd_SQLNullKind f else fd_GoType f);
          nullable = (fd_SQLNullKind f \<noteq> [] \<or> fd_Nullable f);
          emptyOk = list_ex (\<lambda>r. r_tag r = ''omitempty'') rules;
          oneof = (case find (\<lambda>r. r_tag r = ''oneof'') rules of Some r \<Rightarrow> zodOneof e kind (r_param r) | None \<Rightarrow> []);
          explicitMin = list_ex (\<lambda>r. r_tag r = ''min'') rules
      in case fd_Enum f of
           Some info \<Rightarrow> zod_wrap nullable (emptyOk \<and> e_IsString info) (fd_Optional f) (''z.'' @ zodEnumBase e info)
         | None \<Rightarrow>
             if oneof \<noteq> [] then zod_wrap nullable (emptyOk \<and> kind = ''string'') (fd_Optional f) oneof
             else let kept = filter (\<lambda>r. r_tag r \<noteq> ''omitempty'' \<and>
                                \<not> (r_tag r = ''required'' \<and> kind = ''string'' \<and> explicitMin)) rules;
                      chain = zodBaseType e known kind f # filter (\<lambda>s. s \<noteq> []) (map (zodConstraint e kind) kept)
                  in zod_wrap nullable (emptyOk \<and> kind = ''string'') (fd_Optional f) (''z.'' @ join ''.'' chain))"

section \<open>References between schemas\<close>

type_synonym deps = "(string, string list) gomap"

definition deps_of :: "deps \<Rightarrow> string \<Rightarrow> string list" where
  "deps_of deps n = (case map_of deps n of Some ds \<Rightarrow> ds | None \<Rightarrow> [])"

text \<open>
  The inner loop of \<open>depReaches\<close>: \<open>None\<close> when the target is found, otherwise the visited names and the
  stack, its top first.
\<close>

fun scan_deps :: "string \<Rightarrow> string list \<Rightarrow> string list \<Rightarrow> string list \<Rightarrow> (string list \<times> string list) option" where
  "scan_deps to [] visited stack = Some (visited, stack)"
| "scan_deps to (d # ds) visited stack =
     (if d = to then None
      else if d \<in> set visited then scan_deps to ds visited stack
      else scan_deps to ds (d # visited) (d # stack))"

definition targets :: "deps \<Rightarrow> string set" where
  "targets deps = (\<Union>(n, ds)\<in>set deps. set ds)"

lemma finite_targets [simp]: "finite (targets deps)"
  by (auto simp: targets_def)

lemma deps_of_targets: "set (deps_of deps n) \<subseteq> targets deps"
  by (cases "map_of deps n") (force simp: deps_of_def targets_def dest: map_of_SomeD)+

lemma scan_deps_Some:
  assumes "scan_deps to ds vis stk = Some (vis', stk')"
  shows "to \<notin> set ds \<and> set vis' = set vis \<union> set ds \<and> set stk' = set stk \<union> (set ds - set vis) \<and>
    (set ds \<subseteq> set vis \<longrightarrow> vis' = vis \<and> stk' = stk)"
  using assms by (induction to ds vis stk rule: scan_deps.induct) (auto split: if_splits)

lemma scan_deps_None: "scan_deps to ds vis stk = None \<longleftrightarrow> to \<in> set ds"
  by (induction to ds vis stk rule: scan_deps.induct) auto

function reach_loop :: "deps \<Rightarrow> string \<Rightarrow> string list \<Rightarrow> string list \<Rightarrow> bool" where
  "reach_loop deps to visited [] = False"
| "reach_loop deps to visited (n # stack) =
     (case scan_deps to (deps_of deps n) visited stack of
        None \<Rightarrow> True
      | Some (visited', stack') \<Rightarrow> reach_loop deps to visited' stack')"
  by pat_completeness auto
termination
proof (relation "measures [\<lambda>(deps, to, vis, stk). card (targets deps - set vis), \<lambda>(deps, to, vis, stk). length stk]",
    goal_cases)
  case (2 deps to vis n stk x vis' stk')
  then have sc: "scan_deps to (deps_of deps n) vis stk = Some (vis', stk')" by simp
  show ?case
  proof (cases "set (deps_of deps n) \<subseteq> set vis")
    case True
    then show ?thesis using scan_deps_Some [OF sc] by simp
  next
    case False
    then obtain d where d: "d \<in> set (deps_of deps n)" "d \<notin> set vis" by blast
    have "targets deps - set vis' \<subset> targets deps - set vis"
      using scan_deps_Some [OF sc] d deps_of_targets [of deps n] by blast
    then have "card (targets deps - set vis') < card (targets deps - set vis)" by (simp add: psubset_card_mono)
    then show ?thesis by simp
  qed
qed simp

definition depReaches :: "deps \<Rightarrow> string \<Rightarrow> string \<Rightarrow> bool" where
  "depReaches deps src to = reach_loop deps to [] [src]"

definition edges :: "deps \<Rightarrow> (string \<times> string) set" where
  "edges deps = {(a, d). d \<in> set (deps_of deps a)}"

text \<open>
  The loop is complete: when it ends, the visited names and the start are closed under the edges and
  have no edge to the target.
\<close>

lemma reach_loop_sound:
  "reach_loop deps to vis stk \<Longrightarrow> \<exists>n\<in>set stk. (n, to) \<in> (edges deps)\<^sup>+"
proof (induction deps to vis stk rule: reach_loop.induct)
  case (2 deps to vis n stk)
  show ?case
  proof (cases "scan_deps to (deps_of deps n) vis stk")
    case None
    then have "(n, to) \<in> edges deps" by (simp add: scan_deps_None edges_def)
    then show ?thesis by auto
  next
    case (Some p)
    then obtain vis' stk' where sc: "scan_deps to (deps_of deps n) vis stk = Some (vis', stk')" by (cases p) simp
    then obtain m where m: "m \<in> set stk'" "(m, to) \<in> (edges deps)\<^sup>+" using 2(1) [OF sc refl] 2(2) by auto
    show ?thesis
    proof (cases "m \<in> set stk")
      case False
      then have "(n, m) \<in> edges deps" using scan_deps_Some [OF sc] m(1) by (auto simp: edges_def)
      then show ?thesis using m(2) by (auto intro: trancl_into_trancl2)
    qed (use m in auto)
  qed
qed simp

lemma reach_loop_complete:
  assumes "\<not> reach_loop deps to vis stk"
    and "\<forall>a\<in>set vis \<union> {src}. a \<in> set stk \<or> (to \<notin> set (deps_of deps a) \<and> set (deps_of deps a) \<subseteq> set vis)"
  shows "(src, to) \<notin> (edges deps)\<^sup>+"
  using assms
proof (induction deps to vis stk rule: reach_loop.induct)
  case (1 deps to vis)
  have closed: "b \<in> set vis \<and> b \<noteq> to" if "(src, b) \<in> (edges deps)\<^sup>+" for b
    using that
  proof (induction rule: trancl_induct)
    case (base b)
    then show ?case using 1 by (auto simp: edges_def)
  next
    case (step b c)
    then show ?case using 1 by (auto simp: edges_def)
  qed
  then show ?case by blast
next
  case (2 deps to vis n stk)
  then obtain vis' stk' where sc: "scan_deps to (deps_of deps n) vis stk = Some (vis', stk')"
    by (cases "scan_deps to (deps_of deps n) vis stk") auto
  have "\<forall>a\<in>set vis' \<union> {src}. a \<in> set stk' \<or> (to \<notin> set (deps_of deps a) \<and> set (deps_of deps a) \<subseteq> set vis')"
    using 2(3) scan_deps_Some [OF sc] by fastforce
  then show ?case using 2(1) [OF sc refl] 2(2) sc by simp
qed

lemma depReaches_iff: "depReaches deps src to \<longleftrightarrow> (src, to) \<in> (edges deps)\<^sup>+"
  using reach_loop_sound [of deps to "[]" "[src]"] reach_loop_complete [of deps to "[]" "[src]" src]
  by (auto simp: depReaches_def)

section \<open>The order of the declarations\<close>

record zod_schema =
  zs_Name :: string
  zs_Fields :: "(string \<times> string) list"

datatype color = White | Gray | Black

record topo =
  tp_color :: "string \<Rightarrow> color"
  tp_out :: "zod_schema list"

text \<open>
  The closure \<open>visit\<close> of \<open>topoSortSchemas\<close>, with its loop over the dependencies. The number bounds the
  nesting of the calls; \<open>None\<close> is a walk that exceeds it.
\<close>

fun visit :: "deps \<Rightarrow> (string, zod_schema) gomap \<Rightarrow> nat \<Rightarrow> string \<Rightarrow> topo \<Rightarrow> topo option"
  and visit_deps :: "deps \<Rightarrow> (string, zod_schema) gomap \<Rightarrow> nat \<Rightarrow> string list \<Rightarrow> topo \<Rightarrow> topo option" where
  "visit deps byName 0 name st = None"
| "visit deps byName (Suc k) name st =
     (if tp_color st name \<noteq> White then Some st
      else case visit_deps deps byName k (deps_of deps name) (st\<lparr>tp_color := (tp_color st)(name := Gray)\<rparr>) of
             None \<Rightarrow> None
           | Some st' \<Rightarrow>
               Some (st'\<lparr>tp_color := (tp_color st')(name := Black),
                         tp_out := tp_out st' @ (case map_of byName name of Some s \<Rightarrow> [s] | None \<Rightarrow> [])\<rparr>))"
| "visit_deps deps byName k [] st = Some st"
| "visit_deps deps byName k (d # ds) st =
     (if map_of byName d = None \<or> tp_color st d = Gray then visit_deps deps byName k ds st
      else case visit deps byName k d st of
             None \<Rightarrow> None
           | Some st' \<Rightarrow> visit_deps deps byName k ds st')"

fun visit_all :: "deps \<Rightarrow> (string, zod_schema) gomap \<Rightarrow> nat \<Rightarrow> string list \<Rightarrow> topo \<Rightarrow> topo option" where
  "visit_all deps byName k [] st = Some st"
| "visit_all deps byName k (n # ns) st =
     (case visit deps byName k n st of None \<Rightarrow> None | Some st' \<Rightarrow> visit_all deps byName k ns st')"

definition topoSortSchemas :: "zod_schema list \<Rightarrow> deps \<Rightarrow> zod_schema list option" where
  "topoSortSchemas schemas deps =
     (let byName = fold (\<lambda>s. AList.update (zs_Name s) s) schemas []
      in map_option tp_out
           (visit_all deps byName (Suc (length schemas)) (map zs_Name schemas)
              \<lparr>tp_color = (\<lambda>_. White), tp_out = []\<rparr>))"

subsection \<open>Correctness of the walk\<close>

definition known_edges :: "deps \<Rightarrow> string set \<Rightarrow> (string \<times> string) set" where
  "known_edges deps K = {(a, d). d \<in> set (deps_of deps a) \<and> d \<in> K}"

text \<open>Every name comes after the names it refers to, unless these lead back to it.\<close>

definition deps_first :: "deps \<Rightarrow> string set \<Rightarrow> string list \<Rightarrow> bool" where
  "deps_first deps K ns \<longleftrightarrow>
     (\<forall>i<length ns. \<forall>d\<in>set (deps_of deps (ns ! i)). d \<in> K \<and> (d, ns ! i) \<notin> (known_edges deps K)\<^sup>+ \<longrightarrow> d \<in> set (take i ns))"

lemma deps_first_snoc:
  "deps_first deps K (ns @ [n]) \<longleftrightarrow> deps_first deps K ns \<and>
     (\<forall>d\<in>set (deps_of deps n). d \<in> K \<and> (d, n) \<notin> (known_edges deps K)\<^sup>+ \<longrightarrow> d \<in> set ns)"
  unfolding deps_first_def by (auto simp: nth_append less_Suc_eq)

definition names :: "topo \<Rightarrow> string list" where
  "names st = map zs_Name (tp_out st)"

definition coloured :: "color \<Rightarrow> topo \<Rightarrow> string set" where
  "coloured c st = {n. tp_color st n = c}"

definition topo_inv :: "deps \<Rightarrow> (string, zod_schema) gomap \<Rightarrow> topo \<Rightarrow> bool" where
  "topo_inv deps byName st \<longleftrightarrow> distinct (names st) \<and> set (names st) = coloured Black st \<and>
     coloured Black st \<union> coloured Gray st \<subseteq> dom (map_of byName) \<and>
     (\<forall>s\<in>set (tp_out st). map_of byName (zs_Name s) = Some s) \<and> deps_first deps (dom (map_of byName)) (names st)"

definition keyed :: "(string, zod_schema) gomap \<Rightarrow> bool" where
  "keyed byName \<longleftrightarrow> (\<forall>n s. map_of byName n = Some s \<longrightarrow> zs_Name s = n)"

definition white :: "(string, zod_schema) gomap \<Rightarrow> topo \<Rightarrow> string set" where
  "white byName st = {n \<in> dom (map_of byName). tp_color st n = White}"

lemma finite_white [simp]: "finite (white byName st)"
  unfolding white_def by (rule finite_subset [OF _ finite_dom_map_of]) blast

text \<open>What a visit does to a state: the grey names stay, no name becomes white again.\<close>

definition advances :: "deps \<Rightarrow> (string, zod_schema) gomap \<Rightarrow> topo \<Rightarrow> topo \<Rightarrow> bool" where
  "advances deps byName st st' \<longleftrightarrow> topo_inv deps byName st' \<and> coloured Gray st' = coloured Gray st \<and>
     white byName st' \<subseteq> white byName st"

lemma advances_refl: "topo_inv deps byName st \<Longrightarrow> advances deps byName st st"
  by (simp add: advances_def)

lemma advances_trans: "advances deps byName a b \<Longrightarrow> advances deps byName b c \<Longrightarrow> advances deps byName a c"
  by (auto simp: advances_def)

lemma advances_coloured:
  "advances deps byName st st' \<Longrightarrow> n \<in> dom (map_of byName) \<Longrightarrow> tp_color st n \<noteq> White \<Longrightarrow> tp_color st' n \<noteq> White"
  by (auto simp: advances_def white_def)

lemma gray_inv:
  assumes "topo_inv deps byName st" "n \<in> dom (map_of byName)" "tp_color st n = White"
  shows "topo_inv deps byName (st\<lparr>tp_color := (tp_color st)(n := Gray)\<rparr>)"
    and "coloured Gray (st\<lparr>tp_color := (tp_color st)(n := Gray)\<rparr>) = insert n (coloured Gray st)"
    and "white byName (st\<lparr>tp_color := (tp_color st)(n := Gray)\<rparr>) = white byName st - {n}"
  using assms by (auto simp: topo_inv_def names_def coloured_def white_def)

lemma finish_advances:
  assumes st: "topo_inv deps byName st" "n \<in> dom (map_of byName)" "tp_color st n = White" and k: "keyed byName"
    and adv: "advances deps byName (st\<lparr>tp_color := (tp_color st)(n := Gray)\<rparr>) st'"
    and dn: "\<forall>d\<in>set (deps_of deps n). d \<in> dom (map_of byName) \<longrightarrow> tp_color st' d \<noteq> White"
    and gr: "\<forall>g\<in>coloured Gray st. (g, n) \<in> (known_edges deps (dom (map_of byName)))\<^sup>+"
  shows "advances deps byName st (st'\<lparr>tp_color := (tp_color st')(n := Black),
     tp_out := tp_out st' @ (case map_of byName n of Some s \<Rightarrow> [s] | None \<Rightarrow> [])\<rparr>)"
proof -
  let ?E = "known_edges deps (dom (map_of byName))"
  obtain s where s: "map_of byName n = Some s" using st(2) by auto
  then have sn: "zs_Name s = n" using k by (simp add: keyed_def)
  have inv': "topo_inv deps byName st'" and gray': "coloured Gray st' = insert n (coloured Gray st)"
    and white': "white byName st' \<subseteq> white byName st - {n}"
    using adv gray_inv [OF st] by (simp_all add: advances_def)
  have "d \<in> set (names st')"
    if d: "d \<in> set (deps_of deps n)" "d \<in> dom (map_of byName)" "(d, n) \<notin> ?E\<^sup>+" for d
  proof -
    have "d \<notin> coloured Gray st'"
      using d gr by (auto simp: gray' known_edges_def intro: r_into_trancl)
    then have "d \<in> coloured Black st'" using dn d by (cases "tp_color st' d") (auto simp: coloured_def)
    then show ?thesis using inv' by (simp add: topo_inv_def)
  qed
  then have first: "deps_first deps (dom (map_of byName)) (names st' @ [n])"
    using inv' by (simp add: topo_inv_def deps_first_snoc)
  have "n \<in> coloured Gray st'" by (simp add: gray')
  then have "n \<notin> set (names st')" using inv' by (auto simp: topo_inv_def coloured_def)
  then show ?thesis
    using inv' first s sn st gray' white'
    by (auto simp: advances_def topo_inv_def names_def coloured_def white_def)
qed

lemma visit_advances:
  "keyed byName \<Longrightarrow> name \<in> dom (map_of byName) \<Longrightarrow> topo_inv deps byName st \<Longrightarrow> card (white byName st) < k \<Longrightarrow>
      \<forall>g\<in>coloured Gray st. (g, name) \<in> (known_edges deps (dom (map_of byName)))\<^sup>+ \<Longrightarrow>
      \<exists>st'. visit deps byName k name st = Some st' \<and> advances deps byName st st' \<and> tp_color st' name \<noteq> White"
  "keyed byName \<Longrightarrow> topo_inv deps byName st \<Longrightarrow> card (white byName st) < k \<Longrightarrow> set ds \<subseteq> set (deps_of deps a) \<Longrightarrow>
      \<forall>g\<in>coloured Gray st. (g, a) \<in> (known_edges deps (dom (map_of byName)))\<^sup>* \<Longrightarrow>
      \<exists>st'. visit_deps deps byName k ds st = Some st' \<and> advances deps byName st st' \<and>
        (\<forall>d\<in>set ds. d \<in> dom (map_of byName) \<longrightarrow> tp_color st' d \<noteq> White)"
proof (induction deps byName k name st and deps byName k ds st arbitrary: and a rule: visit_visit_deps.induct)
  case (1 deps byName name st)
  then show ?case by simp
next
  case (2 deps byName k name st)
  note key = 2(2) and dm = 2(3) and inv = 2(4) and fuel = 2(5) and gr = 2(6)
  show ?case
  proof (cases "tp_color st name = White")
    case True
    let ?st = "st\<lparr>tp_color := (tp_color st)(name := Gray)\<rparr>"
    note g = gray_inv [OF inv dm True]
    have "name \<in> white byName st" using dm True by (simp add: white_def)
    then have "card (white byName ?st) < card (white byName st)"
      unfolding g(3) by (rule card_Diff1_less [OF finite_white])
    then have w: "card (white byName ?st) < k" using fuel by simp
    have "\<forall>g\<in>coloured Gray ?st. (g, name) \<in> (known_edges deps (dom (map_of byName)))\<^sup>*"
      using gr g(2) by (auto simp: trancl_into_rtrancl)
    then obtain st' where st': "visit_deps deps byName k (deps_of deps name) ?st = Some st'"
      "advances deps byName ?st st'" "\<forall>d\<in>set (deps_of deps name). d \<in> dom (map_of byName) \<longrightarrow> tp_color st' d \<noteq> White"
      using 2(1) [OF _ key g(1) w, of name] True by auto
    show ?thesis using finish_advances [OF inv dm True key st'(2,3) gr] st'(1) True by simp
  next
    case False
    then show ?thesis using inv advances_refl by auto
  qed
next
  case (3 deps byName k st)
  then show ?case using advances_refl by auto
next
  case (4 deps byName k d ds st)
  note key = 4(4) and inv = 4(5) and fuel = 4(6) and sub = 4(7) and gr = 4(8)
  show ?case
  proof (cases "map_of byName d = None \<or> tp_color st d = Gray")
    case True
    then obtain st' where st': "visit_deps deps byName k ds st = Some st'" "advances deps byName st st'"
      "\<forall>d\<in>set ds. d \<in> dom (map_of byName) \<longrightarrow> tp_color st' d \<noteq> White"
      using 4(1) [OF True key inv fuel _ gr] sub by auto
    have "tp_color st' d \<noteq> White" if "d \<in> dom (map_of byName)"
      using advances_coloured [OF st'(2) that] True that by auto
    then show ?thesis using True st' by simp
  next
    case False
    then have d: "d \<in> dom (map_of byName)" "(a, d) \<in> known_edges deps (dom (map_of byName))"
      using sub by (auto simp: known_edges_def)
    have "\<forall>g\<in>coloured Gray st. (g, d) \<in> (known_edges deps (dom (map_of byName)))\<^sup>+"
      using gr d(2) by (auto intro: rtrancl_into_trancl1)
    then obtain st1 where st1: "visit deps byName k d st = Some st1" "advances deps byName st st1" "tp_color st1 d \<noteq> White"
      using 4(2) [OF False key d(1) inv fuel] by auto
    have inv1: "topo_inv deps byName st1" using st1(2) by (simp add: advances_def)
    have "card (white byName st1) \<le> card (white byName st)"
      using st1(2) by (auto simp: advances_def intro: card_mono)
    then have w: "card (white byName st1) < k" using fuel by simp
    have g: "\<forall>g\<in>coloured Gray st1. (g, a) \<in> (known_edges deps (dom (map_of byName)))\<^sup>*"
      using gr st1(2) by (simp add: advances_def)
    obtain st2 where st2: "visit_deps deps byName k ds st1 = Some st2" "advances deps byName st1 st2"
      "\<forall>d\<in>set ds. d \<in> dom (map_of byName) \<longrightarrow> tp_color st2 d \<noteq> White"
      using 4(3) [OF False st1(1) key inv1 w _ g] sub by auto
    have "tp_color st2 d \<noteq> White" using advances_coloured [OF st2(2) d(1) st1(3)] .
    moreover have "advances deps byName st st2" using st1(2) st2(2) by (rule advances_trans)
    moreover have "visit_deps deps byName k (d # ds) st = Some st2" using False st1(1) st2(1) by auto
    ultimately show ?thesis using st2(3) by simp
  qed
qed

lemma visit_all_advances:
  assumes "keyed byName" "card (dom (map_of byName)) < k" "set ns \<subseteq> dom (map_of byName)"
    and "topo_inv deps byName st" "coloured Gray st = {}"
  shows "\<exists>st'. visit_all deps byName k ns st = Some st' \<and> topo_inv deps byName st' \<and> coloured Gray st' = {} \<and>
    (\<forall>n\<in>set ns. tp_color st' n \<noteq> White) \<and> white byName st' \<subseteq> white byName st"
  using assms
proof (induction ns arbitrary: st)
  case (Cons n ns)
  have "card (white byName st) \<le> card (dom (map_of byName))"
    by (rule card_mono) (auto simp: white_def finite_dom_map_of)
  then obtain st1 where st1: "visit deps byName k n st = Some st1" "advances deps byName st st1" "tp_color st1 n \<noteq> White"
    using visit_advances(1) [of byName n deps st k] Cons.prems by auto
  have "topo_inv deps byName st1" "coloured Gray st1 = {}" using st1(2) Cons.prems(5) by (simp_all add: advances_def)
  then obtain st2 where st2: "visit_all deps byName k ns st1 = Some st2" "topo_inv deps byName st2"
    "coloured Gray st2 = {}" "\<forall>n\<in>set ns. tp_color st2 n \<noteq> White" "white byName st2 \<subseteq> white byName st1"
    using Cons.IH [of st1] Cons.prems(1,2,3) by auto
  have "tp_color st2 n \<noteq> White" using st1(3) st2(5) Cons.prems(3) by (auto simp: white_def)
  then show ?case using st1 st2 by (auto simp: advances_def)
qed simp

lemma map_of_fold_update:
  "distinct (map f xs) \<Longrightarrow> map_of (fold (\<lambda>x. AList.update (f x) (g x)) xs m) k =
     (case find (\<lambda>x. f x = k) xs of Some x \<Rightarrow> Some (g x) | None \<Rightarrow> map_of m k)"
proof (induction xs arbitrary: m)
  case (Cons x xs)
  have "find (\<lambda>y. f y = f x) xs = None" using Cons.prems by (simp add: find_None_iff) (metis image_eqI)
  then show ?case using Cons by (auto split: option.split)
qed simp

lemma topoSort_correct:
  assumes d: "distinct (map zs_Name schemas)"
  shows "\<exists>out. topoSortSchemas schemas deps = Some out \<and> set out = set schemas \<and> distinct (map zs_Name out) \<and>
    deps_first deps (zs_Name ` set schemas) (map zs_Name out)"
proof -
  let ?m = "fold (\<lambda>s. AList.update (zs_Name s) s) schemas []"
  let ?st = "\<lparr>tp_color = (\<lambda>_. White), tp_out = []\<rparr>"
  have mo: "map_of ?m n = find (\<lambda>s. zs_Name s = n) schemas" for n
    using map_of_fold_update [OF d, of "\<lambda>s. s" "[]" n] by (simp split: option.splits)
  have key: "keyed ?m" by (auto simp: keyed_def mo find_Some_iff)
  have dm: "dom (map_of ?m) = zs_Name ` set schemas" by (auto simp: mo find_None_iff dom_def)
  have mem: "map_of ?m (zs_Name s) = Some s \<longleftrightarrow> s \<in> set schemas" for s
  proof
    assume "s \<in> set schemas"
    then have "zs_Name s \<in> dom (map_of ?m)" by (simp add: dm)
    then obtain t where t: "map_of ?m (zs_Name s) = Some t" by blast
    then have "t \<in> set schemas" "zs_Name t = zs_Name s" by (auto simp: mo find_Some_iff)
    with d \<open>s \<in> set schemas\<close> have "t = s" by (auto simp: distinct_map inj_on_def)
    with t show "map_of ?m (zs_Name s) = Some s" by simp
  qed (auto simp: mo find_Some_iff)
  have "card (dom (map_of ?m)) < Suc (length schemas)"
    unfolding dm by (metis card_image_le card_length finite_set le_imp_less_Suc le_trans)
  moreover have "topo_inv deps ?m ?st" by (simp add: topo_inv_def names_def coloured_def deps_first_def)
  ultimately obtain st where st: "visit_all deps ?m (Suc (length schemas)) (map zs_Name schemas) ?st = Some st"
    "topo_inv deps ?m st" "coloured Gray st = {}" "\<forall>n\<in>zs_Name ` set schemas. tp_color st n \<noteq> White"
    using visit_all_advances [OF key, of "Suc (length schemas)" "map zs_Name schemas" deps ?st] by (auto simp: dm coloured_def)
  have names: "set (names st) = zs_Name ` set schemas"
  proof
    show "set (names st) \<subseteq> zs_Name ` set schemas" using st(2) by (auto simp: topo_inv_def dm)
    have "n \<in> coloured Black st" if "n \<in> zs_Name ` set schemas" for n
      using st(3,4) that by (cases "tp_color st n") (auto simp: coloured_def)
    then show "zs_Name ` set schemas \<subseteq> set (names st)" using st(2) by (auto simp: topo_inv_def)
  qed
  have "set (tp_out st) = set schemas"
  proof
    show sub: "set (tp_out st) \<subseteq> set schemas" using st(2) by (auto simp: topo_inv_def mem)
    show "set schemas \<subseteq> set (tp_out st)"
    proof
      fix s assume s: "s \<in> set schemas"
      then obtain t where "t \<in> set (tp_out st)" "zs_Name t = zs_Name s"
        using names by (metis (no_types, lifting) image_iff list.set_map names_def imageI)
      with sub s d show "s \<in> set (tp_out st)" by (metis distinct_map inj_onD subsetD)
    qed
  qed
  then show ?thesis
    using st(1,2) by (auto simp: topoSortSchemas_def topo_inv_def names_def dm Let_def)
qed

section \<open>Schemas of a file\<close>

record iface =
  if_Name :: string
  if_Fields :: "field_data list"

definition has_schema :: "iface \<Rightarrow> bool" where
  "has_schema i \<longleftrightarrow> list_ex (\<lambda>f. fd_ValidateTag f \<noteq> []) (if_Fields i)"

definition knownSchemas :: "iface list \<Rightarrow> string list" where
  "knownSchemas ifs = map if_Name (filter has_schema ifs)"

definition schema_deps :: "string list \<Rightarrow> iface \<Rightarrow> string list" where
  "schema_deps known i =
     fold (\<lambda>f acc. let n = fd_ElemTypeName f
                   in if n \<noteq> [] \<and> n \<in> set known \<and> n \<notin> set acc then acc @ [n] else acc) (if_Fields i) []"

definition zod_deps :: "iface list \<Rightarrow> deps" where
  "zod_deps ifs =
     (let known = knownSchemas ifs
      in fold (\<lambda>i. AList.update (if_Name i) (schema_deps known i)) (filter (\<lambda>i. if_Name i \<in> set known) ifs) [])"

definition mark_lazy :: "string list \<Rightarrow> deps \<Rightarrow> string \<Rightarrow> field_data \<Rightarrow> field_data" where
  "mark_lazy known deps owner f =
     (if fd_ElemTypeName f \<noteq> [] \<and> fd_ElemTypeName f \<in> set known \<and> depReaches deps (fd_ElemTypeName f) owner
      then f\<lparr>fd_ElemLazy := True\<rparr> else f)"

definition build_schema :: "gen_env \<Rightarrow> string list \<Rightarrow> deps \<Rightarrow> iface \<Rightarrow> zod_schema" where
  "build_schema e known deps i =
     \<lparr>zs_Name = if_Name i,
      zs_Fields = map (\<lambda>f. (fd_Name f, fieldToZod e known (mark_lazy known deps (if_Name i) f))) (if_Fields i)\<rparr>"

definition buildZodSchemas :: "gen_env \<Rightarrow> iface list \<Rightarrow> zod_schema list option" where
  "buildZodSchemas e ifs =
     (let known = knownSchemas ifs; deps = zod_deps ifs
      in topoSortSchemas (map (build_schema e known deps) (filter (\<lambda>i. if_Name i \<in> set known) ifs)) deps)"

lemma set_schema_deps:
  "set (schema_deps known i) = {n. n \<noteq> [] \<and> n \<in> set known \<and> n \<in> fd_ElemTypeName ` set (if_Fields i)}"
proof -
  have "set (fold (\<lambda>f acc. let n = fd_ElemTypeName f
       in if n \<noteq> [] \<and> n \<in> set known \<and> n \<notin> set acc then acc @ [n] else acc) fs acc) =
     set acc \<union> {n. n \<noteq> [] \<and> n \<in> set known \<and> n \<in> fd_ElemTypeName ` set fs}" for fs :: "field_data list" and acc
    by (induction fs arbitrary: acc) (auto simp: Let_def)
  then show ?thesis by (simp add: schema_deps_def)
qed

text \<open>With distinct names the filter on the names is the filter on the tags.\<close>

lemma known_filter:
  assumes "distinct (map if_Name ifs)"
  shows "filter (\<lambda>i. if_Name i \<in> set (knownSchemas ifs)) ifs = filter has_schema ifs"
proof (rule filter_cong)
  show "if_Name i \<in> set (knownSchemas ifs) \<longleftrightarrow> has_schema i" if "i \<in> set ifs" for i
    using assms that by (auto simp: knownSchemas_def distinct_map inj_on_def)
qed simp

lemma zod_deps_of:
  assumes "distinct (map if_Name ifs)" "i \<in> set ifs" "has_schema i"
  shows "deps_of (zod_deps ifs) (if_Name i) = schema_deps (knownSchemas ifs) i"
proof -
  let ?fs = "filter has_schema ifs"
  have d: "distinct (map if_Name ?fs)" using assms(1) by (simp add: distinct_map_filter)
  have "find (\<lambda>j. if_Name j = if_Name i) ?fs = Some i"
  proof -
    obtain j where j: "find (\<lambda>j. if_Name j = if_Name i) ?fs = Some j"
      using assms(2,3) by (cases "find (\<lambda>j. if_Name j = if_Name i) ?fs") (auto simp: find_None_iff)
    then have "j \<in> set ?fs" "if_Name j = if_Name i" by (auto simp: find_Some_iff nth_mem [of _ ?fs, simplified])
    with d assms(2,3) have "j = i" by (auto simp: distinct_map inj_on_def)
    with j show ?thesis by simp
  qed
  with map_of_fold_update [OF d, of "schema_deps (knownSchemas ifs)" "[]" "if_Name i"] show ?thesis
    by (simp add: zod_deps_def Let_def known_filter [OF assms(1)] deps_of_def)
qed

lemma zod_deps_known:
  assumes "distinct (map if_Name ifs)"
  shows "known_edges (zod_deps ifs) (set (knownSchemas ifs)) = edges (zod_deps ifs)"
proof -
  have "set (deps_of (zod_deps ifs) a) \<subseteq> set (knownSchemas ifs)" for a
  proof (cases "find (\<lambda>j. if_Name j = a) (filter has_schema ifs)")
    case None
    have d: "distinct (map if_Name (filter has_schema ifs))" using assms by (simp add: distinct_map_filter)
    have "deps_of (zod_deps ifs) a = []"
      using map_of_fold_update [OF d, of "schema_deps (knownSchemas ifs)" "[]" a] None
      by (simp add: zod_deps_def Let_def known_filter [OF assms] deps_of_def)
    then show ?thesis by simp
  next
    case (Some j)
    then have j: "j \<in> set ifs" "has_schema j" "if_Name j = a"
      by (auto simp: find_Some_iff dest!: nth_mem [of _ "filter has_schema ifs"])
    show ?thesis using zod_deps_of [OF assms j(1,2)] by (auto simp: j(3) set_schema_deps)
  qed
  then show ?thesis by (auto simp: known_edges_def edges_def)
qed

section \<open>Properties\<close>

text \<open>Every mention of a schema in the field \<open>f\<close> of the \<open>k\<close>-th schema is lazy or finds it declared.\<close>

definition mention_ok :: "iface list \<Rightarrow> zod_schema list \<Rightarrow> nat \<Rightarrow> iface \<Rightarrow> field_data \<Rightarrow> bool" where
  "mention_ok ifs out k i f \<longleftrightarrow>
     fd_ElemTypeName f = [] \<or> fd_ElemTypeName f \<notin> set (knownSchemas ifs) \<or>
     (if depReaches (zod_deps ifs) (fd_ElemTypeName f) (if_Name i)
      then fd_ElemLazy (mark_lazy (knownSchemas ifs) (zod_deps ifs) (if_Name i) f)
      else fd_ElemTypeName f \<in> set (take k (map zs_Name out)))"

definition declared_in_order :: "gen_env \<Rightarrow> iface list \<Rightarrow> zod_schema list \<Rightarrow> bool" where
  "declared_in_order e ifs out \<longleftrightarrow>
     (\<forall>k<length out. \<forall>i\<in>set ifs. if_Name i = zs_Name (out ! k) \<longrightarrow>
        out ! k = build_schema e (knownSchemas ifs) (zod_deps ifs) i \<and> (\<forall>f\<in>set (if_Fields i). mention_ok ifs out k i f))"

text \<open>
  The cycle test is exact: \<open>depReaches\<close> ends on every graph and says that there is a non-empty path.
\<close>

theorem depReaches_exact: "depReaches deps src to \<longleftrightarrow> (src, to) \<in> {(a, d). d \<in> set (deps_of deps a)}\<^sup>+"
  using depReaches_iff [of deps src to] by (simp add: edges_def)


definition field0 :: "string \<Rightarrow> string \<Rightarrow> string \<Rightarrow> field_data" where
  "field0 name kind el = \<lparr>fd_Name = name, fd_Type = [], fd_Optional = False, fd_GoType = kind, fd_ValidateTag = ''required'',
     fd_SQLNullKind = [], fd_ElemGoKind = (if el = [] then [] else ''struct''), fd_ElemTypeName = el, fd_ArrayLen = 0,
     fd_Enum = None, fd_ElemEnum = None, fd_Nullable = False, fd_ElemLazy = False\<rparr>"

definition order_if :: iface where
  "order_if = \<lparr>if_Name = ''Order'', if_Fields = [field0 ''lines'' ''slice'' ''Line'']\<rparr>"

definition line_if :: iface where
  "line_if = \<lparr>if_Name = ''Line'', if_Fields = [field0 ''sku'' ''string'' []]\<rparr>"

lemma example_known: "knownSchemas [order_if, line_if] = [''Order'', ''Line'']"
  by (simp add: knownSchemas_def has_schema_def order_if_def line_if_def field0_def)

lemma example_deps: "zod_deps [order_if, line_if] = [(''Order'', [''Line'']), (''Line'', [])]"
  by (simp add: zod_deps_def example_known schema_deps_def Let_def) (simp add: order_if_def line_if_def field0_def)


end
