(* ===== verification/Aprot_Generate.thy ===== *)
theory Aprot_Generate
  imports Aprot_Zod
begin

text \<open>
  The files of the generated TypeScript client (\<open>generate.go\<close>): which types and enums a handler group
  uses, which of them are shared and move to a file of their package, and what each file imports. A
  file is given by the type names it declares, the type expressions in it and its imports.
\<close>

section \<open>Type names in type expressions\<close>

text \<open>\<open>strings.Index\<close>.\<close>

definition Index :: "string \<Rightarrow> string \<Rightarrow> nat option" where
  "Index s sub = find (\<lambda>i. prefix sub (drop i s)) [0..<Suc (length s)]"

text \<open>
  The loop of \<open>containsTypeName\<close> from index \<open>idx\<close>. An index past the end is a slice out of range, which
  only an empty name leads to.
\<close>

function contains_from :: "string \<Rightarrow> string \<Rightarrow> nat \<Rightarrow> bool" where
  "contains_from typeStr name idx =
     (if idx > length typeStr then False
      else case Index (drop idx typeStr) name of
             None \<Rightarrow> False
           | Some i \<Rightarrow>
               let start = idx + i; stop = start + length name;
                   startOk = (start = 0 \<or> \<not> isIdentChar (typeStr ! (start - 1)));
                   endOk = (stop = length typeStr \<or> \<not> isIdentChar (typeStr ! stop))
               in if startOk \<and> endOk then True else contains_from typeStr name (start + 1))"
  by pat_completeness auto
termination by (relation "measure (\<lambda>(s, n, i). Suc (length s) - i)") auto

declare contains_from.simps [simp del]

definition containsTypeName :: "string \<Rightarrow> string \<Rightarrow> bool" where
  "containsTypeName typeStr name = contains_from typeStr name 0"

text \<open>The reference: an occurrence that is no part of a longer identifier.\<close>

definition delimited :: "string \<Rightarrow> string \<Rightarrow> bool" where
  "delimited n s \<longleftrightarrow> (\<exists>p q. s = p @ n @ q \<and> (p = [] \<or> \<not> isIdentChar (last p)) \<and> (q = [] \<or> \<not> isIdentChar (hd q)))"

definition occurs_at :: "string \<Rightarrow> string \<Rightarrow> nat \<Rightarrow> bool" where
  "occurs_at n s k \<longleftrightarrow> k \<le> length s \<and> prefix n (drop k s) \<and> (k = 0 \<or> \<not> isIdentChar (s ! (k - 1))) \<and>
     (k + length n = length s \<or> \<not> isIdentChar (s ! (k + length n)))"

lemma delimited_iff: "n \<noteq> [] \<Longrightarrow> delimited n s \<longleftrightarrow> (\<exists>k. occurs_at n s k)"
proof
  assume "delimited n s"
  then obtain p q where s: "s = p @ n @ q" "p = [] \<or> \<not> isIdentChar (last p)" "q = [] \<or> \<not> isIdentChar (hd q)"
    by (auto simp: delimited_def)
  have "occurs_at n s (length p)"
    using s by (cases p rule: rev_cases; cases q) (auto simp: occurs_at_def nth_append)
  then show "\<exists>k. occurs_at n s k" ..
next
  assume "n \<noteq> []" "\<exists>k. occurs_at n s k"
  then obtain k q where k: "occurs_at n s k" "drop k s = n @ q" by (auto simp: occurs_at_def prefix_def)
  have s: "s = take k s @ n @ q" using k(2) by (metis append_take_drop_id)
  have len: "length (take k s) = k" using k(1) by (simp add: occurs_at_def)
  have "take k s = [] \<or> \<not> isIdentChar (last (take k s))"
    using k(1) by (cases k) (auto simp: occurs_at_def last_conv_nth)
  moreover have "q = [] \<or> \<not> isIdentChar (hd q)"
  proof (cases q)
    case (Cons c r)
    have "k \<le> length s" using k(1) by (simp add: occurs_at_def)
    then have "s ! (k + length n) = drop k s ! length n" by (simp add: nth_drop)
    then have "s ! (k + length n) = c" by (simp add: k(2) Cons)
    moreover have "length s = k + length n + Suc (length r)" using s len Cons by (metis length_append length_Cons add.assoc)
    ultimately show ?thesis using k(1) Cons by (auto simp: occurs_at_def)
  qed simp
  ultimately show "delimited n s" using s unfolding delimited_def by blast
qed

lemma Index_Some:
  assumes "Index s sub = Some i"
  shows "i \<le> length s \<and> prefix sub (drop i s) \<and> (\<forall>j<i. \<not> prefix sub (drop j s))"
  using assms by (auto simp: Index_def find_Some_iff nth_append less_Suc_eq_le simp del: upt_Suc)

lemma Index_None: "Index s sub = None \<Longrightarrow> j \<le> length s \<Longrightarrow> \<not> prefix sub (drop j s)"
  by (auto simp: Index_def find_None_iff simp del: upt_Suc)

lemma contains_from_iff:
  "n \<noteq> [] \<Longrightarrow> contains_from s n idx \<longleftrightarrow> (\<exists>k\<ge>idx. occurs_at n s k)"
proof (induction s n idx rule: contains_from.induct)
  case (1 s n idx)
  show ?case
  proof (cases "idx > length s")
    case True
    then show ?thesis by (subst contains_from.simps) (auto simp: occurs_at_def)
  next
    case False
    show ?thesis
    proof (cases "Index (drop idx s) n")
      case None
      have "\<not> occurs_at n s k" if "k \<ge> idx" for k
        using Index_None [OF None, of "k - idx"] that by (auto simp: occurs_at_def diff_le_mono)
      then show ?thesis using None False by (subst contains_from.simps) auto
    next
      case (Some i)
      note i = Index_Some [OF Some]
      have before: "\<not> occurs_at n s k" if "idx \<le> k" "k < idx + i" for k
      proof -
        have "k - idx < i" using that by simp
        then have "\<not> prefix n (drop (k - idx) (drop idx s))" using i by blast
        then show ?thesis using that by (simp add: occurs_at_def)
      qed
      have here: "occurs_at n s (idx + i) \<longleftrightarrow>
          (idx + i = 0 \<or> \<not> isIdentChar (s ! (idx + i - 1))) \<and>
          (idx + i + length n = length s \<or> \<not> isIdentChar (s ! (idx + i + length n)))"
        using i False by (auto simp: occurs_at_def add.commute)
      show ?thesis
      proof (cases "occurs_at n s (idx + i)")
        case True
        then have "contains_from s n idx" using here Some False by (subst contains_from.simps) (auto simp: Let_def)
        then show ?thesis using True le_add1 by blast
      next
        case no: False
        have "contains_from s n idx \<longleftrightarrow> contains_from s n (idx + i + 1)"
          using here no Some False by (subst contains_from.simps) (auto simp: Let_def)
        also have "\<dots> \<longleftrightarrow> (\<exists>k\<ge>idx + i + 1. occurs_at n s k)"
          using 1(1) [OF _ Some refl refl refl refl] 1(2) False here no by auto
        also have "\<dots> \<longleftrightarrow> (\<exists>k\<ge>idx. occurs_at n s k)"
          using before no by (metis Suc_eq_plus1 Suc_leI le_add1 le_neq_implies_less le_trans not_less)
        finally show ?thesis .
      qed
    qed
  qed
qed

lemma containsTypeName_iff: "n \<noteq> [] \<Longrightarrow> containsTypeName s n \<longleftrightarrow> delimited n s"
  by (simp add: containsTypeName_def contains_from_iff delimited_iff)

lemma delimited_self: "delimited n n"
  unfolding delimited_def by (metis append_Nil append_Nil2)

lemma delimited_context:
  assumes "delimited n s" "a = [] \<or> \<not> isIdentChar (last a)" "b = [] \<or> \<not> isIdentChar (hd b)"
  shows "delimited n (a @ s @ b)"
proof -
  obtain p q where s: "s = p @ n @ q" "p = [] \<or> \<not> isIdentChar (last p)" "q = [] \<or> \<not> isIdentChar (hd q)"
    using assms(1) by (auto simp: delimited_def)
  have "a @ s @ b = (a @ p) @ n @ (q @ b)" by (simp add: s(1))
  moreover have "a @ p = [] \<or> \<not> isIdentChar (last (a @ p))" using s(2) assms(2) by (cases "p = []") auto
  moreover have "q @ b = [] \<or> \<not> isIdentChar (hd (q @ b))" using s(3) assms(3) by (cases q) auto
  ultimately show ?thesis unfolding delimited_def by blast
qed

lemma delimited_right: "delimited n s \<Longrightarrow> b = [] \<or> \<not> isIdentChar (hd b) \<Longrightarrow> delimited n (s @ b)"
  using delimited_context [of n s "[]" b] by simp

lemma ident_marks [simp]:
  "\<not> isIdentChar CHR ''<''" "\<not> isIdentChar CHR ''>''" "\<not> isIdentChar CHR ''(''" "\<not> isIdentChar CHR '')''"
  "\<not> isIdentChar CHR ''[''" "\<not> isIdentChar CHR '']''" "\<not> isIdentChar CHR '',''" "\<not> isIdentChar CHR '' ''"
  by (simp_all add: isIdentChar_def is_letter_def is_digit_def in_range_def byte_def)

lemma delimited_array: "delimited n s \<Longrightarrow> delimited n (array_of s)"
  using delimited_context [of n s "''(''" "'')[]''"] delimited_right [of n s "''[]''"] by (simp add: array_of_def)

lemma delimited_tuple:
  assumes "delimited n s" "k \<noteq> 0"
  shows "delimited n (tsTupleOrArray s k)"
proof -
  obtain b where j: "join '', '' (replicate k s) = s @ b" "b = [] \<or> hd b = CHR '',''"
    using assms(2) by (cases "(k, replicate k s)" rule: prod.exhaust; cases k; cases "replicate (k - 1) s") auto
  have "b @ '']'' = [] \<or> \<not> isIdentChar (hd (b @ '']''))" using j(2) by (cases b) auto
  from delimited_context [OF assms(1) _ this, of "''[''"] show ?thesis
    using delimited_array [OF assms(1)] by (simp add: tsTupleOrArray_def j(1))
qed

section \<open>Names a type expression mentions\<close>

text \<open>The types whose expression is a name that some file has to declare.\<close>

definition named_ref :: "gen_env \<Rightarrow> (rtype \<Rightarrow> enum_info option) \<Rightarrow> rtype \<Rightarrow> bool" where
  "named_ref e c t \<longleftrightarrow> ge_enum e t \<noteq> None \<or> c t \<noteq> None \<or>
     (\<not> hasMarshalOverride e c t \<and> \<not> is_raw_json t \<and> t \<noteq> blobType \<and> is_struct_kind t \<and> PkgPath t \<noteq> [])"

function mentions :: "gen_env \<Rightarrow> (rtype \<Rightarrow> enum_info option) \<Rightarrow> rtype \<Rightarrow> string list" where
  "mentions e c t =
     (case ts_shape e c t of
        Fixed s \<Rightarrow> if named_ref e c t then [s] else []
      | ArrayOf u \<Rightarrow> mentions e c u
      | TupleOf k u \<Rightarrow> if k = 0 then [] else mentions e c u
      | RecordOf k u \<Rightarrow> mentions e c k @ mentions e c u
      | BoolRecordOf u \<Rightarrow> mentions e c u
      | NullOf u \<Rightarrow> mentions e c u
      | Same u \<Rightarrow> mentions e c u)"
  by pat_completeness auto
termination
  by (relation "measure (\<lambda>(e, c, t). size t)") (auto intro: ts_shape_size)

declare mentions.simps [simp del]

lemma mentions_in_text: "n \<in> set (mentions e c t) \<Longrightarrow> delimited n (goTypeToTS e c t)"
proof (induction e c t rule: mentions.induct)
  case (1 e c t)
  note eqs = mentions.simps [of e c t] goTypeToTS.simps [of e c t]
  show ?case
  proof (cases "ts_shape e c t")
    case (Fixed s)
    then show ?thesis using 1(8) by (simp add: eqs delimited_self split: if_splits)
  next
    case (ArrayOf u)
    then show ?thesis using 1(1) [OF ArrayOf] 1(8) by (simp add: eqs delimited_array)
  next
    case (TupleOf k u)
    then show ?thesis using 1(2) [OF TupleOf] 1(8) by (auto simp: eqs intro: delimited_tuple split: if_splits)
  next
    case (RecordOf k u)
    have "delimited n (goTypeToTS e c k) \<or> delimited n (goTypeToTS e c u)"
      using 1(3,4) [OF RecordOf] 1(8) RecordOf by (auto simp: eqs)
    then show ?thesis
      using delimited_context [of n "goTypeToTS e c k" "''Record<''" "'', '' @ goTypeToTS e c u @ ''>''"]
        delimited_context [of n "goTypeToTS e c u" "''Record<'' @ goTypeToTS e c k @ '', ''" "''>''"]
      by (auto simp: eqs RecordOf)
  next
    case (BoolRecordOf u)
    then have "delimited n (goTypeToTS e c u)" using 1(5) [OF BoolRecordOf] 1(8) by (simp add: eqs)
    from delimited_context [OF this, of "''Partial<Record<\"true\" | \"false\", ''" "''>>''"] show ?thesis
      by (simp add: eqs BoolRecordOf)
  next
    case (NullOf u)
    then show ?thesis using 1(6) [OF NullOf] 1(8) by (simp add: eqs delimited_right)
  next
    case (Same u)
    then show ?thesis using 1(7) [OF Same] 1(8) by (simp add: eqs)
  qed
qed

section \<open>Collecting the types of a group\<close>

record gstate =
  gs_types :: "rtype list"
  gs_enums :: "rtype list"

definition voidResponseType :: rtype where
  "voidResponseType = RStruct (''github.com/marrasen/aprot'', ''voidResponse'')"

definition no_enums :: "rtype \<Rightarrow> enum_info option" where
  "no_enums = (\<lambda>_. None)"

definition add_enum :: "gen_env \<Rightarrow> rtype \<Rightarrow> gstate \<Rightarrow> gstate" where
  "add_enum e t st = (if ge_enum e t \<noteq> None then st\<lparr>gs_enums := List.insert t (gs_enums st)\<rparr> else st)"

text \<open>The types the loop of \<open>collectType\<close> goes on with: those of the fields, embedded structs flattened once.\<close>

definition collectible :: "gen_env \<Rightarrow> rtype \<Rightarrow> bool" where
  "collectible e t \<longleftrightarrow> PkgPath t \<noteq> [] \<and> \<not> hasMarshalOverride e no_enums t"

definition field_targets :: "gen_env \<Rightarrow> rtype \<Rightarrow> rfield \<Rightarrow> rtype list" where
  "field_targets e t f =
     (if \<not> wire_field f then []
      else if rf_anonymous f
      then (case embeds f of
              Some u \<Rightarrow> if collectible e u then map (effectiveFieldType e u) (filter wire_field (fields_of e u)) else []
            | None \<Rightarrow> [])
      else [effectiveFieldType e t f])"

definition collect_targets :: "gen_env \<Rightarrow> rtype \<Rightarrow> rtype list" where
  "collect_targets e t = concat (map (field_targets e t) (fields_of e t))"

text \<open>
  \<open>collectType\<close> and \<open>collectNestedType\<close>, and a loop over the latter. The number bounds the nesting of
  the calls; \<open>None\<close> is a walk that exceeds it.
\<close>

fun collectNestedType :: "gen_env \<Rightarrow> nat \<Rightarrow> rtype \<Rightarrow> gstate \<Rightarrow> gstate option"
  and collectType :: "gen_env \<Rightarrow> nat \<Rightarrow> rtype \<Rightarrow> gstate \<Rightarrow> gstate option"
  and collect_list :: "gen_env \<Rightarrow> nat \<Rightarrow> rtype list \<Rightarrow> gstate \<Rightarrow> gstate option" where
  "collectNestedType e 0 t st = None"
| "collectNestedType e (Suc k) t st =
     (let u = unptr t; st1 = add_enum e u st
      in if is_struct_kind u then (if collectible e u then collectType e k u st1 else Some st1)
         else case elem_type u of Some v \<Rightarrow> collectNestedType e k v st1 | None \<Rightarrow> Some st1)"
| "collectType e 0 t st = None"
| "collectType e (Suc k) t st =
     (if t = voidResponseType \<or> t = blobType \<or> t \<in> set (gs_types st) then Some st
      else collect_list e k (collect_targets e t) (st\<lparr>gs_types := t # gs_types st\<rparr>))"
| "collect_list e k [] st = Some st"
| "collect_list e k (t # ts) st =
     (case collectNestedType e k t st of None \<Rightarrow> None | Some st' \<Rightarrow> collect_list e k ts st')"

subsection \<open>What a collection contains\<close>

definition skipped :: "rtype \<Rightarrow> bool" where
  "skipped t \<longleftrightarrow> t = voidResponseType \<or> t = blobType"

text \<open>Nothing is missing for a type: its enum, its struct type, and those of its elements.\<close>

function done_type :: "gen_env \<Rightarrow> gstate \<Rightarrow> rtype \<Rightarrow> bool" where
  "done_type e st t \<longleftrightarrow>
     (ge_enum e (unptr t) \<noteq> None \<longrightarrow> unptr t \<in> set (gs_enums st)) \<and>
     (if is_struct_kind (unptr t) then collectible e (unptr t) \<and> \<not> skipped (unptr t) \<longrightarrow> unptr t \<in> set (gs_types st)
      else case elem_type (unptr t) of Some v \<Rightarrow> done_type e st v | None \<Rightarrow> True)"
  by pat_completeness auto
termination
proof (relation "measure (\<lambda>(e, st, t). size t)", goal_cases)
  case (2 e st t v)
  have "size v < size (unptr t)" using 2(2) by (cases "unptr t") auto
  also have "size (unptr t) \<le> size t" by (cases t) auto
  finally show ?case by simp
qed simp

declare done_type.simps [simp del]

definition extends :: "gstate \<Rightarrow> gstate \<Rightarrow> bool" where
  "extends st st' \<longleftrightarrow> set (gs_types st) \<subseteq> set (gs_types st') \<and> set (gs_enums st) \<subseteq> set (gs_enums st')"

lemma extends_refl [simp]: "extends st st"
  by (simp add: extends_def)

lemma extends_trans: "extends a b \<Longrightarrow> extends b c \<Longrightarrow> extends a c"
  by (auto simp: extends_def)

lemma done_type_mono: "done_type e st t \<Longrightarrow> extends st st' \<Longrightarrow> done_type e st' t"
proof (induction e st t rule: done_type.induct)
  case (1 e st t)
  then show ?case
    unfolding done_type.simps [of e st t] done_type.simps [of e st' t]
    by (auto simp: extends_def split: option.splits if_splits)
qed

text \<open>The types that a call added have nothing missing.\<close>

definition closes :: "gen_env \<Rightarrow> gstate \<Rightarrow> gstate \<Rightarrow> bool" where
  "closes e st st' \<longleftrightarrow> extends st st' \<and>
     (\<forall>t\<in>set (gs_types st') - set (gs_types st). \<forall>u\<in>set (collect_targets e t). done_type e st' u)"

lemma closes_refl [simp]: "closes e st st"
  by (simp add: closes_def)

lemma closes_trans:
  assumes "closes e a b" "closes e b c"
  shows "closes e a c"
proof -
  have "done_type e c u" if "t \<in> set (gs_types c) - set (gs_types a)" "u \<in> set (collect_targets e t)" for t u
  proof (cases "t \<in> set (gs_types b)")
    case True
    then show ?thesis using assms that done_type_mono unfolding closes_def by blast
  next
    case False
    then show ?thesis using assms that unfolding closes_def by blast
  qed
  then show ?thesis using assms extends_trans unfolding closes_def by blast
qed

lemma closes_add_enum: "closes e st (add_enum e t st)"
  by (auto simp: closes_def extends_def add_enum_def)

lemma collect_closes:
  "collectNestedType e k t st = Some st' \<Longrightarrow> closes e st st' \<and> done_type e st' t"
  "collectType e k t st = Some st' \<Longrightarrow> closes e st st' \<and> (skipped t \<or> t \<in> set (gs_types st'))"
  "collect_list e k ts st = Some st' \<Longrightarrow> closes e st st' \<and> (\<forall>t\<in>set ts. done_type e st' t)"
proof (induction e k t st and e k t st and e k ts st arbitrary: st' and st' and st'
    rule: collectNestedType_collectType_collect_list.induct)
  case (2 e k t st)
  let ?u = "unptr t" and ?st = "add_enum e (unptr t) st"
  have en: "extends ?st s \<Longrightarrow> ge_enum e ?u \<noteq> None \<Longrightarrow> ?u \<in> set (gs_enums s)" for s
    by (auto simp: extends_def add_enum_def)
  have extends: "closes e ?st s \<Longrightarrow> ge_enum e ?u \<noteq> None \<Longrightarrow> ?u \<in> set (gs_enums s)" for s
    using en by (simp add: closes_def)
  consider (struct) "is_struct_kind ?u" "collectible e ?u" | (plain) "is_struct_kind ?u" "\<not> collectible e ?u"
    | (elem) v where "\<not> is_struct_kind ?u" "elem_type ?u = Some v" | (leaf) "\<not> is_struct_kind ?u" "elem_type ?u = None"
    by blast
  then show ?case
  proof cases
    case struct
    then have c: "closes e ?st st'" "skipped ?u \<or> ?u \<in> set (gs_types st')"
      using 2(1) [OF refl refl, of st'] 2(3) by (simp_all add: Let_def)
    show ?thesis using closes_trans [OF closes_add_enum c(1)] extends [OF c(1)] c(2) struct
      by (auto simp: done_type.simps [of e st' t])
  next
    case plain
    then have "st' = ?st" using 2(3) by (simp add: Let_def)
    then show ?thesis using closes_add_enum en [of ?st] plain by (simp add: done_type.simps [of e ?st t])
  next
    case elem
    then have c: "closes e ?st st'" "done_type e st' v"
      using 2(2) [OF refl refl, of v st'] 2(3) by (simp_all add: Let_def)
    show ?thesis using closes_trans [OF closes_add_enum c(1)] extends [OF c(1)] c(2) elem
      by (simp add: done_type.simps [of e st' t])
  next
    case leaf
    then have "st' = ?st" using 2(3) by (simp add: Let_def)
    then show ?thesis using closes_add_enum en [of ?st] leaf by (simp add: done_type.simps [of e ?st t])
  qed
next
  case (4 e k t st)
  show ?case
  proof (cases "t = voidResponseType \<or> t = blobType \<or> t \<in> set (gs_types st)")
    case False
    let ?st = "st\<lparr>gs_types := t # gs_types st\<rparr>"
    have ih: "closes e ?st st'" "\<forall>u\<in>set (collect_targets e t). done_type e st' u" using 4 False by auto
    then have "closes e st st'" by (auto simp: closes_def extends_def)
    then show ?thesis using ih(1) by (auto simp: closes_def extends_def)
  qed (use 4 in \<open>auto simp: skipped_def\<close>)
next
  case (6 e k t ts st)
  then obtain st1 where st1: "collectNestedType e k t st = Some st1" "collect_list e k ts st1 = Some st'"
    by (auto split: option.splits)
  then have "closes e st st1" "done_type e st1 t" "closes e st1 st'" "\<forall>t\<in>set ts. done_type e st' t"
    using 6 by auto
  then show ?case using closes_trans done_type_mono by (auto simp: closes_def [of e st1])
qed simp_all

subsection \<open>The collection ends\<close>

text \<open>
  A finite set of struct types closed under what \<open>collectType\<close> goes on with, and a bound on the size
  of the type expressions in their fields.
\<close>

function struct_parts :: "rtype \<Rightarrow> rtype list" where
  "struct_parts t =
     (if is_struct_kind (unptr t) then [unptr t]
      else case elem_type (unptr t) of Some v \<Rightarrow> struct_parts v | None \<Rightarrow> [])"
  by pat_completeness auto
termination
proof (relation "measure size", goal_cases)
  case (2 t v)
  have "size v < size (unptr t)" using 2(2) by (cases "unptr t") auto
  also have "size (unptr t) \<le> size t" by (cases t) auto
  finally show ?case by simp
qed simp

declare struct_parts.simps [simp del]

definition universe :: "gen_env \<Rightarrow> rtype set \<Rightarrow> nat \<Rightarrow> bool" where
  "universe e U m \<longleftrightarrow> finite U \<and>
     (\<forall>t\<in>U. \<forall>u\<in>set (collect_targets e t). size u \<le> m \<and> set (struct_parts u) \<subseteq> U)"

definition room :: "rtype set \<Rightarrow> nat \<Rightarrow> gstate \<Rightarrow> nat" where
  "room U m st = card (U - set (gs_types st)) * (m + 2)"

lemma room_mono: "finite U \<Longrightarrow> extends st st' \<Longrightarrow> room U m st' \<le> room U m st"
  unfolding room_def extends_def by (intro mult_le_mono1 card_mono) auto

lemma room_add_enum: "room U m (add_enum e t st) = room U m st"
  by (simp add: room_def add_enum_def)

lemma room_insert:
  assumes "finite U" "t \<in> U" "t \<notin> set (gs_types st)"
  shows "room U m (st\<lparr>gs_types := t # gs_types st\<rparr>) + (m + 2) = room U m st"
proof -
  have "U - set (t # gs_types st) = (U - set (gs_types st)) - {t}" by auto
  moreover have "card (U - set (gs_types st)) = Suc (card ((U - set (gs_types st)) - {t}))"
    using assms by (intro card.remove) auto
  ultimately show ?thesis by (simp add: room_def)
qed

lemma collect_ends:
  "universe e U m \<Longrightarrow> set (struct_parts t) \<subseteq> U \<Longrightarrow> Suc (size t + room U m st) < k \<Longrightarrow> collectNestedType e k t st \<noteq> None"
  "universe e U m \<Longrightarrow> t \<in> U \<Longrightarrow> room U m st < k \<Longrightarrow> collectType e k t st \<noteq> None"
  "universe e U m \<Longrightarrow> \<forall>t\<in>set ts. size t \<le> m \<and> set (struct_parts t) \<subseteq> U \<Longrightarrow> Suc (m + room U m st) < k \<Longrightarrow>
     collect_list e k ts st \<noteq> None"
proof (induction e k t st and e k t st and e k ts st rule: collectNestedType_collectType_collect_list.induct)
  case (2 e k t st)
  show ?case
  proof (cases "is_struct_kind (unptr t)")
    case True
    then have "unptr t \<in> U" using 2(4) by (subst (asm) struct_parts.simps) simp
    then show ?thesis using 2(1) [OF refl refl True _ 2(3)] 2(5) True by (auto simp: Let_def room_add_enum)
  next
    case False
    show ?thesis
    proof (cases "elem_type (unptr t)")
      case (Some v)
      have "size v < size (unptr t)" using Some by (cases "unptr t") auto
      moreover have "size (unptr t) \<le> size t" by (cases t) auto
      moreover have "set (struct_parts v) \<subseteq> U" using 2(4) False Some by (subst (asm) struct_parts.simps) simp
      ultimately show ?thesis using 2(2) [OF refl refl False Some 2(3)] 2(5) False Some by (auto simp: Let_def room_add_enum)
    qed (use False in \<open>simp add: Let_def\<close>)
  qed
next
  case (4 e k t st)
  show ?case
  proof (cases "t = voidResponseType \<or> t = blobType \<or> t \<in> set (gs_types st)")
    case False
    have "finite U" using 4(2) by (simp add: universe_def)
    then have "Suc (m + room U m (st\<lparr>gs_types := t # gs_types st\<rparr>)) < k"
      using room_insert [of U t st m] 4(3,4) False by simp
    moreover have "\<forall>u\<in>set (collect_targets e t). size u \<le> m \<and> set (struct_parts u) \<subseteq> U"
      using 4(2,3) by (simp add: universe_def)
    ultimately show ?thesis using 4(1) [OF False 4(2)] False by simp
  qed simp
next
  case (6 e k t ts st)
  have fin: "finite U" using 6(3) by (simp add: universe_def)
  have "collectNestedType e k t st \<noteq> None"
    using 6(1) [OF 6(3)] 6(4,5) by (simp add: less_le_trans le_less_trans add_mono)
  then obtain st1 where st1: "collectNestedType e k t st = Some st1" by blast
  then have "room U m st1 \<le> room U m st"
    using collect_closes(1) [OF st1] fin by (auto simp: closes_def intro: room_mono)
  then show ?case using 6(2) [OF st1 6(3)] 6(4,5) st1 by simp
qed simp_all

subsection \<open>A collection covers what is mentioned\<close>

definition type_names :: "gstate \<Rightarrow> string list" where
  "type_names st = map (sanitizeTSIdent \<circ> TypeName) (gs_types st)"

definition enum_ts :: "gen_env \<Rightarrow> rtype \<Rightarrow> string" where
  "enum_ts e t = (case ge_enum e t of Some info \<Rightarrow> e_Name info @ ''Type'' | None \<Rightarrow> [])"

definition enum_names :: "gen_env \<Rightarrow> gstate \<Rightarrow> string list" where
  "enum_names e st = map (enum_ts e) (filter (\<lambda>t. ge_enum e t \<noteq> None) (gs_enums st))"

definition ts_names :: "gen_env \<Rightarrow> gstate \<Rightarrow> string set" where
  "ts_names e st = set (type_names st) \<union> set (enum_names e st)"

text \<open>
  The type expressions the collection looks into completely: no names in the keys of maps or in the
  argument of \<open>sql.Null\<close>, no pointers to pointers, and no name without a letter.
\<close>

function tame :: "gen_env \<Rightarrow> (rtype \<Rightarrow> enum_info option) \<Rightarrow> rtype \<Rightarrow> bool" where
  "tame e c t =
     (case ts_shape e c t of
        Fixed s \<Rightarrow> t \<noteq> voidResponseType \<and> s \<noteq> []
      | ArrayOf u \<Rightarrow> tame e c u
      | TupleOf k u \<Rightarrow> tame e c u
      | RecordOf k u \<Rightarrow> mentions e c k = [] \<and> tame e c u
      | BoolRecordOf u \<Rightarrow> tame e c u
      | NullOf u \<Rightarrow> mentions e c u = []
      | Same u \<Rightarrow> \<not> is_ptr u \<and> tame e c u)"
  by pat_completeness auto
termination
  by (relation "measure (\<lambda>(e, c, t). size t)") (auto intro: ts_shape_size)

declare tame.simps [simp del]

text \<open>Enums are registered for types that are no pointers and no structs, and the collected ones are registered.\<close>

definition enums_ok :: "gen_env \<Rightarrow> (rtype \<Rightarrow> enum_info option) \<Rightarrow> bool" where
  "enums_ok e c \<longleftrightarrow> (\<forall>t. is_ptr t \<or> is_struct_kind t \<longrightarrow> ge_enum e t = None) \<and> (\<forall>t. c t \<noteq> None \<longrightarrow> ge_enum e t \<noteq> None)"

lemma hasMarshalOverride_enums: "hasMarshalOverride e c t = hasMarshalOverride e c' t"
  by (auto simp: hasMarshalOverride_def SQLNullTSType_def split: option.splits)

lemma kind_shape_inv:
  "kind_shape t = ArrayOf u \<Longrightarrow> \<exists>n. t = RSlice n u" "kind_shape t = TupleOf k u \<Longrightarrow> \<exists>n. t = RArray n k u"
  "kind_shape t = RecordOf v u \<Longrightarrow> \<exists>n. t = RMap n v u" "kind_shape t = BoolRecordOf u \<Longrightarrow> \<exists>n v. t = RMap n v u"
  "kind_shape t = Same u \<Longrightarrow> t = RPtr u" "kind_shape t \<noteq> NullOf u"
  by (cases t; simp split: if_splits)+

lemma marshal_shape_inv:
  "marshal_shape t mt = ArrayOf u \<Longrightarrow> \<exists>n. t = RSlice n u" "marshal_shape t mt \<noteq> TupleOf k u"
  "marshal_shape t mt \<noteq> RecordOf v u" "marshal_shape t mt \<noteq> BoolRecordOf u" "marshal_shape t mt \<noteq> Same u"
  by (cases t; simp add: marshal_shape_def elem_of_slice_def split: if_splits)+

lemma ts_shape_inv:
  "ts_shape e c t = ArrayOf u \<Longrightarrow> \<exists>n. t = RSlice n u" "ts_shape e c t = TupleOf k u \<Longrightarrow> \<exists>n. t = RArray n k u"
  "ts_shape e c t = RecordOf v u \<Longrightarrow> \<exists>n. t = RMap n v u" "ts_shape e c t = BoolRecordOf u \<Longrightarrow> \<exists>n v. t = RMap n v u"
  "ts_shape e c t = Same u \<Longrightarrow> t = RPtr u"
  by (auto simp: ts_shape_def marshal_shape_inv(2-) kind_shape_inv(6) dest: kind_shape_inv(1-5) marshal_shape_inv(1)
      split: option.splits if_splits prod.splits)

lemma done_type_elem: "elem_type t = Some u \<Longrightarrow> done_type e st t \<Longrightarrow> done_type e st u"
  by (subst (asm) done_type.simps) (cases t; auto simp: is_struct_kind_def)

lemma done_type_unptr:
  assumes "unptr t = unptr u"
  shows "done_type e st t = done_type e st u"
  unfolding done_type.simps [of e st t] done_type.simps [of e st u] assms ..

lemma named_covered:
  assumes ok: "enums_ok e c" and sh: "ts_shape e c t = Fixed s" and ref: "named_ref e c t"
    and nv: "t \<noteq> voidResponseType" and dn: "done_type e st t"
  shows "s \<in> ts_names e st"
proof (cases "ge_enum e t")
  case (Some info)
  then have "unptr t = t" using ok by (cases t) (auto simp: enums_ok_def is_ptr_def)
  then have "t \<in> set (gs_enums st)" using dn Some by (simp add: done_type.simps [of e st t])
  moreover have "s = enum_ts e t" using sh Some by (simp add: ts_shape_def enum_ts_def)
  ultimately show ?thesis using Some by (auto simp: ts_names_def enum_names_def)
next
  case None
  then have ct: "c t = None" using ok by (auto simp: enums_ok_def)
  have r: "\<not> hasMarshalOverride e c t" "\<not> is_raw_json t" "t \<noteq> blobType" "is_struct_kind t" "PkgPath t \<noteq> []"
    using ref None ct by (auto simp: named_ref_def)
  obtain n where t: "t = RStruct n"
    using r by (cases t) (auto simp: is_struct_kind_def hasMarshalOverride_def SQLNullTSType_def sql_null_elem_def split: option.splits)
  have "InferTypeFromMarshal e t = None" "sql_null_fixed t = None" "sql_null_elem t = None"
    using r(1) by (auto simp: hasMarshalOverride_def SQLNullTSType_def split: option.splits)
  then have "s = sanitizeTSIdent (TypeName t)"
    using sh None ct r t by (auto simp: ts_shape_def PkgPath_def TypeName_def split: if_splits)
  moreover have "t \<in> set (gs_types st)"
    using dn [unfolded done_type.simps [of e st t]] r nv hasMarshalOverride_enums [of e c t no_enums] t
    by (simp add: collectible_def skipped_def)
  ultimately show ?thesis by (auto simp: ts_names_def type_names_def)
qed

lemma mentions_covered:
  assumes "enums_ok e c"
  shows "tame e c t \<Longrightarrow> done_type e st t \<Longrightarrow> set (mentions e c t) \<subseteq> ts_names e st - {[]}"
  using assms
proof (induction e c t rule: tame.induct)
  case (1 e c t)
  note eqs = mentions.simps [of e c t] and tm = 1(6) [unfolded tame.simps [of e c t]]
  show ?case
  proof (cases "ts_shape e c t")
    case (Fixed s)
    then show ?thesis using named_covered [OF 1(8) Fixed _ _ 1(7)] tm by (auto simp: eqs)
  next
    case (ArrayOf u)
    have "done_type e st u" using ts_shape_inv(1) [OF ArrayOf] 1(7) by (auto intro: done_type_elem [of t])
    then show ?thesis using 1(1) [OF ArrayOf] 1(8) tm by (simp add: eqs ArrayOf)
  next
    case (TupleOf k u)
    have "done_type e st u" using ts_shape_inv(2) [OF TupleOf] 1(7) by (auto intro: done_type_elem [of t])
    then show ?thesis using 1(2) [OF TupleOf] 1(8) tm by (simp add: eqs TupleOf)
  next
    case (RecordOf k u)
    have "done_type e st u" using ts_shape_inv(3) [OF RecordOf] 1(7) by (auto intro: done_type_elem [of t])
    then show ?thesis using 1(3) [OF RecordOf] 1(8) tm by (simp add: eqs RecordOf)
  next
    case (BoolRecordOf u)
    have "done_type e st u" using ts_shape_inv(4) [OF BoolRecordOf] 1(7) by (auto intro: done_type_elem [of t])
    then show ?thesis using 1(4) [OF BoolRecordOf] 1(8) tm by (simp add: eqs BoolRecordOf)
  next
    case (NullOf u)
    then show ?thesis using tm by (simp add: eqs)
  next
    case (Same u)
    then have "unptr u = u" using tm by (cases u) (auto simp: is_ptr_def)
    then have "unptr t = unptr u" using ts_shape_inv(5) [OF Same] by simp
    then have "done_type e st u"
      using 1(7) done_type_unptr [of t u e st] by blast
    then show ?thesis using 1(5) [OF Same] 1(8) tm Same by (simp add: eqs)
  qed
qed

subsection \<open>The fields of a collected type\<close>

text \<open>The struct fields that \<open>collectInterfaceFields\<close> emits, with their effective types.\<close>

fun flat_fields :: "gen_env \<Rightarrow> nat \<Rightarrow> rtype \<Rightarrow> rfield list option"
  and flat_list :: "gen_env \<Rightarrow> nat \<Rightarrow> rtype \<Rightarrow> rfield list \<Rightarrow> rfield list option" where
  "flat_fields e 0 t = None"
| "flat_fields e (Suc k) t = flat_list e k t (fields_of e t)"
| "flat_list e k t [] = Some []"
| "flat_list e k t (f # fs) =
     (if \<not> wire_field f then flat_list e k t fs
      else case embeds f of
             Some u \<Rightarrow> (case (flat_fields e k u, flat_list e k t fs) of (Some a, Some b) \<Rightarrow> Some (a @ b) | _ \<Rightarrow> None)
           | None \<Rightarrow> map_option ((#) (f\<lparr>rf_type := effectiveFieldType e t f\<rparr>)) (flat_list e k t fs))"

lemma collectInterfaceFields_flat:
  "collectInterfaceFields e c k t = map_option (map (field_of e c)) (flat_fields e k t)"
  "collect_fields e c k t fs = map_option (map (field_of e c)) (flat_list e k t fs)"
  by (induction e k t and e k t fs rule: flat_fields_flat_list.induct) (auto split: option.splits)

text \<open>A format option can replace the type of a field altogether.\<close>

definition reformatted :: "rfield \<Rightarrow> bool" where
  "reformatted f \<longleftrightarrow> isDuration (rf_type f) \<and> durationFormatShape (jsonFormatOption f) \<noteq> None \<or>
     (isByteSlice (rf_type f) \<or> isByteArray (rf_type f)) \<and> byteSliceFormatShape (jsonFormatOption f) \<noteq> None"

definition field_names :: "gen_env \<Rightarrow> (rtype \<Rightarrow> enum_info option) \<Rightarrow> rfield \<Rightarrow> string list" where
  "field_names e c f = (if reformatted f then [] else mentions e c (rf_type f))"

lemma byteSliceFormatShape_empty [simp]: "byteSliceFormatShape [] = None"
  by (simp add: byteSliceFormatShape_def)

lemma field_names_in_text: "n \<in> set (field_names e c f) \<Longrightarrow> delimited n (fd_Type (field_of e c f))"
proof -
  assume n: "n \<in> set (field_names e c f)"
  then have m: "delimited n (goTypeToTS e c (rf_type f))" and r: "\<not> reformatted f"
    by (auto simp: field_names_def intro: mentions_in_text split: if_splits)
  have "fd_Type (field_of e c f) = fd_Type (default_field e c f)"
    using r by (auto simp: field_of_def reformatted_def adjust_duration_def adjust_bytes_def Let_def split: option.splits)
  then show ?thesis using m by (auto simp: default_field_def Let_def intro: delimited_right)
qed

text \<open>
  The structs whose interfaces are complete: an embedded field embeds a struct that is collected under
  its own name, and the types of the others are looked into completely.
\<close>

definition tame_field :: "gen_env \<Rightarrow> (rtype \<Rightarrow> enum_info option) \<Rightarrow> tyname \<Rightarrow> rfield \<Rightarrow> bool" where
  "tame_field e c n f \<longleftrightarrow> wire_field f \<longrightarrow>
     (if rf_anonymous f
      then (case unptr (rf_type f) of RStruct m \<Rightarrow> collectible e (RStruct m) \<and> \<not> skipped (RStruct m) | _ \<Rightarrow> False) \<and>
           ge_override e n (rf_name f) = None
      else tame e c (effectiveFieldType e (RStruct n) f))"

definition tame_env :: "gen_env \<Rightarrow> (rtype \<Rightarrow> enum_info option) \<Rightarrow> bool" where
  "tame_env e c \<longleftrightarrow> enums_ok e c \<and> (\<forall>n. \<forall>f\<in>set (ge_fields e n). tame_field e c n f)"

definition closed_collection :: "gen_env \<Rightarrow> gstate \<Rightarrow> bool" where
  "closed_collection e st \<longleftrightarrow> (\<forall>t\<in>set (gs_types st). (\<exists>n. t = RStruct n) \<and> (\<forall>u\<in>set (collect_targets e t). done_type e st u))"

text \<open>A struct that is collected, or flattened into one that is.\<close>

definition emitted :: "gen_env \<Rightarrow> gstate \<Rightarrow> rtype \<Rightarrow> bool" where
  "emitted e st t \<longleftrightarrow> (\<exists>n. t = RStruct n) \<and>
     (t \<in> set (gs_types st) \<or> (\<forall>f\<in>set (fields_of e t). wire_field f \<longrightarrow> done_type e st (effectiveFieldType e t f)))"

lemma emitted_field:
  assumes env: "tame_env e c" and closed: "closed_collection e st" and t: "emitted e st t"
    and f: "f \<in> set (fields_of e t)" "wire_field f"
  shows "case embeds f of Some u \<Rightarrow> emitted e st u
         | None \<Rightarrow> done_type e st (effectiveFieldType e t f) \<and> tame e c (effectiveFieldType e t f)"
proof -
  obtain n where n: "t = RStruct n" using t by (auto simp: emitted_def)
  then have "f \<in> set (ge_fields e n)" using f by (simp add: fields_of_def)
  then have tf: "tame_field e c n f" using env unfolding tame_env_def by blast
  have target: "done_type e st u" if "t \<in> set (gs_types st)" "u \<in> set (field_targets e t f)" for u
    using closed f(1) that by (auto simp: closed_collection_def collect_targets_def)
  show ?thesis
  proof (cases "rf_anonymous f")
    case False
    then have "embeds f = None" "tame e c (effectiveFieldType e t f)"
      using tf f n by (auto simp: embeds_def tame_field_def)
    moreover have "done_type e st (effectiveFieldType e t f)"
      using t f target [of "effectiveFieldType e t f"] False by (auto simp: emitted_def field_targets_def)
    ultimately show ?thesis by simp
  next
    case True
    then obtain m where m: "unptr (rf_type f) = RStruct m" "collectible e (RStruct m)" "\<not> skipped (RStruct m)"
        "ge_override e n (rf_name f) = None"
      using tf f by (auto simp: tame_field_def split: rtype.splits)
    then have emb: "embeds f = Some (RStruct m)" using True by (simp add: embeds_def is_struct_kind_def)
    have "emitted e st (RStruct m)"
    proof (cases "t \<in> set (gs_types st)")
      case tin: True
      have "done_type e st (effectiveFieldType e (RStruct m) g)" if "g \<in> set (fields_of e (RStruct m))" "wire_field g" for g
        using target [OF tin] that True f emb m by (auto simp: field_targets_def)
      then show ?thesis by (auto simp: emitted_def)
    next
      case False
      then have "done_type e st (rf_type f)" using t f m n by (auto simp: emitted_def effectiveFieldType_def)
      then have "RStruct m \<in> set (gs_types st)"
        using m by (subst (asm) done_type.simps) (simp add: is_struct_kind_def)
      then show ?thesis by (simp add: emitted_def)
    qed
    then show ?thesis by (simp add: emb)
  qed
qed

lemma flat_covered:
  "flat_fields e k t = Some fs \<Longrightarrow> emitted e st t \<Longrightarrow> tame_env e c \<Longrightarrow> closed_collection e st \<Longrightarrow>
           \<forall>f\<in>set fs. done_type e st (rf_type f) \<and> tame e c (rf_type f)"
  "flat_list e k t gs = Some fs \<Longrightarrow> emitted e st t \<Longrightarrow> set gs \<subseteq> set (fields_of e t) \<Longrightarrow> tame_env e c \<Longrightarrow>
         closed_collection e st \<Longrightarrow> \<forall>f\<in>set fs. done_type e st (rf_type f) \<and> tame e c (rf_type f)"
proof (induction e k t and e k t gs arbitrary: fs and fs rule: flat_fields_flat_list.induct)
  case (4 e k t f gs)
  show ?case
  proof (cases "wire_field f")
    case True
    have step: "case embeds f of Some u \<Rightarrow> emitted e st u
         | None \<Rightarrow> done_type e st (effectiveFieldType e t f) \<and> tame e c (effectiveFieldType e t f)"
      by (rule emitted_field [OF 4(8,9,6)]) (use 4(7) True in auto)
    show ?thesis
    proof (cases "embeds f")
      case None
      then show ?thesis using 4(2) [OF _ None _ 4(6)] 4(5,7-9) True step by (auto simp: map_option_case split: option.splits)
    next
      case (Some u)
      then obtain a b where ab: "flat_fields e k u = Some a" "flat_list e k t gs = Some b" "fs = a @ b"
        using 4(5) True by (auto split: option.splits)
      have "\<forall>f\<in>set a. done_type e st (rf_type f) \<and> tame e c (rf_type f)"
        using 4(3) [OF _ Some ab(1)] True Some 4(8,9) step by auto
      moreover have "\<forall>f\<in>set b. done_type e st (rf_type f) \<and> tame e c (rf_type f)"
        using 4(4) [OF _ Some ab(2) 4(6)] True 4(7-9) by auto
      ultimately show ?thesis using ab by auto
    qed
  qed (use 4 in auto)
qed auto

lemma interface_covered:
  assumes "tame_env e c" "closed_collection e st" "t \<in> set (gs_types st)" "flat_fields e k t = Some fs" "f \<in> set fs"
  shows "set (field_names e c f) \<subseteq> ts_names e st - {[]}"
proof -
  have "emitted e st t" using assms by (auto simp: emitted_def closed_collection_def)
  then have "done_type e st (rf_type f) \<and> tame e c (rf_type f)" using flat_covered(1) assms by blast
  then have "set (mentions e c (rf_type f)) \<subseteq> ts_names e st - {[]}" using mentions_covered assms by (simp add: tame_env_def)
  then show ?thesis by (auto simp: field_names_def)
qed

end
