(* ===== verification/Aprot_ClientFiles.thy ===== *)
theory Aprot_ClientFiles
  imports Aprot_Generate
begin

text \<open>
  The files of the generated TypeScript client (\<open>generate.go\<close>): what a handler group uses, which types
  and enums are shared and move to a file of their package, what each file declares and imports, and
  the map of files that \<open>Generate\<close> returns. The text templates are not modelled: a file is the data its
  template is given. The naming plugin and the parameter names read from the source are parameters.

  Go iterates over its maps in any order; here the groups, their handlers and the collected types are
  lists, and what the code sorts is sorted. An enum type is registered with one set of values.
\<close>

section \<open>Steps over lists\<close>

text \<open>A loop whose body may run out of nesting depth.\<close>

fun fold_opt :: "('a \<Rightarrow> 's \<Rightarrow> 's option) \<Rightarrow> 'a list \<Rightarrow> 's \<Rightarrow> 's option" where
  "fold_opt step [] s = Some s"
| "fold_opt step (x # xs) s = (case step x s of None \<Rightarrow> None | Some s' \<Rightarrow> fold_opt step xs s')"

text \<open>The contract of a loop that collects: a step only adds, and its element is covered from then on.\<close>

locale collector =
  fixes ok :: "'a \<Rightarrow> bool" and step :: "'a \<Rightarrow> 's \<Rightarrow> 's option" and le :: "'s \<Rightarrow> 's \<Rightarrow> bool" and covers :: "'s \<Rightarrow> 'a \<Rightarrow> bool"
  assumes step_le: "ok x \<Longrightarrow> step x s = Some s' \<Longrightarrow> le s s'"
    and step_covers: "ok x \<Longrightarrow> step x s = Some s' \<Longrightarrow> covers s' x"
    and le_refl: "le s s"
    and le_trans: "le s s' \<Longrightarrow> le s' s'' \<Longrightarrow> le s s''"
    and covers_mono: "covers s x \<Longrightarrow> le s s' \<Longrightarrow> covers s' x"
begin

lemma fold_collects: "fold_opt step xs s = Some s' \<Longrightarrow> \<forall>x\<in>set xs. ok x \<Longrightarrow> le s s' \<and> (\<forall>x\<in>set xs. covers s' x)"
proof (induction xs arbitrary: s)
  case (Cons x xs)
  then obtain s1 where s1: "step x s = Some s1" "fold_opt step xs s1 = Some s'" by (auto split: option.splits)
  have rest: "le s1 s'" "\<forall>y\<in>set xs. covers s' y" using Cons.IH [OF s1(2)] Cons.prems(2) by auto
  have x: "le s s1" "covers s1 x" using step_le [OF _ s1(1)] step_covers [OF _ s1(1)] Cons.prems(2) by simp_all
  show ?case using le_trans [OF x(1) rest(1)] covers_mono [OF x(2) rest(1)] rest(2) by simp
qed (simp add: le_refl)

end

section \<open>The types of a handler group\<close>

record gen_method =
  gm_Name :: string
  gm_Kind :: handler_kind
  gm_Response :: rtype
  gm_Key :: "rtype option"
  gm_Params :: "(rtype \<times> bool) list"

record gen_group =
  gg_Name :: string
  gg_socket :: bool
  gg_Handlers :: "gen_method list"
  gg_PushEvents :: "rtype list"
  gg_Enums :: "rtype list"

text \<open>The body of the loop over the handlers in \<open>collectGroupTypes\<close>.\<close>

definition collect_response :: "gen_env \<Rightarrow> nat \<Rightarrow> rtype \<Rightarrow> gstate \<Rightarrow> gstate option" where
  "collect_response e k t st =
     (if is_struct_kind t \<and> t \<noteq> voidResponseType then collectType e k t st else collectNestedType e k t st)"

definition collect_key :: "gen_env \<Rightarrow> nat \<Rightarrow> gen_method \<Rightarrow> gstate \<Rightarrow> gstate option" where
  "collect_key e k m st =
     (case gm_Key m of
        Some t \<Rightarrow> if gm_Kind m = HandlerKindStream2 then collectNestedType e k t st else Some st
      | None \<Rightarrow> Some st)"

definition collect_method :: "gen_env \<Rightarrow> nat \<Rightarrow> gen_method \<Rightarrow> gstate \<Rightarrow> gstate option" where
  "collect_method e k m st =
     Option.bind (fold_opt (collectNestedType e k) (map fst (gm_Params m)) st)
       (\<lambda>st1. Option.bind (collect_response e k (gm_Response m) st1) (collect_key e k m))"

definition collectGroupTypes :: "gen_env \<Rightarrow> nat \<Rightarrow> gen_group \<Rightarrow> gstate \<Rightarrow> gstate option" where
  "collectGroupTypes e k g st =
     Option.bind (fold_opt (collect_method e k) (gg_Handlers g) st)
       (\<lambda>st1. Option.bind (fold_opt (collectType e k) (gg_PushEvents g) st1)
          (\<lambda>st2. Some (st2\<lparr>gs_enums := fold List.insert (gg_Enums g) (gs_enums st2)\<rparr>)))"

definition empty_gstate :: gstate where
  "empty_gstate = \<lparr>gs_types = [], gs_enums = []\<rparr>"

definition clientGroups :: "gen_group list \<Rightarrow> gen_group list" where
  "clientGroups gs = filter gg_socket gs"

definition collect_groups :: "gen_env \<Rightarrow> nat \<Rightarrow> gen_group list \<Rightarrow> (gen_group \<times> gstate) list option" where
  "collect_groups e k gs =
     those (map (\<lambda>g. map_option (Pair g) (collectGroupTypes e k g empty_gstate)) (clientGroups gs))"

section \<open>Shared types\<close>

text \<open>\<open>typeGroups\<close> and \<open>enumGroups\<close>: the names of the groups that use a type.\<close>

definition groups_using :: "(gstate \<Rightarrow> rtype list) \<Rightarrow> (gen_group \<times> gstate) list \<Rightarrow> rtype \<Rightarrow> string list" where
  "groups_using sel cs t = remdups (map (gg_Name \<circ> fst) (filter (\<lambda>(g, st). t \<in> set (sel st)) cs))"

definition in_several :: "(gstate \<Rightarrow> rtype list) \<Rightarrow> (gen_group \<times> gstate) list \<Rightarrow> rtype list" where
  "in_several sel cs = filter (\<lambda>t. length (groups_using sel cs t) > 1) (remdups (concat (map (sel \<circ> snd) cs)))"

definition sharedTypes :: "(gen_group \<times> gstate) list \<Rightarrow> rtype list" where
  "sharedTypes cs = in_several gs_types cs"

definition sharedEnums :: "rtype list \<Rightarrow> (gen_group \<times> gstate) list \<Rightarrow> rtype list" where
  "sharedEnums always cs = remdups (in_several gs_enums cs @ always)"

definition pkgShortName :: "string \<Rightarrow> string" where
  "pkgShortName pkgPath = last (split_on CHR ''/'' pkgPath)"

definition type_pkg :: "rtype \<Rightarrow> string" where
  "type_pkg t = pkgShortName (PkgPath t)"

definition sortedPkgs :: "rtype list \<Rightarrow> rtype list \<Rightarrow> string list" where
  "sortedPkgs ts es = sort (remdups (map type_pkg (ts @ es)))"

section \<open>The data of a file\<close>

record enum_data =
  ed_Name :: string
  ed_IsString :: bool
  ed_Values :: "(string \<times> string) list"

record param_data =
  pd_Name :: string
  pd_Type :: string
  pd_Variadic :: bool

record method_data =
  md_Name :: string
  md_WireMethod :: string
  md_MethodName :: string
  md_HookName :: string
  md_SubscribeName :: string
  md_ResponseType :: string
  md_ItemKeyType :: string
  md_IsVoid :: bool
  md_IsStream :: bool
  md_IsStream2 :: bool
  md_Params :: "param_data list"

record event_data =
  ev_Name :: string
  ev_HandlerName :: string
  ev_HookName :: string
  ev_DataType :: string

record template_data =
  td_StructName :: string
  td_FileName :: string
  td_Interfaces :: "iface list"
  td_Methods :: "method_data list"
  td_PushEvents :: "event_data list"
  td_CustomErrorCodes :: "(string \<times> int \<times> string) list"
  td_Enums :: "enum_data list"
  td_BaseTypeImports :: "string list"
  td_SharedImports :: "(string \<times> string list) list"

text \<open>The naming plugin, the parameter names of a method read from its source, and the options.\<close>

record gen_options =
  go_FileName :: "string \<Rightarrow> string"
  go_MethodName :: "string \<Rightarrow> string"
  go_HookName :: "string \<Rightarrow> string"
  go_HandlerName :: "string \<Rightarrow> string"
  go_ErrorMethodName :: "string \<Rightarrow> string"
  go_paramNames :: "string \<Rightarrow> string \<Rightarrow> string list"
  go_Zod :: bool
  go_depth :: nat

definition collected_info :: "gen_env \<Rightarrow> rtype list \<Rightarrow> rtype \<Rightarrow> enum_info option" where
  "collected_info e es t = (if t \<in> set es then ge_enum e t else None)"

definition build_interface :: "gen_env \<Rightarrow> (rtype \<Rightarrow> enum_info option) \<Rightarrow> nat \<Rightarrow> rtype \<Rightarrow> iface option" where
  "build_interface e c k t =
     map_option (\<lambda>fs. \<lparr>if_Name = sanitizeTSIdent (TypeName t), if_Fields = fs\<rparr>) (collectInterfaceFields e c k t)"

definition buildInterfaces :: "gen_env \<Rightarrow> (rtype \<Rightarrow> enum_info option) \<Rightarrow> nat \<Rightarrow> rtype list \<Rightarrow> iface list option" where
  "buildInterfaces e c k ts = those (map (build_interface e c k) (sort_key TypeName ts))"

fun enum_literal :: "enum_value \<Rightarrow> string" where
  "enum_literal (EStr s) = ''\"'' @ s @ ''\"''"
| "enum_literal (EInt i) = int_str i"

definition enum_template :: "gen_env \<Rightarrow> enum_info \<Rightarrow> enum_data" where
  "enum_template e i = \<lparr>ed_Name = e_Name i, ed_IsString = e_IsString i,
     ed_Values = map (\<lambda>(n, v). (tsObjectKey e n, enum_literal v)) (e_Values i)\<rparr>"

definition buildEnums :: "gen_env \<Rightarrow> rtype list \<Rightarrow> enum_data list" where
  "buildEnums e es = map (enum_template e) (sort_key e_Name (List.map_filter (ge_enum e) es))"

definition isBlobResponse :: "rtype \<Rightarrow> bool" where
  "isBlobResponse t \<longleftrightarrow> unptr t = blobType"

definition build_param :: "gen_env \<Rightarrow> (rtype \<Rightarrow> enum_info option) \<Rightarrow> string list \<Rightarrow> nat \<times> rtype \<times> bool \<Rightarrow> param_data" where
  "build_param e c decl p =
     (case p of (i, t, variadic) \<Rightarrow>
        \<lparr>pd_Name = tsSafeIdent (if i < length decl then decl ! i else ''arg'' @ nat_str i),
         pd_Type = goTypeToTS e c t @ (if variadic then ''[]'' else []),
         pd_Variadic = variadic\<rparr>)"

definition buildParamData :: "gen_env \<Rightarrow> (rtype \<Rightarrow> enum_info option) \<Rightarrow> string list \<Rightarrow> gen_method \<Rightarrow> param_data list" where
  "buildParamData e c decl m = map (build_param e c decl) (zip [0..<length (gm_Params m)] (gm_Params m))"

definition is_stream :: "gen_method \<Rightarrow> bool" where
  "is_stream m \<longleftrightarrow> gm_Kind m = HandlerKindStream \<or> gm_Kind m = HandlerKindStream2"

definition is_void :: "gen_method \<Rightarrow> bool" where
  "is_void m \<longleftrightarrow> \<not> is_stream m \<and> gm_Response m = voidResponseType"

definition buildMethodData :: "gen_env \<Rightarrow> gen_options \<Rightarrow> (rtype \<Rightarrow> enum_info option) \<Rightarrow> string \<Rightarrow> gen_method \<Rightarrow> method_data" where
  "buildMethodData e op c structName m =
     \<lparr>md_Name = gm_Name m,
      md_WireMethod = structName @ ''.'' @ gm_Name m,
      md_MethodName = tsSafeIdent (go_MethodName op (gm_Name m)),
      md_HookName = tsSafeIdent (go_HookName op (gm_Name m)),
      md_SubscribeName = ''subscribe'' @ gm_Name m,
      md_ResponseType =
        (if is_void m then ''void''
         else if is_stream m then goTypeToTS e c (gm_Response m)
         else if isBlobResponse (gm_Response m) then ''Blob''
         else goTypeToTS e c (gm_Response m)),
      md_ItemKeyType =
        (case gm_Key m of
           Some t \<Rightarrow> if gm_Kind m = HandlerKindStream2 then goTypeToTS e c t else []
         | None \<Rightarrow> []),
      md_IsVoid = is_void m,
      md_IsStream = (gm_Kind m = HandlerKindStream),
      md_IsStream2 = (gm_Kind m = HandlerKindStream2),
      md_Params = buildParamData e c (go_paramNames op structName (gm_Name m)) m\<rparr>"

definition build_event :: "gen_options \<Rightarrow> rtype \<Rightarrow> event_data" where
  "build_event op t = \<lparr>ev_Name = TypeName t, ev_HandlerName = tsSafeIdent (go_HandlerName op (TypeName t)),
     ev_HookName = tsSafeIdent (go_HookName op (TypeName t)), ev_DataType = sanitizeTSIdent (TypeName t)\<rparr>"

definition builtinErrorHelpers :: "string list" where
  "builtinErrorHelpers = [''isUnauthorized'', ''isForbidden'', ''isNotFound'', ''isInvalidParams'', ''isValidationFailed'',
     ''isCanceled'', ''isConnectionRejected'', ''isTooManyRequests'', ''isAuthFailed'']"

definition validateErrorCodes :: "gen_options \<Rightarrow> (string \<times> int) list \<Rightarrow> string list" where
  "validateErrorCodes op codes =
     map (\<lambda>(n, c). ''custom error '' @ n @ '' collides with '' @ go_ErrorMethodName op n)
       (filter (\<lambda>(n, c). go_ErrorMethodName op n \<in> set builtinErrorHelpers) codes)"

definition buildCustomErrorCodes :: "gen_options \<Rightarrow> (string \<times> int) list \<Rightarrow> (string \<times> int \<times> string) list" where
  "buildCustomErrorCodes op codes =
     map (\<lambda>(n, c). (n, c, go_ErrorMethodName op n))
       (filter (\<lambda>(n, c). go_ErrorMethodName op n \<notin> set builtinErrorHelpers) codes)"

definition buildTemplateData ::
  "gen_env \<Rightarrow> gen_options \<Rightarrow> (string \<times> int) list \<Rightarrow> gstate \<Rightarrow> gen_group \<Rightarrow> template_data option" where
  "buildTemplateData e op codes st g =
     (let c = collected_info e (gs_enums st)
      in map_option (\<lambda>ifs.
           \<lparr>td_StructName = gg_Name g, td_FileName = go_FileName op (gg_Name g) @ ''.ts'',
            td_Interfaces = ifs,
            td_Methods = map (buildMethodData e op c (gg_Name g)) (sort_key gm_Name (gg_Handlers g)),
            td_PushEvents = map (build_event op) (gg_PushEvents g),
            td_CustomErrorCodes = buildCustomErrorCodes op codes,
            td_Enums = buildEnums e (gs_enums st),
            td_BaseTypeImports = [], td_SharedImports = []\<rparr>)
         (buildInterfaces e c (go_depth op) (gs_types st)))"

section \<open>Imports\<close>

text \<open>The type expressions that the two searches for imports look at.\<close>

definition scanned_texts :: "template_data \<Rightarrow> string list" where
  "scanned_texts d =
     concat (map (\<lambda>i. map fd_Type (if_Fields i)) (td_Interfaces d)) @
     concat (map (\<lambda>m. md_ResponseType m # map pd_Type (md_Params m)) (td_Methods d)) @
     map ev_DataType (td_PushEvents d)"

definition localNames :: "template_data \<Rightarrow> string list" where
  "localNames d = map if_Name (td_Interfaces d) @ map (\<lambda>i. ed_Name i @ ''Type'') (td_Enums d)"

definition findBaseTypeImports :: "template_data \<Rightarrow> string list \<Rightarrow> string list" where
  "findBaseTypeImports d baseTypeNames =
     sort (filter (\<lambda>n. list_ex (\<lambda>s. containsTypeName s n) (scanned_texts d)) (remdups baseTypeNames))"

definition scan_refs :: "template_data \<Rightarrow> (string, string) gomap \<Rightarrow> (string \<times> string) list" where
  "scan_refs d decl =
     filter (\<lambda>(n, m). n \<notin> set (localNames d) \<and> list_ex (\<lambda>s. containsTypeName s n) (scanned_texts d)) decl"

definition findSharedTypeImports :: "template_data \<Rightarrow> (string, string) gomap \<Rightarrow> (string \<times> string list) list" where
  "findSharedTypeImports d decl =
     (let refs = scan_refs d decl
      in map (\<lambda>m. (m, sort (map fst (filter (\<lambda>r. snd r = m) refs)))) (sort (remdups (map snd refs))))"

section \<open>The files\<close>

record gen_registry =
  gr_groups :: "gen_group list"
  gr_SharedEnums :: "rtype list"
  gr_reserved :: "string list"
  gr_errorCodes :: "(string \<times> int) list"

definition pkgBase :: "string list \<Rightarrow> string list \<Rightarrow> string \<Rightarrow> string" where
  "pkgBase handlerFileNames reserved pkg =
     (if pkg \<in> set handlerFileNames \<or> pkg \<in> set reserved then pkg @ ''.types'' else pkg)"

definition module_of :: "string \<Rightarrow> string" where
  "module_of base = ''./'' @ base"

text \<open>The first pass: the types and enums of a package, with the data of its file.\<close>

record shared_file =
  sf_base :: string
  sf_types :: "rtype list"
  sf_data :: template_data

definition shared_data ::
  "gen_env \<Rightarrow> gen_options \<Rightarrow> (string \<Rightarrow> string) \<Rightarrow> rtype list \<Rightarrow> rtype list \<Rightarrow> string \<Rightarrow> shared_file option" where
  "shared_data e op base ts es pkg =
     (let pts = filter (\<lambda>t. type_pkg t = pkg) ts; pes = filter (\<lambda>t. type_pkg t = pkg) es
      in map_option (\<lambda>ifs.
           \<lparr>sf_base = base pkg, sf_types = pts,
            sf_data = \<lparr>td_StructName = pkg, td_FileName = base pkg @ ''.ts'', td_Interfaces = ifs, td_Methods = [],
              td_PushEvents = [], td_CustomErrorCodes = [], td_Enums = buildEnums e pes, td_BaseTypeImports = [],
              td_SharedImports = []\<rparr>\<rparr>)
         (buildInterfaces e (collected_info e pes) (go_depth op) pts))"

text \<open>\<open>sharedTypeNames\<close>: where each shared name is declared; a later package replaces an earlier one.\<close>

definition declare_names :: "shared_file \<Rightarrow> (string, string) gomap \<Rightarrow> (string, string) gomap" where
  "declare_names sf decl = fold (\<lambda>n. AList.update n (module_of (sf_base sf))) (localNames (sf_data sf)) decl"

definition sharedTypeNames :: "shared_file list \<Rightarrow> (string, string) gomap" where
  "sharedTypeNames sfs = fold declare_names sfs []"

text \<open>The second pass: the imports of a shared file, never from itself.\<close>

definition scoped_names :: "(string, string) gomap \<Rightarrow> shared_file \<Rightarrow> (string, string) gomap" where
  "scoped_names decl sf =
     filter (\<lambda>(n, m). \<not> (m = module_of (sf_base sf) \<and> n \<in> set (localNames (sf_data sf)))) decl"

definition resolve_imports :: "(string, string) gomap \<Rightarrow> shared_file \<Rightarrow> shared_file" where
  "resolve_imports decl sf =
     sf\<lparr>sf_data := (sf_data sf)\<lparr>td_SharedImports := findSharedTypeImports (sf_data sf) (scoped_names decl sf)\<rparr>\<rparr>"

text \<open>The file of a handler group, without the types that are shared, and its schemas.\<close>

record handler_file =
  hf_group :: gen_group
  hf_types :: "rtype list"
  hf_data :: template_data
  hf_schemas :: "zod_schema list"

definition handler_data ::
  "gen_env \<Rightarrow> gen_options \<Rightarrow> (string \<times> int) list \<Rightarrow> rtype list \<Rightarrow> rtype list \<Rightarrow> (string, string) gomap \<Rightarrow>
   gen_group \<times> gstate \<Rightarrow> handler_file option" where
  "handler_data e op codes ts es decl gst =
     (case gst of (g, st) \<Rightarrow>
        let st' = \<lparr>gs_types = filter (\<lambda>t. t \<notin> set ts) (gs_types st), gs_enums = filter (\<lambda>t. t \<notin> set es) (gs_enums st)\<rparr>
        in case buildTemplateData e op codes st' g of
             None \<Rightarrow> None
           | Some d \<Rightarrow>
               map_option (\<lambda>zs.
                 \<lparr>hf_group = g, hf_types = gs_types st',
                  hf_data = d\<lparr>td_BaseTypeImports := findBaseTypeImports d [], td_SharedImports := findSharedTypeImports d decl\<rparr>,
                  hf_schemas = zs\<rparr>)
                 (if go_Zod op then buildZodSchemas e (td_Interfaces d) else Some []))"

record client_plan =
  cp_shared :: "shared_file list"
  cp_handlers :: "handler_file list"

definition plan_files :: "gen_env \<Rightarrow> gen_options \<Rightarrow> gen_registry \<Rightarrow> client_plan option" where
  "plan_files e op r =
     Option.bind (collect_groups e (go_depth op) (gr_groups r)) (\<lambda>cs.
       let ts = sharedTypes cs; es = sharedEnums (gr_SharedEnums r) cs;
           base = pkgBase (map (go_FileName op \<circ> gg_Name) (clientGroups (gr_groups r))) (gr_reserved r)
       in Option.bind (those (map (shared_data e op base ts es) (sortedPkgs ts es))) (\<lambda>sfs.
            let decl = sharedTypeNames sfs
            in map_option (\<lambda>hfs. \<lparr>cp_shared = map (resolve_imports decl) sfs, cp_handlers = hfs\<rparr>)
                 (those (map (handler_data e op (gr_errorCodes r) ts es decl) cs))))"

datatype gen_file =
    SharedTypes template_data
  | HandlerClient template_data
  | SchemaFile "zod_schema list"
  | BaseClient "(string \<times> int \<times> string) list"

definition TrimSuffix :: "string \<Rightarrow> string \<Rightarrow> string" where
  "TrimSuffix s suf = (if suffix suf s then take (length s - length suf) s else s)"

text \<open>The assignments to \<open>results\<close>, in the order the code makes them.\<close>

definition handler_writes :: "handler_file \<Rightarrow> (string \<times> gen_file) list" where
  "handler_writes hf =
     (td_FileName (hf_data hf), HandlerClient (hf_data hf)) #
     (if hf_schemas hf = [] then []
      else [(TrimSuffix (td_FileName (hf_data hf)) ''.ts'' @ ''.schema.ts'', SchemaFile (hf_schemas hf))])"

definition plan_writes :: "gen_options \<Rightarrow> gen_registry \<Rightarrow> client_plan \<Rightarrow> (string \<times> gen_file) list" where
  "plan_writes op r p =
     map (\<lambda>sf. (td_FileName (sf_data sf), SharedTypes (sf_data sf))) (cp_shared p) @
     concat (map handler_writes (cp_handlers p)) @
     [(''client.ts'', BaseClient (buildCustomErrorCodes op (gr_errorCodes r)))]"

text \<open>
  The hooks of the runtimes run on the finished map. \<open>None\<close> is an embedding deeper than \<open>go_depth\<close>; the
  code has no such bound and overflows its stack when a struct embeds itself.
\<close>

type_synonym gen_results = "(string, gen_file) gomap"

definition Generate ::
  "gen_env \<Rightarrow> gen_options \<Rightarrow> gen_registry \<Rightarrow> (gen_results \<Rightarrow> gen_results) list \<Rightarrow> (string list + gen_results) option" where
  "Generate e op r hooks =
     map_option (\<lambda>p.
       let errors = validateErrorCodes op (gr_errorCodes r)
       in if errors \<noteq> [] then Inl errors
          else Inr (fold (\<lambda>h. h) hooks (fold (\<lambda>(n, f). AList.update n f) (plan_writes op r p) [])))
       (plan_files e op r)"

section \<open>Stale files\<close>

definition generatedFileMarker :: string where
  "generatedFileMarker = ''// Code generated by aprot. DO NOT EDIT.''"

definition isGeneratedByAprot :: "string \<Rightarrow> bool" where
  "isGeneratedByAprot content \<longleftrightarrow> prefix generatedFileMarker content \<and>
     (let rest = drop (length generatedFileMarker) content
      in rest = [] \<or> hd rest = CHR 10 \<or> hd rest = CHR 13)"

text \<open>
  A directory entry: its name, whether it is a directory, its content if it can be read, and whether
  the operating system lets it be removed. The result has the names left and whether a removal failed.
\<close>

record dir_entry =
  de_name :: string
  de_dir :: bool
  de_content :: "string option"
  de_removable :: bool

definition is_stale :: "string list \<Rightarrow> dir_entry \<Rightarrow> bool" where
  "is_stale written d \<longleftrightarrow> \<not> de_dir d \<and> suffix ''.ts'' (de_name d) \<and> de_name d \<notin> set written \<and>
     (case de_content d of Some s \<Rightarrow> isGeneratedByAprot s | None \<Rightarrow> False)"

fun removeStaleFiles :: "string list \<Rightarrow> dir_entry list \<Rightarrow> dir_entry list \<times> bool" where
  "removeStaleFiles written [] = ([], True)"
| "removeStaleFiles written (d # ds) =
     (if \<not> is_stale written d then (case removeStaleFiles written ds of (l, ok) \<Rightarrow> (d # l, ok))
      else if de_removable d then removeStaleFiles written ds
      else (d # ds, False))"

section \<open>What the collection of a group covers\<close>

definition all_structs :: "gstate \<Rightarrow> bool" where
  "all_structs st \<longleftrightarrow> (\<forall>t\<in>set (gs_types st). \<exists>n. t = RStruct n)"

definition grows :: "gen_env \<Rightarrow> gstate \<Rightarrow> gstate \<Rightarrow> bool" where
  "grows e st st' \<longleftrightarrow> closes e st st' \<and> (all_structs st \<longrightarrow> all_structs st')"

lemma grows_refl: "grows e st st"
  by (simp add: grows_def)

lemma grows_trans: "grows e a b \<Longrightarrow> grows e b c \<Longrightarrow> grows e a c"
  using closes_trans by (auto simp: grows_def)

lemma grows_extends: "grows e st st' \<Longrightarrow> extends st st'"
  by (simp add: grows_def closes_def)

lemma collectible_struct: "is_struct_kind t \<Longrightarrow> collectible e t \<Longrightarrow> \<exists>n. t = RStruct n"
  by (cases t) (auto simp: is_struct_kind_def collectible_def hasMarshalOverride_def SQLNullTSType_def
      sql_null_elem_def split: option.splits)

lemma collect_structs:
  "collectNestedType e k t st = Some st' \<Longrightarrow> all_structs st \<Longrightarrow> all_structs st'"
  "collectType e k t st = Some st' \<Longrightarrow> all_structs st \<Longrightarrow> \<exists>n. t = RStruct n \<Longrightarrow> all_structs st'"
  "collect_list e k ts st = Some st' \<Longrightarrow> all_structs st \<Longrightarrow> all_structs st'"
proof (induction e k t st and e k t st and e k ts st arbitrary: st' and st' and st'
    rule: collectNestedType_collectType_collect_list.induct)
  case (2 e k t st)
  let ?u = "unptr t" and ?st = "add_enum e (unptr t) st"
  have st: "all_structs ?st" using 2(4) by (simp add: all_structs_def add_enum_def)
  show ?case
  proof (cases "is_struct_kind ?u")
    case True
    then show ?thesis
      using 2(1) [OF refl refl True _ _ st] 2(3) st collectible_struct [OF True]
      by (cases "collectible e ?u") (auto simp: Let_def)
  next
    case False
    then show ?thesis using 2(2) [OF refl refl False _ _ st] 2(3) st by (auto simp: Let_def split: option.splits)
  qed
next
  case (4 e k t st)
  have "all_structs (st\<lparr>gs_types := t # gs_types st\<rparr>)" using 4(3,4) by (simp add: all_structs_def)
  then show ?case using 4 by (auto split: if_splits)
next
  case (6 e k t ts st)
  then show ?case by (auto split: option.splits)
qed (auto)

lemma nested_grows: "collectNestedType e k t st = Some st' \<Longrightarrow> grows e st st'"
  using collect_closes(1) collect_structs(1) by (auto simp: grows_def)

lemma type_grows: "collectType e k t st = Some st' \<Longrightarrow> \<exists>n. t = RStruct n \<Longrightarrow> grows e st st'"
  using collect_closes(2) collect_structs(2) by (simp add: grows_def)

definition struct_type :: "rtype \<Rightarrow> bool" where
  "struct_type t = (case t of RStruct n \<Rightarrow> True | _ \<Rightarrow> False)"

lemma struct_type_iff: "struct_type t \<longleftrightarrow> (\<exists>n. t = RStruct n)"
  by (cases t) (auto simp: struct_type_def)

definition response_done :: "gen_env \<Rightarrow> gstate \<Rightarrow> rtype \<Rightarrow> bool" where
  "response_done e st t \<longleftrightarrow>
     (if struct_type t \<and> t \<noteq> voidResponseType then skipped t \<or> t \<in> set (gs_types st) else done_type e st t)"

definition method_done :: "gen_env \<Rightarrow> gstate \<Rightarrow> gen_method \<Rightarrow> bool" where
  "method_done e st m \<longleftrightarrow>
     (\<forall>p\<in>set (gm_Params m). done_type e st (fst p)) \<and> response_done e st (gm_Response m) \<and>
     (gm_Kind m = HandlerKindStream2 \<longrightarrow> (case gm_Key m of Some t \<Rightarrow> done_type e st t | None \<Rightarrow> True))"

definition no_sql_null :: "gen_method \<Rightarrow> bool" where
  "no_sql_null m \<longleftrightarrow> (is_struct_kind (gm_Response m) \<longrightarrow> struct_type (gm_Response m))"

lemma struct_kind: "struct_type t \<Longrightarrow> is_struct_kind t"
  by (auto simp: struct_type_iff is_struct_kind_def)

lemma method_done_mono: "method_done e st m \<Longrightarrow> extends st st' \<Longrightarrow> method_done e st' m"
  using done_type_mono by (auto simp: method_done_def response_done_def extends_def split: option.splits if_splits)

interpretation nested: collector "\<lambda>_. True" "collectNestedType e k" "grows e" "\<lambda>st t. done_type e st t" for e k
  by unfold_locales
    (auto intro: nested_grows grows_refl grows_trans dest: collect_closes(1) done_type_mono grows_extends)

lemma response_collects:
  assumes "collect_response e k t st = Some st'" "is_struct_kind t \<longrightarrow> struct_type t"
  shows "grows e st st' \<and> response_done e st' t"
proof (cases "is_struct_kind t \<and> t \<noteq> voidResponseType")
  case True
  then show ?thesis using assms type_grows collect_closes(2) by (auto simp: collect_response_def response_done_def struct_type_iff)
next
  case False
  then show ?thesis using assms nested_grows collect_closes(1) struct_kind by (auto simp: collect_response_def response_done_def)
qed

lemma key_collects:
  "collect_key e k m st = Some st' \<Longrightarrow> grows e st st' \<and>
     (gm_Kind m = HandlerKindStream2 \<longrightarrow> (case gm_Key m of Some t \<Rightarrow> done_type e st' t | None \<Rightarrow> True))"
  using nested_grows collect_closes(1) by (auto simp: collect_key_def grows_refl split: option.splits if_splits)

lemma response_done_mono: "response_done e st t \<Longrightarrow> extends st st' \<Longrightarrow> response_done e st' t"
  using done_type_mono by (auto simp: response_done_def extends_def split: if_splits)

lemma method_collects:
  assumes "no_sql_null m" "collect_method e k m st = Some st'"
  shows "grows e st st' \<and> method_done e st' m"
proof -
  obtain st1 st2 where s: "fold_opt (collectNestedType e k) (map fst (gm_Params m)) st = Some st1"
      "collect_response e k (gm_Response m) st1 = Some st2" "collect_key e k m st2 = Some st'"
    using assms(2) by (auto simp: collect_method_def bind_eq_Some_conv)
  have p: "grows e st st1" "\<forall>p\<in>set (gm_Params m). done_type e st1 (fst p)"
    using nested.fold_collects [OF s(1)] by auto
  have r: "grows e st1 st2" "response_done e st2 (gm_Response m)"
    using response_collects [OF s(2)] assms(1) by (auto simp: no_sql_null_def)
  have q: "grows e st2 st'" "gm_Kind m = HandlerKindStream2 \<longrightarrow> (case gm_Key m of Some t \<Rightarrow> done_type e st' t | None \<Rightarrow> True)"
    using key_collects [OF s(3)] by auto
  have "grows e st1 st'" using grows_trans r(1) q(1) by blast
  then show ?thesis
    using p r(2) q grows_trans done_type_mono response_done_mono grows_extends unfolding method_done_def by blast
qed

interpretation methods: collector no_sql_null "collect_method e k" "grows e" "method_done e" for e k
  by unfold_locales (auto intro: grows_refl grows_trans dest: method_collects method_done_mono grows_extends)

interpretation events: collector struct_type "collectType e k" "grows e" "\<lambda>st t. skipped t \<or> t \<in> set (gs_types st)" for e k
proof (unfold_locales, goal_cases)
  case (1 t s s')
  then show ?case by (auto simp: struct_type_iff intro: type_grows)
next
  case (2 t s s')
  then show ?case using collect_closes(2) by auto
next
  case (3 s)
  then show ?case by (rule grows_refl)
next
  case (4 s s' s'')
  then show ?case by (rule grows_trans)
next
  case (5 s t s')
  then show ?case using grows_extends by (auto simp: extends_def)
qed

lemma set_fold_insert: "set (fold List.insert xs ys) = set xs \<union> set ys"
  by (induction xs arbitrary: ys) auto

text \<open>A group whose types the collection looks into completely.\<close>

definition tame_method :: "gen_env \<Rightarrow> gen_method \<Rightarrow> bool" where
  "tame_method e m \<longleftrightarrow> no_sql_null m \<and> (\<forall>p\<in>set (gm_Params m). tame e no_enums (fst p)) \<and>
     (is_void m \<or> \<not> is_stream m \<and> isBlobResponse (gm_Response m) \<or> tame e no_enums (gm_Response m))"

definition tame_event :: "rtype \<Rightarrow> bool" where
  "tame_event t \<longleftrightarrow> struct_type t \<and> \<not> skipped t \<and> sanitizeTSIdent (TypeName t) \<noteq> []"

definition tame_group :: "gen_env \<Rightarrow> gen_group \<Rightarrow> bool" where
  "tame_group e g \<longleftrightarrow> list_all (tame_method e) (gg_Handlers g) \<and> list_all tame_event (gg_PushEvents g)"

definition group_covered :: "gen_env \<Rightarrow> gen_group \<Rightarrow> gstate \<Rightarrow> bool" where
  "group_covered e g st \<longleftrightarrow> closed_collection e st \<and> (\<forall>m\<in>set (gg_Handlers g). method_done e st m) \<and>
     set (gg_PushEvents g) \<subseteq> set (gs_types st)"

lemma group_collects:
  assumes "tame_group e g" "collectGroupTypes e k g empty_gstate = Some st"
  shows "group_covered e g st"
proof -
  obtain st1 st2 where s: "fold_opt (collect_method e k) (gg_Handlers g) empty_gstate = Some st1"
      "fold_opt (collectType e k) (gg_PushEvents g) st1 = Some st2"
      "st = st2\<lparr>gs_enums := fold List.insert (gg_Enums g) (gs_enums st2)\<rparr>"
    using assms(2) by (auto simp: collectGroupTypes_def bind_eq_Some_conv)
  have ok: "\<forall>m\<in>set (gg_Handlers g). no_sql_null m" "\<forall>t\<in>set (gg_PushEvents g). struct_type t \<and> \<not> skipped t"
    using assms(1) by (auto simp: tame_group_def tame_method_def tame_event_def list_all_iff)
  have m: "grows e empty_gstate st1" "\<forall>m\<in>set (gg_Handlers g). method_done e st1 m"
    using methods.fold_collects [OF s(1)] ok by auto
  have v: "grows e st1 st2" "\<forall>t\<in>set (gg_PushEvents g). t \<in> set (gs_types st2)"
    using events.fold_collects [OF s(2)] ok by auto
  have g: "grows e empty_gstate st2" using grows_trans m(1) v(1) by blast
  have more: "extends st2 st" "gs_types st = gs_types st2" using s(3) by (auto simp: extends_def set_fold_insert)
  have "closed_collection e st"
    using g more(2) done_type_mono [OF _ more(1)]
    by (auto simp: closed_collection_def grows_def closes_def all_structs_def empty_gstate_def)
  moreover have "\<forall>m\<in>set (gg_Handlers g). method_done e st m"
    using m(2) v(1) more method_done_mono grows_extends by blast
  ultimately show ?thesis using v(2) more by (auto simp: group_covered_def)
qed

section \<open>Shared types refer to shared types\<close>

definition shared_state :: "rtype list \<Rightarrow> (gen_group \<times> gstate) list \<Rightarrow> gstate" where
  "shared_state always cs = \<lparr>gs_types = sharedTypes cs, gs_enums = sharedEnums always cs\<rparr>"

lemma in_several_iff:
  "t \<in> set (in_several sel cs) \<longleftrightarrow>
     (\<exists>a\<in>set cs. \<exists>b\<in>set cs. gg_Name (fst a) \<noteq> gg_Name (fst b) \<and> t \<in> set (sel (snd a)) \<and> t \<in> set (sel (snd b)))"
proof -
  have two: "1 < length (remdups xs) \<longleftrightarrow> (\<exists>a\<in>set xs. \<exists>b\<in>set xs. a \<noteq> b)" for xs :: "string list"
  proof
    assume l: "1 < length (remdups xs)"
    then have "remdups xs ! 0 \<noteq> remdups xs ! 1"
      using nth_eq_iff_index_eq [OF distinct_remdups order.strict_trans [OF zero_less_one l] l] by simp
    moreover have "remdups xs ! 0 \<in> set xs" "remdups xs ! 1 \<in> set xs"
      using nth_mem [OF order.strict_trans [OF zero_less_one l]] nth_mem [OF l] by simp_all
    ultimately show "\<exists>a\<in>set xs. \<exists>b\<in>set xs. a \<noteq> b" by blast
  next
    assume "\<exists>a\<in>set xs. \<exists>b\<in>set xs. a \<noteq> b"
    then obtain a b where "{a, b} \<subseteq> set (remdups xs)" "a \<noteq> b" by auto
    then have "card {a, b} \<le> card (set (remdups xs))" by (intro card_mono) auto
    then show "1 < length (remdups xs)" using \<open>a \<noteq> b\<close> by (simp add: length_remdups_card_conv)
  qed
  have "t \<in> set (in_several sel cs) \<longleftrightarrow> (\<exists>c\<in>set cs. t \<in> set (sel (snd c))) \<and>
      (\<exists>x\<in>gg_Name ` fst ` {c \<in> set cs. t \<in> set (sel (snd c))}. \<exists>y\<in>gg_Name ` fst ` {c \<in> set cs. t \<in> set (sel (snd c))}. x \<noteq> y)"
    unfolding in_several_def groups_using_def set_filter mem_Collect_eq two by (auto simp: case_prod_beta)
  then show ?thesis by blast
qed

lemma done_type_both:
  assumes "a \<in> set cs" "b \<in> set cs" "gg_Name (fst a) \<noteq> gg_Name (fst b)"
  shows "done_type e s t \<Longrightarrow> s = snd a \<Longrightarrow> done_type e (snd b) t \<Longrightarrow> done_type e (shared_state always cs) t"
proof (induction e s t rule: done_type.induct)
  case (1 e s t)
  have ty: "u \<in> set (sharedTypes cs)" if "u \<in> set (gs_types (snd a))" "u \<in> set (gs_types (snd b))" for u
    using assms that unfolding sharedTypes_def in_several_iff by blast
  have en: "u \<in> set (sharedEnums always cs)" if "u \<in> set (gs_enums (snd a))" "u \<in> set (gs_enums (snd b))" for u
    using assms that in_several_iff [of u gs_enums cs] unfolding sharedEnums_def by auto
  note eqs = done_type.simps [of e _ t]
  show ?case
  proof (cases "elem_type (unptr t)")
    case None
    then show ?thesis using 1(2-4) ty en unfolding eqs by (auto simp: shared_state_def split: if_splits)
  next
    case (Some v)
    then show ?thesis using 1(1) [OF _ Some] 1(2-4) ty en unfolding eqs by (auto simp: shared_state_def split: if_splits)
  qed
qed

lemma shared_closed:
  assumes "\<forall>c\<in>set cs. closed_collection e (snd c)"
  shows "closed_collection e (shared_state always cs)"
  unfolding closed_collection_def
proof (intro ballI conjI)
  fix t
  assume "t \<in> set (gs_types (shared_state always cs))"
  then obtain a b where ab: "a \<in> set cs" "b \<in> set cs" "gg_Name (fst a) \<noteq> gg_Name (fst b)"
      "t \<in> set (gs_types (snd a))" "t \<in> set (gs_types (snd b))"
    by (auto simp: shared_state_def sharedTypes_def in_several_iff)
  then show "\<exists>n. t = RStruct n" using assms by (auto simp: closed_collection_def)
  fix u
  assume "u \<in> set (collect_targets e t)"
  then have "done_type e (snd a) u" "done_type e (snd b) u" using assms ab by (auto simp: closed_collection_def)
  then show "done_type e (shared_state always cs) u" using done_type_both [OF ab(1,2,3) _ refl] by blast
qed

section \<open>Names, declarations and imports\<close>

lemma those_map: "those (map f xs) = Some ys \<longleftrightarrow> map f xs = map Some ys"
proof (induction xs arbitrary: ys)
  case (Cons x xs)
  then show ?case by (cases ys) (auto split: option.splits)
qed auto

lemma those_image: "those (map f xs) = Some ys \<Longrightarrow> x \<in> set xs \<Longrightarrow> \<exists>y\<in>set ys. f x = Some y"
  unfolding those_map by (metis imageE imageI list.set_map)

lemma those_preimage: "those (map f xs) = Some ys \<Longrightarrow> y \<in> set ys \<Longrightarrow> \<exists>x\<in>set xs. f x = Some y"
  unfolding those_map by (metis imageE imageI list.set_map)

lemma those_project:
  "those (map f xs) = Some ys \<Longrightarrow> (\<And>x y. f x = Some y \<Longrightarrow> h y = g x) \<Longrightarrow> map h ys = map g xs"
  by (induction xs arbitrary: ys) (auto split: option.splits)

lemma ts_shape_collected: "ts_shape e (collected_info e es) t = ts_shape e no_enums t"
  by (auto simp: ts_shape_def collected_info_def no_enums_def split: option.splits)

lemma named_ref_collected: "named_ref e (collected_info e es) t = named_ref e no_enums t"
  using hasMarshalOverride_enums [of e "collected_info e es" t no_enums]
  by (auto simp: named_ref_def collected_info_def no_enums_def split: if_splits)

lemma mentions_collected: "mentions e (collected_info e es) t = mentions e no_enums t"
proof (induction t rule: measure_induct_rule [of size])
  case (less t)
  have ih: "u \<in> set (shape_parts (ts_shape e no_enums t)) \<Longrightarrow> mentions e (collected_info e es) u = mentions e no_enums u" for u
    using less ts_shape_size [OF refl] by blast
  show ?case
    using ih unfolding mentions.simps [of e _ t] ts_shape_collected named_ref_collected
    by (cases "ts_shape e no_enums t") auto
qed

lemma field_names_collected: "field_names e (collected_info e es) f = field_names e no_enums f"
  by (simp add: field_names_def mentions_collected)

lemma local_names:
  assumes "buildInterfaces e c k ts = Some (td_Interfaces d)" "td_Enums d = buildEnums e es"
  shows "set (localNames d) = ts_names e \<lparr>gs_types = ts, gs_enums = es\<rparr>"
proof -
  have i: "map (build_interface e c k) (sort_key TypeName ts) = map Some (td_Interfaces d)"
    using assms(1) by (simp add: buildInterfaces_def those_map)
  have "map (map_option if_Name) (map (build_interface e c k) (sort_key TypeName ts)) =
      map (map_option if_Name) (map Some (td_Interfaces d))"
    by (simp only: i)
  then have m: "map (\<lambda>t. map_option if_Name (build_interface e c k t)) (sort_key TypeName ts) = map (Some \<circ> if_Name) (td_Interfaces d)"
    by (simp add: comp_def)
  have "Some ` if_Name ` set (td_Interfaces d) = (\<lambda>t. map_option if_Name (build_interface e c k t)) ` set ts"
    using arg_cong [OF m, of set] by (simp add: image_image comp_def)
  also have "\<dots> = (\<lambda>t. Some (sanitizeTSIdent (TypeName t))) ` set ts"
  proof (rule image_cong [OF refl])
    fix t
    assume "t \<in> set ts"
    then have "build_interface e c k t \<in> Some ` set (td_Interfaces d)"
      using arg_cong [OF i, of set] by (metis image_eqI list.set_map set_sort)
    then show "map_option if_Name (build_interface e c k t) = Some (sanitizeTSIdent (TypeName t))"
      by (auto simp: build_interface_def map_option_case split: option.splits)
  qed
  finally have "if_Name ` set (td_Interfaces d) = (sanitizeTSIdent \<circ> TypeName) ` set ts"
    by (metis (no_types, lifting) comp_apply image_cong image_image inj_Some inj_image_eq_iff)
  moreover have "(\<lambda>i. ed_Name i @ ''Type'') ` set (td_Enums d) = enum_ts e ` {t \<in> set es. ge_enum e t \<noteq> None}"
  proof -
    have "set (List.map_filter (ge_enum e) es) = (\<lambda>t. the (ge_enum e t)) ` {t \<in> set es. ge_enum e t \<noteq> None}"
      by (auto simp: List.map_filter_def)
    then have "(\<lambda>i. ed_Name i @ ''Type'') ` set (td_Enums d) =
        (\<lambda>t. e_Name (the (ge_enum e t)) @ ''Type'') ` {t \<in> set es. ge_enum e t \<noteq> None}"
      by (simp add: assms(2) buildEnums_def enum_template_def image_image)
    also have "\<dots> = enum_ts e ` {t \<in> set es. ge_enum e t \<noteq> None}"
      by (rule image_cong [OF refl]) (auto simp: enum_ts_def)
    finally show ?thesis .
  qed
  ultimately show ?thesis by (simp add: localNames_def ts_names_def type_names_def enum_names_def)
qed

lemma interface_texts:
  assumes "buildInterfaces e (collected_info e es) k ts = Some (td_Interfaces d)" "t \<in> set ts"
  shows "\<exists>fs. flat_fields e k t = Some fs \<and>
     (\<forall>f\<in>set fs. fd_Type (field_of e (collected_info e es) f) \<in> set (scanned_texts d))"
proof -
  obtain i where i: "i \<in> set (td_Interfaces d)" "build_interface e (collected_info e es) k t = Some i"
    using those_image [of "build_interface e (collected_info e es) k" "sort_key TypeName ts" "td_Interfaces d" t] assms
    by (auto simp: buildInterfaces_def)
  then obtain fs where fs: "flat_fields e k t = Some fs" "if_Fields i = map (field_of e (collected_info e es)) fs"
    by (auto simp: build_interface_def collectInterfaceFields_flat)
  then have "fd_Type (field_of e (collected_info e es) f) \<in> set (scanned_texts d)" if "f \<in> set fs" for f
    using i(1) that by (auto simp: scanned_texts_def intro!: bexI [of _ i])
  then show ?thesis using fs(1) by blast
qed

definition imported :: "template_data \<Rightarrow> string set" where
  "imported d = \<Union> (set ` snd ` set (td_SharedImports d))"

lemma findSharedTypeImports_iff:
  "(\<exists>ns. (m, ns) \<in> set (findSharedTypeImports d decl) \<and> n \<in> set ns) \<longleftrightarrow> (n, m) \<in> set (scan_refs d decl)"
  by (force simp: findSharedTypeImports_def Let_def)

lemma reference_found:
  assumes "s \<in> set (scanned_texts d)" "delimited n s" "n \<noteq> []" "map_of decl n = Some m"
  shows "n \<in> set (localNames d) \<or> (\<exists>ns. (m, ns) \<in> set (findSharedTypeImports d decl) \<and> n \<in> set ns)"
  using assms map_of_SomeD [OF assms(4)] containsTypeName_iff [OF assms(3)]
  unfolding findSharedTypeImports_iff by (auto simp: scan_refs_def list_ex_iff)

lemma imports_subset: "(m, ns) \<in> set (findSharedTypeImports d decl) \<Longrightarrow> n \<in> set ns \<Longrightarrow> (n, m) \<in> set decl"
  using findSharedTypeImports_iff [of m d decl n] by (auto simp: scan_refs_def)

lemma map_of_declare:
  "map_of (declare_names sf decl) n =
     (if n \<in> set (localNames (sf_data sf)) then Some (module_of (sf_base sf)) else map_of decl n)"
proof -
  have "map_of (fold (\<lambda>n. AList.update n v) ns al) n = (if n \<in> set ns then Some v else map_of al n)" for ns al and v :: string
    by (induction ns arbitrary: al) (auto simp: update_conv')
  then show ?thesis by (simp add: declare_names_def)
qed

lemma distinct_declared: "distinct (map fst (sharedTypeNames sfs))"
proof -
  have one: "distinct (map fst al) \<Longrightarrow> distinct (map fst (fold (\<lambda>n. AList.update n v) ns al))" for ns al and v :: string
    by (induction ns arbitrary: al) (auto simp: distinct_update)
  have "distinct (map fst al) \<Longrightarrow> distinct (map fst (fold declare_names sfs al))" for al
    by (induction sfs arbitrary: al) (auto simp: declare_names_def one)
  then show ?thesis by (simp add: sharedTypeNames_def)
qed

lemma declared_iff:
  "map_of (sharedTypeNames sfs) n \<noteq> None \<longleftrightarrow> (\<exists>sf\<in>set sfs. n \<in> set (localNames (sf_data sf)))"
  "map_of (sharedTypeNames sfs) n = Some m \<Longrightarrow>
     \<exists>sf\<in>set sfs. m = module_of (sf_base sf) \<and> n \<in> set (localNames (sf_data sf))"
proof -
  have a: "map_of (fold declare_names sfs al) n \<noteq> None \<longleftrightarrow>
      (\<exists>sf\<in>set sfs. n \<in> set (localNames (sf_data sf))) \<or> map_of al n \<noteq> None" for al
    by (induction sfs arbitrary: al) (auto simp: map_of_declare)
  have b: "map_of (fold declare_names sfs al) n = Some m \<Longrightarrow>
      (\<exists>sf\<in>set sfs. m = module_of (sf_base sf) \<and> n \<in> set (localNames (sf_data sf))) \<or> map_of al n = Some m" for al
    by (induction sfs arbitrary: al) (fastforce simp: map_of_declare split: if_splits)+
  show "map_of (sharedTypeNames sfs) n \<noteq> None \<longleftrightarrow> (\<exists>sf\<in>set sfs. n \<in> set (localNames (sf_data sf)))"
    using a [of "[]"] by (simp add: sharedTypeNames_def)
  show "\<exists>sf\<in>set sfs. m = module_of (sf_base sf) \<and> n \<in> set (localNames (sf_data sf))"
    if "map_of (sharedTypeNames sfs) n = Some m" using b [of "[]"] that by (simp add: sharedTypeNames_def)
qed

section \<open>Every name a file uses is declared or imported\<close>

text \<open>The names in the type expressions of a file; the keys of \<open>iter.Seq2\<close> are not scanned for imports.\<close>

definition type_refs :: "gen_env \<Rightarrow> nat \<Rightarrow> rtype \<Rightarrow> string list" where
  "type_refs e k t = concat (map (field_names e no_enums) (case flat_fields e k t of Some fs \<Rightarrow> fs | None \<Rightarrow> []))"

definition method_refs :: "gen_env \<Rightarrow> gen_method \<Rightarrow> string list" where
  "method_refs e m =
     (if is_void m \<or> \<not> is_stream m \<and> isBlobResponse (gm_Response m) then [] else mentions e no_enums (gm_Response m)) @
     concat (map (mentions e no_enums \<circ> fst) (gm_Params m))"

definition handler_refs :: "gen_env \<Rightarrow> nat \<Rightarrow> handler_file \<Rightarrow> string list" where
  "handler_refs e k hf =
     concat (map (type_refs e k) (hf_types hf)) @ concat (map (method_refs e) (gg_Handlers (hf_group hf))) @
     map (sanitizeTSIdent \<circ> TypeName) (gg_PushEvents (hf_group hf))"

definition available :: "template_data \<Rightarrow> string set" where
  "available d = set (localNames d) \<union> imported d"

definition imports_resolve :: "client_plan \<Rightarrow> template_data \<Rightarrow> bool" where
  "imports_resolve p d \<longleftrightarrow>
     (\<forall>(m, ns)\<in>set (td_SharedImports d). \<forall>n\<in>set ns. \<exists>sf\<in>set (cp_shared p).
        m = module_of (sf_base sf) \<and> n \<in> set (localNames (sf_data sf)))"

lemma reference_available:
  assumes "s \<in> set (scanned_texts d)" "delimited n s" "n \<noteq> []" "map_of decl n \<noteq> None \<or> n \<in> set (localNames d)"
    "set (localNames d') = set (localNames d)" "td_SharedImports d' = findSharedTypeImports d decl"
  shows "n \<in> available d'"
proof (cases "n \<in> set (localNames d)")
  case False
  then obtain m where "map_of decl n = Some m" using assms(4) by blast
  from reference_found [OF assms(1-3) this] show ?thesis
    using False assms(5,6) by (force simp: available_def imported_def)
qed (simp add: available_def assms(5))

lemma method_texts:
  assumes "m \<in> set (gg_Handlers g)" "n \<in> set (method_refs e m)"
    "td_Methods d = map (buildMethodData e op (collected_info e es) nm) (sort_key gm_Name (gg_Handlers g))"
  shows "\<exists>s\<in>set (scanned_texts d). delimited n s"
proof -
  let ?c = "collected_info e es" and ?md = "buildMethodData e op (collected_info e es) nm m"
  have md: "?md \<in> set (td_Methods d)" using assms(1,3) by simp
  consider (resp) "\<not> is_void m" "\<not> (\<not> is_stream m \<and> isBlobResponse (gm_Response m))" "n \<in> set (mentions e no_enums (gm_Response m))"
    | (param) p where "p \<in> set (gm_Params m)" "n \<in> set (mentions e no_enums (fst p))"
    using assms(2) by (auto simp: method_refs_def split: if_splits)
  then show ?thesis
  proof cases
    case resp
    then have "md_ResponseType ?md = goTypeToTS e ?c (gm_Response m)" by (auto simp: buildMethodData_def)
    moreover have "delimited n (goTypeToTS e ?c (gm_Response m))"
      using resp(3) mentions_in_text mentions_collected by metis
    ultimately show ?thesis using md by (force simp: scanned_texts_def)
  next
    case param
    then obtain i where i: "i < length (gm_Params m)" "gm_Params m ! i = p" by (auto simp: in_set_conv_nth)
    let ?pd = "build_param e ?c (go_paramNames op nm (gm_Name m)) (i, p)"
    have "(i, p) \<in> set (zip [0..<length (gm_Params m)] (gm_Params m))" using i by (auto simp: set_zip intro!: exI [of _ i])
    then have pd: "?pd \<in> set (md_Params ?md)" by (auto simp: buildMethodData_def buildParamData_def)
    have "delimited n (goTypeToTS e ?c (fst p))" using param(2) mentions_in_text mentions_collected by metis
    then have "delimited n (pd_Type ?pd)" by (cases p) (auto simp: build_param_def intro: delimited_right)
    then show ?thesis using md pd by (auto simp: scanned_texts_def)
  qed
qed

lemma method_refs_covered:
  assumes "tame_env e no_enums" "tame_method e m" "method_done e st m"
  shows "set (method_refs e m) \<subseteq> ts_names e st - {[]}"
proof -
  have en: "enums_ok e no_enums" using assms(1) by (simp add: tame_env_def)
  have p: "set (mentions e no_enums (fst p)) \<subseteq> ts_names e st - {[]}" if "p \<in> set (gm_Params m)" for p
    using mentions_covered [OF en] assms(2,3) that by (simp add: tame_method_def method_done_def)
  have "set (mentions e no_enums (gm_Response m)) \<subseteq> ts_names e st - {[]}"
    if "\<not> is_void m" "\<not> (\<not> is_stream m \<and> isBlobResponse (gm_Response m))"
  proof (rule mentions_covered [OF en])
    show "tame e no_enums (gm_Response m)" using that assms(2) by (auto simp: tame_method_def)
    show "done_type e st (gm_Response m)"
    proof (cases "struct_type (gm_Response m) \<and> gm_Response m \<noteq> voidResponseType")
      case True
      then obtain k where k: "gm_Response m = RStruct k" by (auto simp: struct_type_iff)
      then have "ge_enum e (RStruct k) = None" using en by (simp add: enums_ok_def is_struct_kind_def)
      then show ?thesis
        using assms(3) True k by (auto simp: method_done_def response_done_def done_type.simps [of e st "RStruct k"] is_struct_kind_def)
    qed (use assms(3) in \<open>auto simp: method_done_def response_done_def\<close>)
  qed
  then show ?thesis using p unfolding method_refs_def by auto
qed

text \<open>What the passes have in common: the collections of the groups, and the shared names.\<close>

lemma shared_files:
  assumes "those (map (shared_data e op base (sharedTypes cs) (sharedEnums al cs)) (sortedPkgs (sharedTypes cs) (sharedEnums al cs))) = Some sfs"
  shows "ts_names e (shared_state al cs) = {n. map_of (sharedTypeNames sfs) n \<noteq> None}"
    and "sf \<in> set sfs \<Longrightarrow> \<exists>pes. buildInterfaces e (collected_info e pes) (go_depth op) (sf_types sf) = Some (td_Interfaces (sf_data sf)) \<and>
      set (sf_types sf) \<subseteq> set (sharedTypes cs)"
proof -
  let ?ts = "sharedTypes cs" and ?es = "sharedEnums al cs"
  let ?part = "\<lambda>pkg. \<lparr>gs_types = filter (\<lambda>t. type_pkg t = pkg) ?ts, gs_enums = filter (\<lambda>t. type_pkg t = pkg) ?es\<rparr>"
  have one: "set (localNames (sf_data sf)) = ts_names e (?part pkg)" if "shared_data e op base ?ts ?es pkg = Some sf" for pkg sf
    using that by (intro local_names [where k = "go_depth op"]) (auto simp: shared_data_def Let_def)
  have "n \<in> ts_names e (shared_state al cs) \<longleftrightarrow> (\<exists>pkg\<in>set (sortedPkgs ?ts ?es). n \<in> ts_names e (?part pkg))" for n
    by (auto simp: ts_names_def type_names_def enum_names_def shared_state_def sortedPkgs_def)
  also have "\<dots> n \<longleftrightarrow> (\<exists>sf\<in>set sfs. n \<in> set (localNames (sf_data sf)))" for n
    using one those_image [OF assms] those_preimage [OF assms] by blast
  finally show "ts_names e (shared_state al cs) = {n. map_of (sharedTypeNames sfs) n \<noteq> None}"
    using declared_iff(1) by blast
  assume "sf \<in> set sfs"
  then obtain pkg where "shared_data e op base ?ts ?es pkg = Some sf" using those_preimage [OF assms] by blast
  then show "\<exists>pes. buildInterfaces e (collected_info e pes) (go_depth op) (sf_types sf) = Some (td_Interfaces (sf_data sf)) \<and>
      set (sf_types sf) \<subseteq> set ?ts"
    by (auto simp: shared_data_def Let_def)
qed

lemma plan_parts:
  assumes "plan_files e op r = Some p"
  obtains cs sfs where "collect_groups e (go_depth op) (gr_groups r) = Some cs"
    "those (map (shared_data e op (pkgBase (map (go_FileName op \<circ> gg_Name) (clientGroups (gr_groups r))) (gr_reserved r))
        (sharedTypes cs) (sharedEnums (gr_SharedEnums r) cs))
        (sortedPkgs (sharedTypes cs) (sharedEnums (gr_SharedEnums r) cs))) = Some sfs"
    "those (map (handler_data e op (gr_errorCodes r) (sharedTypes cs) (sharedEnums (gr_SharedEnums r) cs)
        (sharedTypeNames sfs)) cs) = Some (cp_handlers p)"
    "cp_shared p = map (resolve_imports (sharedTypeNames sfs)) sfs"
  using assms by (auto simp: plan_files_def bind_eq_Some_conv Let_def)

lemma shared_names_available:
  assumes env: "tame_env e no_enums" and closed: "\<forall>c\<in>set cs. closed_collection e (snd c)"
    and sfs: "those (map (shared_data e op base (sharedTypes cs) (sharedEnums al cs)) (sortedPkgs (sharedTypes cs) (sharedEnums al cs))) = Some sfs"
    and sf: "sf \<in> set sfs" and t: "t \<in> set (sf_types sf)"
  shows "set (type_refs e (go_depth op) t) \<subseteq> available (sf_data (resolve_imports (sharedTypeNames sfs) sf))"
proof
  fix n
  assume n: "n \<in> set (type_refs e (go_depth op) t)"
  let ?names = "sharedTypeNames sfs" and ?d = "sf_data sf"
  obtain pes where pes: "buildInterfaces e (collected_info e pes) (go_depth op) (sf_types sf) = Some (td_Interfaces ?d)"
      "set (sf_types sf) \<subseteq> set (sharedTypes cs)"
    using shared_files(2) [OF sfs sf] by blast
  obtain fs where fs: "flat_fields e (go_depth op) t = Some fs"
      "\<forall>f\<in>set fs. fd_Type (field_of e (collected_info e pes) f) \<in> set (scanned_texts ?d)"
    using interface_texts [OF pes(1) t] by blast
  then obtain f where f: "f \<in> set fs" "n \<in> set (field_names e no_enums f)" using n by (auto simp: type_refs_def)
  have "t \<in> set (gs_types (shared_state al cs))" using t pes(2) by (auto simp: shared_state_def)
  then have cov: "n \<in> ts_names e (shared_state al cs) - {[]}"
    using interface_covered [OF env shared_closed [OF closed] _ fs(1) f(1)] f(2) by blast
  have dl: "delimited n (fd_Type (field_of e (collected_info e pes) f))"
    using f(2) field_names_in_text field_names_collected by metis
  have "map_of ?names n \<noteq> None" using cov shared_files(1) [OF sfs] by blast
  then obtain m where m: "map_of ?names n = Some m" by blast
  have "map_of (scoped_names ?names sf) n \<noteq> None \<or> n \<in> set (localNames ?d)"
  proof (cases "n \<in> set (localNames ?d)")
    case False
    then have "(n, m) \<in> set (scoped_names ?names sf)" using map_of_SomeD [OF m] by (simp add: scoped_names_def)
    then have "n \<in> fst ` set (scoped_names ?names sf)" by force
    then show ?thesis by (simp add: map_of_eq_None_iff)
  qed simp
  then show "n \<in> available (sf_data (resolve_imports ?names sf))"
    using cov dl fs(2) f(1)
    by (intro reference_available [where d = ?d]) (auto simp: resolve_imports_def localNames_def)
qed

lemma handler_names_available:
  assumes env: "tame_env e no_enums" and g: "tame_group e g" "group_covered e g st"
    and sfs: "those (map (shared_data e op base (sharedTypes cs) (sharedEnums al cs)) (sortedPkgs (sharedTypes cs) (sharedEnums al cs))) = Some sfs"
    and hf: "handler_data e op codes (sharedTypes cs) (sharedEnums al cs) (sharedTypeNames sfs) (g, st) = Some hf"
  shows "set (handler_refs e (go_depth op) hf) \<subseteq> available (hf_data hf)"
proof
  fix n
  assume n: "n \<in> set (handler_refs e (go_depth op) hf)"
  let ?names = "sharedTypeNames sfs"
  let ?st = "\<lparr>gs_types = filter (\<lambda>t. t \<notin> set (sharedTypes cs)) (gs_types st),
     gs_enums = filter (\<lambda>t. t \<notin> set (sharedEnums al cs)) (gs_enums st)\<rparr>"
  let ?c = "collected_info e (gs_enums ?st)"
  obtain d where d: "buildTemplateData e op codes ?st g = Some d" "hf_group hf = g" "hf_types hf = gs_types ?st"
      "hf_data hf = d\<lparr>td_BaseTypeImports := findBaseTypeImports d [], td_SharedImports := findSharedTypeImports d ?names\<rparr>"
    using hf by (auto simp: handler_data_def Let_def split: option.splits)
  have td: "buildInterfaces e ?c (go_depth op) (gs_types ?st) = Some (td_Interfaces d)" "td_Enums d = buildEnums e (gs_enums ?st)"
      "td_Methods d = map (buildMethodData e op ?c (gg_Name g)) (sort_key gm_Name (gg_Handlers g))"
      "td_PushEvents d = map (build_event op) (gg_PushEvents g)"
    using d(1) by (auto simp: buildTemplateData_def Let_def)
  have loc: "set (localNames d) = ts_names e ?st"
    using local_names [OF td(1,2)] by simp
  have cov: "map_of ?names n \<noteq> None \<or> n \<in> set (localNames d)" if "n \<in> ts_names e st"
  proof -
    have "ts_names e st \<subseteq> ts_names e ?st \<union> ts_names e (shared_state al cs)"
      by (auto simp: ts_names_def type_names_def enum_names_def shared_state_def)
    then show ?thesis using that loc shared_files(1) [OF sfs] by blast
  qed
  have avail: "n \<in> available (hf_data hf)"
    if "s \<in> set (scanned_texts d)" "delimited n s" "n \<in> ts_names e st - {[]}" for s
    using that cov d(4) by (intro reference_available [where d = d]) (auto simp: localNames_def)
  consider (field) t f fs where "t \<in> set (gs_types ?st)" "flat_fields e (go_depth op) t = Some fs" "f \<in> set fs"
      "n \<in> set (field_names e no_enums f)"
    | (meth) m where "m \<in> set (gg_Handlers g)" "n \<in> set (method_refs e m)"
    | (event) t where "t \<in> set (gg_PushEvents g)" "n = sanitizeTSIdent (TypeName t)"
    using n d(2,3) by (auto simp: handler_refs_def type_refs_def split: option.splits dest: sym [of "Some _"])
  then show "n \<in> available (hf_data hf)"
  proof cases
    case field
    have "fd_Type (field_of e ?c f) \<in> set (scanned_texts d)" using interface_texts [OF td(1) field(1)] field(2,3) by auto
    moreover have "delimited n (fd_Type (field_of e ?c f))"
      using field(4) field_names_in_text field_names_collected by metis
    moreover have "n \<in> ts_names e st - {[]}"
      using interface_covered [OF env _ _ field(2,3)] g(2) field(1,4) by (auto simp: group_covered_def)
    ultimately show ?thesis using avail by blast
  next
    case meth
    obtain s where "s \<in> set (scanned_texts d)" "delimited n s" using method_texts [OF meth td(3)] by blast
    moreover have "n \<in> ts_names e st - {[]}"
      using method_refs_covered [OF env, of m st] g meth by (auto simp: tame_group_def group_covered_def list_all_iff)
    ultimately show ?thesis using avail by blast
  next
    case event
    have "n \<in> set (scanned_texts d)" using event td(4) by (auto simp: scanned_texts_def build_event_def)
    moreover have "n \<in> ts_names e st - {[]}"
      using event g by (auto simp: group_covered_def tame_group_def tame_event_def list_all_iff ts_names_def type_names_def)
    ultimately show ?thesis using avail delimited_self by blast
  qed
qed

lemma imports_resolved:
  assumes "td_SharedImports d = findSharedTypeImports d' decl" "set decl \<subseteq> set (sharedTypeNames sfs)"
    "cp_shared p = map (resolve_imports (sharedTypeNames sfs)) sfs"
  shows "imports_resolve p d"
  unfolding imports_resolve_def
proof (clarify)
  fix m ns n
  assume "(m, ns) \<in> set (td_SharedImports d)" "n \<in> set ns"
  then have "(n, m) \<in> set (sharedTypeNames sfs)" using imports_subset [of m ns d' decl n] assms(1,2) by auto
  then have "map_of (sharedTypeNames sfs) n = Some m" using distinct_declared [of sfs] by simp
  then obtain sf where "sf \<in> set sfs" "m = module_of (sf_base sf)" "n \<in> set (localNames (sf_data sf))"
    using declared_iff(2) by blast
  then show "\<exists>sf\<in>set (cp_shared p). m = module_of (sf_base sf) \<and> n \<in> set (localNames (sf_data sf))"
    by (force simp: assms(3) resolve_imports_def localNames_def)
qed


text \<open>Two groups that share a type, which refers to another one.\<close>

definition demo_field :: "string \<Rightarrow> rtype \<Rightarrow> rfield" where
  "demo_field n t = \<lparr>rf_name = n, rf_exported = True, rf_anonymous = False, rf_json = [], rf_validate = [], rf_type = t\<rparr>"

definition demo_user :: rtype where
  "demo_user = RStruct (''app/api'', ''User'')"

definition demo_team :: rtype where
  "demo_team = RStruct (''app/api'', ''Team'')"

definition demo_gen :: gen_env where
  "demo_gen = plain_env (\<lambda>n. if n = (''app/api'', ''Team'') then [demo_field ''Members'' (RSlice ([], []) (RPtr demo_user))] else [])"

definition demo_group :: "string \<Rightarrow> gen_group" where
  "demo_group n = \<lparr>gg_Name = n, gg_socket = True,
     gg_Handlers = [\<lparr>gm_Name = ''Get'', gm_Kind = HandlerKindUnary, gm_Response = RPtr demo_team, gm_Key = None, gm_Params = []\<rparr>],
     gg_PushEvents = [], gg_Enums = []\<rparr>"

definition demo_registry :: gen_registry where
  "demo_registry = \<lparr>gr_groups = [demo_group ''Admin'', demo_group ''Api''], gr_SharedEnums = [], gr_reserved = [], gr_errorCodes = []\<rparr>"

definition demo_options :: gen_options where
  "demo_options = \<lparr>go_FileName = toKebab, go_MethodName = toLowerCamel, go_HookName = (@) ''use'', go_HandlerName = (@) ''on'',
     go_ErrorMethodName = (@) ''is'', go_paramNames = (\<lambda>_ _. []), go_Zod = False, go_depth = 9\<rparr>"

lemma demo_plan:
  "map_option (\<lambda>p. (map (\<lambda>sf. (td_StructName (sf_data sf), sf_base sf, localNames (sf_data sf))) (cp_shared p),
      map (\<lambda>hf. (td_FileName (hf_data hf), td_SharedImports (hf_data hf))) (cp_handlers p)))
     (plan_files demo_gen demo_options demo_registry) =
   Some ([(''api'', ''api.types'', [''Team'', ''User''])],
     [(''admin.ts'', [(''./api.types'', [''Team''])]), (''api.ts'', [(''./api.types'', [''Team''])])])"
  by code_simp

lemma demo_tame: "tame_env demo_gen no_enums"
proof -
  have "enums_ok demo_gen no_enums" by (simp add: enums_ok_def demo_gen_def plain_env_def no_enums_def)
  moreover have "tame demo_gen no_enums (RSlice ([], []) (RPtr demo_user))" by code_simp
  then have "tame_field demo_gen no_enums (''app/api'', ''Team'') (demo_field ''Members'' (RSlice ([], []) (RPtr demo_user)))"
    by (simp add: tame_field_def demo_field_def effectiveFieldType_def demo_gen_def plain_env_def)
  then have "\<forall>n. \<forall>f\<in>set (ge_fields demo_gen n). tame_field demo_gen no_enums n f"
    by (simp add: demo_gen_def plain_env_def)
  ultimately show ?thesis by (simp add: tame_env_def)
qed

lemma demo_groups: "list_all (tame_group demo_gen) (clientGroups (gr_groups demo_registry))"
  by code_simp


section \<open>File names\<close>

text \<open>The names of the files without \<open>.ts\<close>.\<close>

definition handler_stems :: "gen_options \<Rightarrow> handler_file \<Rightarrow> string list" where
  "handler_stems op hf =
     (let fn = go_FileName op (gg_Name (hf_group hf)) in fn # (if hf_schemas hf = [] then [] else [fn @ ''.schema'']))"

lemma plan_shape:
  assumes "plan_files e op r = Some p"
  shows "map (gg_Name \<circ> hf_group) (cp_handlers p) = map gg_Name (clientGroups (gr_groups r))"
    and "map fst (plan_writes op r p) =
      map (\<lambda>s. s @ ''.ts'') (map sf_base (cp_shared p) @ concat (map (handler_stems op) (cp_handlers p)) @ [''client''])"
    and "\<exists>pkgs. distinct pkgs \<and> map (td_StructName \<circ> sf_data) (cp_shared p) = pkgs \<and>
      map sf_base (cp_shared p) =
        map (pkgBase (map (go_FileName op \<circ> gg_Name) (clientGroups (gr_groups r))) (gr_reserved r)) pkgs"
proof -
  let ?base = "pkgBase (map (go_FileName op \<circ> gg_Name) (clientGroups (gr_groups r))) (gr_reserved r)"
  obtain cs sfs where parts: "collect_groups e (go_depth op) (gr_groups r) = Some cs"
    "those (map (shared_data e op ?base (sharedTypes cs) (sharedEnums (gr_SharedEnums r) cs))
        (sortedPkgs (sharedTypes cs) (sharedEnums (gr_SharedEnums r) cs))) = Some sfs"
    "those (map (handler_data e op (gr_errorCodes r) (sharedTypes cs) (sharedEnums (gr_SharedEnums r) cs)
        (sharedTypeNames sfs)) cs) = Some (cp_handlers p)"
    "cp_shared p = map (resolve_imports (sharedTypeNames sfs)) sfs"
    using plan_parts [OF assms] .
  define ts where "ts = sharedTypes cs"
  define es where "es = sharedEnums (gr_SharedEnums r) cs"
  define pkgs where "pkgs = sortedPkgs ts es"
  define hfs where "hfs = cp_handlers p"
  note cs = parts(1) and sfs = parts(2) [folded ts_def es_def, folded pkgs_def]
    and hfs = parts(3) [folded ts_def es_def hfs_def] and p = parts(4) hfs_def [symmetric]
  have pkgs: "distinct pkgs" by (simp add: pkgs_def sortedPkgs_def)
  have g: "map fst cs = map (\<lambda>g. g) (clientGroups (gr_groups r))"
    by (rule those_project [OF cs [unfolded collect_groups_def]]) auto
  then have g': "map fst cs = clientGroups (gr_groups r)" by simp
  have one: "hf_group hf = fst c \<and> td_FileName (hf_data hf) = go_FileName op (gg_Name (fst c)) @ ''.ts''"
    if "handler_data e op (gr_errorCodes r) ts es (sharedTypeNames sfs) c = Some hf" for c hf
    using that by (cases c) (auto simp: handler_data_def buildTemplateData_def Let_def split: option.splits)
  have "map (gg_Name \<circ> hf_group) hfs = map (gg_Name \<circ> fst) cs"
    by (rule those_project [OF hfs]) (simp add: one)
  then show "map (gg_Name \<circ> hf_group) (cp_handlers p) = map gg_Name (clientGroups (gr_groups r))"
    unfolding p(2) g' [symmetric] by simp
  have shared: "sf_base sf = ?base pkg \<and> td_StructName (sf_data sf) = pkg \<and> td_FileName (sf_data sf) = ?base pkg @ ''.ts''"
    if "shared_data e op ?base ts es pkg = Some sf" for pkg sf
    using that by (auto simp: shared_data_def Let_def)
  have s: "map sf_base sfs = map ?base pkgs" "map (td_StructName \<circ> sf_data) sfs = map (\<lambda>pkg. pkg) pkgs"
    "map (td_FileName \<circ> sf_data) sfs = map (\<lambda>pkg. ?base pkg @ ''.ts'') pkgs"
    by (rule those_project [OF sfs]; simp add: shared)+
  then show "\<exists>pkgs. distinct pkgs \<and> map (td_StructName \<circ> sf_data) (cp_shared p) = pkgs \<and> map sf_base (cp_shared p) = map ?base pkgs"
    using pkgs p(1) by (auto simp: resolve_imports_def comp_def)
  have h: "map fst (handler_writes hf) = map (\<lambda>s. s @ ''.ts'') (handler_stems op hf)" if hf: "hf \<in> set hfs" for hf
  proof -
    obtain c where "handler_data e op (gr_errorCodes r) ts es (sharedTypeNames sfs) c = Some hf"
      using those_preimage [OF hfs hf] by blast
    then have "td_FileName (hf_data hf) = go_FileName op (gg_Name (hf_group hf)) @ ''.ts''" using one by simp
    then show ?thesis by (simp add: handler_writes_def handler_stems_def Let_def TrimSuffix_def suffix_def)
  qed
  have base: "map sf_base (cp_shared p) = map ?base pkgs" using s(1) p(1) by (simp add: resolve_imports_def comp_def)
  have "map (td_FileName \<circ> sf_data) (cp_shared p) = map (td_FileName \<circ> sf_data) sfs"
    using p(1) by (simp add: resolve_imports_def)
  then have "map (td_FileName \<circ> sf_data) (cp_shared p) = map (\<lambda>s. s @ ''.ts'') (map sf_base (cp_shared p))"
    unfolding s(3) base by simp
  moreover have "map fst (concat (map handler_writes hfs)) = map (\<lambda>s. s @ ''.ts'') (concat (map (handler_stems op) hfs))"
    using h by (simp add: map_concat comp_def cong: map_cong)
  ultimately show "map fst (plan_writes op r p) =
      map (\<lambda>s. s @ ''.ts'') (map sf_base (cp_shared p) @ concat (map (handler_stems op) (cp_handlers p)) @ [''client''])"
    using p(2) by (simp add: plan_writes_def comp_def)
qed

lemma no_dot_suffix: "dot_free a \<Longrightarrow> a \<noteq> b @ CHR ''.'' # c"
  by (auto simp: dot_free_def)

lemma handler_stems_distinct:
  assumes "distinct (map (\<lambda>hf. go_FileName op (gg_Name (hf_group hf))) hfs)"
    "list_all (\<lambda>hf. dot_free (go_FileName op (gg_Name (hf_group hf)))) hfs"
  shows "distinct (concat (map (handler_stems op) hfs))"
  using assms
proof (induction hfs)
  case (Cons hf hfs)
  let ?fn = "\<lambda>hf. go_FileName op (gg_Name (hf_group hf))"
  have "set (handler_stems op hf) \<inter> set (handler_stems op h) = {}" if "h \<in> set hfs" for h
  proof -
    have "?fn hf \<noteq> ?fn h" "dot_free (?fn hf)" "dot_free (?fn h)" using Cons.prems that by (auto simp: list_all_iff)
    then show ?thesis using no_dot_suffix [of "?fn hf" "?fn h"] no_dot_suffix [of "?fn h" "?fn hf"]
      by (auto simp: handler_stems_def Let_def)
  qed
  moreover have "distinct (handler_stems op hf)" by (auto simp: handler_stems_def Let_def)
  ultimately show ?case using Cons by auto
qed simp



text \<open>The base client is written last, so the client of a group called \<open>Client\<close> is lost.\<close>

lemma client_group_overwritten:
  assumes "plan_files e op r = Some p" "validateErrorCodes op (gr_errorCodes r) = []"
  shows "\<exists>res. Generate e op r [] = Some (Inr res) \<and>
    map_of res ''client.ts'' = Some (BaseClient (buildCustomErrorCodes op (gr_errorCodes r)))"
  using assms by (simp add: Generate_def plan_writes_def update_conv')

text \<open>The search for imports never looks at the key type of a stream of pairs.\<close>

lemma imports_ignore_keys:
  "findSharedTypeImports (d\<lparr>td_Methods := map (\<lambda>m. m\<lparr>md_ItemKeyType := key m\<rparr>) (td_Methods d)\<rparr>) decl =
   findSharedTypeImports d decl"
  by (simp add: findSharedTypeImports_def scan_refs_def scanned_texts_def localNames_def comp_def)

definition group_types :: "gen_group \<Rightarrow> rtype list" where
  "group_types g =
     concat (map (\<lambda>m. gm_Response m # map fst (gm_Params m) @ (case gm_Key m of Some t \<Rightarrow> [t] | None \<Rightarrow> [])) (gg_Handlers g)) @
     gg_PushEvents g"

lemma fold_opt_ends: "(\<And>x s. x \<in> set xs \<Longrightarrow> step x s \<noteq> None) \<Longrightarrow> fold_opt step xs s \<noteq> None"
  by (induction xs arbitrary: s) (auto split: option.splits)

text \<open>
  The collection of the types of a group ends: if the structs that its types reach through
  their fields are finitely many, with type expressions of bounded size, a nesting depth of the size
  of that set is enough, also for types that refer to themselves.
\<close>

theorem group_collection_ends:
  assumes "universe e U m" "\<forall>t\<in>set (group_types g). size t \<le> m \<and> set (struct_parts t) \<subseteq> U"
    "set (gg_PushEvents g) \<subseteq> U" "Suc (m + card U * (m + 2)) < k"
  shows "collectGroupTypes e k g st \<noteq> None"
proof -
  have room: "room U m s \<le> card U * (m + 2)" for s
    unfolding room_def by (intro mult_le_mono1 card_mono) (use assms(1) in \<open>auto simp: universe_def\<close>)
  have nested: "collectNestedType e k t s \<noteq> None" if t: "t \<in> set (group_types g)" for t s
    using collect_ends(1) [OF assms(1), of t s k] assms(2,4) t room [of s] by fastforce
  have whole: "collectType e k t s \<noteq> None" if "t \<in> U" for t s
    using collect_ends(2) [OF assms(1) that, of s k] assms(4) room [of s] by linarith
  have part: "t \<in> set (group_types g)" if "x \<in> set (gg_Handlers g)"
      "t = gm_Response x \<or> t \<in> fst ` set (gm_Params x) \<or> gm_Key x = Some t" for x t
  proof -
    have "t \<in> set (gm_Response x # map fst (gm_Params x) @ (case gm_Key x of Some t \<Rightarrow> [t] | None \<Rightarrow> []))" using that(2) by auto
    then show ?thesis using that(1) unfolding group_types_def set_append set_concat set_map by blast
  qed
  have response: "collect_response e k (gm_Response x) s \<noteq> None" if x: "x \<in> set (gg_Handlers g)" for x s
  proof (cases "is_struct_kind (gm_Response x) \<and> gm_Response x \<noteq> voidResponseType")
    case True
    then have "unptr (gm_Response x) = gm_Response x" by (cases "gm_Response x") (auto simp: is_struct_kind_def)
    then have "gm_Response x \<in> U"
      using assms(2) part [OF x, of "gm_Response x"] True by (auto simp: struct_parts.simps [of "gm_Response x"])
    then show ?thesis using whole True by (simp add: collect_response_def)
  qed (use nested part [OF x] in \<open>auto simp: collect_response_def\<close>)
  have handler: "collect_method e k x s \<noteq> None" if x: "x \<in> set (gg_Handlers g)" for x s
  proof -
    obtain s1 where s1: "fold_opt (collectNestedType e k) (map fst (gm_Params x)) s = Some s1"
      using fold_opt_ends [of "map fst (gm_Params x)" "collectNestedType e k" s] nested part [OF x] by auto
    obtain s2 where s2: "collect_response e k (gm_Response x) s1 = Some s2" using response [OF x, of s1] by blast
    have "collect_key e k x s2 \<noteq> None"
      using nested part [OF x] by (auto simp: collect_key_def split: option.splits)
    then show ?thesis using s1 s2 by (simp add: collect_method_def)
  qed
  obtain s1 where s1: "fold_opt (collect_method e k) (gg_Handlers g) st = Some s1"
    using fold_opt_ends [of "gg_Handlers g" "collect_method e k" st] handler by auto
  have "fold_opt (collectType e k) (gg_PushEvents g) s1 \<noteq> None"
    using fold_opt_ends [of "gg_PushEvents g" "collectType e k" s1] whole assms(3) by blast
  then show ?thesis using s1 by (auto simp: collectGroupTypes_def)
qed

theorem group_collection_ends_witness: "collectGroupTypes demo_gen 30 (demo_group ''Api'') empty_gstate \<noteq> None"
proof (rule group_collection_ends [where U = "{demo_team, demo_user}" and m = 4])
  have "collect_targets demo_gen demo_team = [RSlice ([], []) (RPtr demo_user)]" "collect_targets demo_gen demo_user = []"
    by code_simp+
  moreover have "struct_parts (RSlice ([], []) (RPtr demo_user)) = [demo_user]" by code_simp
  ultimately show "universe demo_gen {demo_team, demo_user} 4" by (simp add: universe_def demo_user_def)
  have "struct_parts (RPtr demo_team) = [demo_team]" by code_simp
  then show "\<forall>t\<in>set (group_types (demo_group ''Api'')). size t \<le> 4 \<and> set (struct_parts t) \<subseteq> {demo_team, demo_user}"
    by (simp add: group_types_def demo_group_def demo_team_def)
  show "set (gg_PushEvents (demo_group ''Api'')) \<subseteq> {demo_team, demo_user}" by (simp add: demo_group_def)
  have "card {demo_team, demo_user} \<le> 2" by (simp add: card_insert_le_m1)
  then show "Suc (4 + card {demo_team, demo_user} * (4 + 2)) < 30" by simp
qed

section \<open>Stale files\<close>

definition blocking :: "string list \<Rightarrow> dir_entry \<Rightarrow> bool" where
  "blocking written d \<longleftrightarrow> is_stale written d \<and> \<not> de_removable d"

text \<open>
  Cleaning up removes exactly the generated TypeScript files of earlier runs, up to the first
  one that the system refuses to remove; directories, files of this run and files without the marker
  stay.
\<close>

theorem stale_files_removed:
  "removeStaleFiles written ds =
     (filter (\<lambda>d. \<not> is_stale written d) (takeWhile (\<lambda>d. \<not> blocking written d) ds) @ dropWhile (\<lambda>d. \<not> blocking written d) ds,
      list_all (\<lambda>d. \<not> blocking written d) ds)"
  by (induction ds) (auto simp: blocking_def split: prod.splits)

end
