(* ===== verification/Aprot_Schema.thy ===== *)
theory Aprot_Schema
  imports Complex_Main Aprot_Generate
begin

text \<open>
  JSON schemas of Go types (\<open>schema.go\<close>, and the parts of \<open>openapi.go\<close> that concern one field), as the
  OpenAPI document and the tools of the MCP adapter use them. In reference mode a named struct becomes
  a component and a reference to it; in inline mode it is expanded in place, down to a struct that is
  being expanded already.

  What a string decodes to as a \<open>float64\<close> and the comments of types and fields are parameters.
\<close>

section \<open>Schemas\<close>

record attrs =
  sa_Type :: string
  sa_Format :: string
  sa_Required :: "string list"
  sa_Enum :: "enum_value list"
  sa_Ref :: string
  sa_MinLength :: "int option"
  sa_MaxLength :: "int option"
  sa_MinItems :: "int option"
  sa_MaxItems :: "int option"
  sa_Minimum :: "rat option"
  sa_Maximum :: "rat option"
  sa_ExclusiveMinimum :: bool
  sa_ExclusiveMaximum :: bool
  sa_Pattern :: string
  sa_Description :: string

datatype jschema =
  Schema (sc_attrs: attrs) (sc_Properties: "(string \<times> jschema) list") (sc_Items: "jschema option")
    (sc_Additional: "jschema option")

definition no_attrs :: attrs where
  "no_attrs = \<lparr>sa_Type = [], sa_Format = [], sa_Required = [], sa_Enum = [], sa_Ref = [], sa_MinLength = None,
     sa_MaxLength = None, sa_MinItems = None, sa_MaxItems = None, sa_Minimum = None, sa_Maximum = None,
     sa_ExclusiveMinimum = False, sa_ExclusiveMaximum = False, sa_Pattern = [], sa_Description = []\<rparr>"

definition plain_schema :: "attrs \<Rightarrow> jschema" where
  "plain_schema a = Schema a [] None None"

definition typed :: "string \<Rightarrow> jschema" where
  "typed ty = plain_schema (no_attrs\<lparr>sa_Type := ty\<rparr>)"

definition formatted :: "string \<Rightarrow> string \<Rightarrow> jschema" where
  "formatted ty fm = plain_schema (no_attrs\<lparr>sa_Type := ty, sa_Format := fm\<rparr>)"

definition map_attrs :: "(attrs \<Rightarrow> attrs) \<Rightarrow> jschema \<Rightarrow> jschema" where
  "map_attrs f s = Schema (f (sc_attrs s)) (sc_Properties s) (sc_Items s) (sc_Additional s)"

record schema_env =
  se_gen :: gen_env
  se_float :: "string \<Rightarrow> rat option"
  se_typeDoc :: "string \<Rightarrow> string"
  se_fieldDoc :: "string \<Rightarrow> string \<Rightarrow> string"

section \<open>One field\<close>

definition durationFieldSchema :: "rfield \<Rightarrow> jschema option" where
  "durationFieldSchema f =
     (if \<not> isDuration (rf_type f) then None
      else if jsonFormatOption f = ''units'' then Some (typed ''string'')
      else if jsonFormatOption f = ''iso8601'' then Some (formatted ''string'' ''duration'')
      else None)"

definition byteSliceFieldSchema :: "rfield \<Rightarrow> jschema option" where
  "byteSliceFieldSchema f =
     (let ty = rf_type f; format = jsonFormatOption f;
          numbers = (\<lambda>n. Some (Schema (no_attrs\<lparr>sa_Type := ''array'', sa_MinItems := n, sa_MaxItems := n\<rparr>) []
                       (Some (typed ''integer'')) None));
          bytes = Some (formatted ''string'' ''byte'')
      in if \<not> isByteSlice ty \<and> \<not> isByteArray ty then None
         else if format \<noteq> [] \<and> byteSliceFormatShape format \<noteq> None
         then (if format = ''array'' then numbers (if isByteArray ty then Some (int (array_len ty)) else None) else bytes)
         else if isUnnamedByteSlice ty \<or> isByteArray ty then bytes
         else numbers None)"

definition formatFieldSchema :: "rfield \<Rightarrow> jschema option" where
  "formatFieldSchema f = (case durationFieldSchema f of Some s \<Rightarrow> Some s | None \<Rightarrow> byteSliceFieldSchema f)"

definition parseFloat :: "schema_env \<Rightarrow> string \<Rightarrow> rat" where
  "parseFloat e s = (case se_float e s of Some r \<Rightarrow> r | None \<Rightarrow> 0)"

text \<open>The conversion of a float to \<open>int\<close> drops the fraction.\<close>

definition trunc :: "rat \<Rightarrow> int" where
  "trunc r = (if r < 0 then - \<lfloor>- r\<rfloor> else \<lfloor>r\<rfloor>)"

definition apply_rule :: "schema_env \<Rightarrow> bool \<Rightarrow> bool \<Rightarrow> rule \<Rightarrow> attrs \<Rightarrow> attrs" where
  "apply_rule e isString isArray r a =
     (let tag = r_tag r; n = parseFloat e (r_param r)
      in if tag = ''min'' then
           (if isString then a\<lparr>sa_MinLength := Some (trunc n)\<rparr>
            else if isArray then a\<lparr>sa_MinItems := Some (trunc n)\<rparr> else a\<lparr>sa_Minimum := Some n\<rparr>)
         else if tag = ''max'' then
           (if isString then a\<lparr>sa_MaxLength := Some (trunc n)\<rparr>
            else if isArray then a\<lparr>sa_MaxItems := Some (trunc n)\<rparr> else a\<lparr>sa_Maximum := Some n\<rparr>)
         else if tag = ''len'' then
           (if isArray then a\<lparr>sa_MinItems := Some (trunc n), sa_MaxItems := Some (trunc n)\<rparr>
            else a\<lparr>sa_MinLength := Some (trunc n), sa_MaxLength := Some (trunc n)\<rparr>)
         else if tag = ''gte'' then a\<lparr>sa_Minimum := Some n\<rparr>
         else if tag = ''gt'' then a\<lparr>sa_Minimum := Some n, sa_ExclusiveMinimum := True\<rparr>
         else if tag = ''lte'' then a\<lparr>sa_Maximum := Some n\<rparr>
         else if tag = ''lt'' then a\<lparr>sa_Maximum := Some n, sa_ExclusiveMaximum := True\<rparr>
         else if tag = ''email'' then a\<lparr>sa_Format := ''email''\<rparr>
         else if tag = ''url'' then a\<lparr>sa_Format := ''uri''\<rparr>
         else if tag = ''uuid'' then a\<lparr>sa_Format := ''uuid''\<rparr>
         else if tag = ''alpha'' then a\<lparr>sa_Pattern := ''^[a-zA-Z]+$''\<rparr>
         else if tag = ''alphanum'' then a\<lparr>sa_Pattern := ''^[a-zA-Z0-9]+$''\<rparr>
         else if tag = ''oneof'' then a\<lparr>sa_Enum := sa_Enum a @ map EStr (split_on CHR '' '' (r_param r))\<rparr>
         else a)"

definition applyValidateConstraints :: "schema_env \<Rightarrow> string \<Rightarrow> rtype \<Rightarrow> jschema \<Rightarrow> jschema" where
  "applyValidateConstraints e tag t =
     map_attrs (fold (apply_rule e (goKindString t = ''string'') (goKindString t = ''slice'' \<or> goKindString t = ''array''))
       (ParseValidateTag tag))"

text \<open>What follows the type of a field in both loops over fields: constraints and comment.\<close>

definition finish_field :: "schema_env \<Rightarrow> rtype \<Rightarrow> rfield \<Rightarrow> jschema \<Rightarrow> jschema" where
  "finish_field e owner f s =
     (let s1 = (if rf_validate f \<noteq> [] then applyValidateConstraints e (rf_validate f) (rf_type f) s else s);
          d = se_fieldDoc e (TypeName owner) (rf_name f)
      in if d \<noteq> [] then map_attrs (\<lambda>a. a\<lparr>sa_Description := d\<rparr>) s1 else s1)"

definition enumToJSONSchema :: "enum_info \<Rightarrow> jschema" where
  "enumToJSONSchema info =
     plain_schema (no_attrs\<lparr>sa_Type := (if e_IsString info then ''string'' else ''integer''), sa_Enum := map snd (e_Values info)\<rparr>)"

section \<open>Types\<close>

text \<open>\<open>schemaGen\<close>: the components in reference mode, and the structs being expanded in inline mode.\<close>

record schema_gen =
  sg_refs :: "(rtype, jschema) gomap option"
  sg_building :: "rtype list"

definition ref_prefix :: string where
  "ref_prefix = ''#/components/schemas/''"

definition component_name :: "rtype \<Rightarrow> string" where
  "component_name t = sanitizeTSIdent (TypeName t)"

definition ref_to :: "rtype \<Rightarrow> jschema" where
  "ref_to t = plain_schema (no_attrs\<lparr>sa_Ref := ref_prefix @ component_name t\<rparr>)"

definition bare_object :: "rtype \<Rightarrow> jschema" where
  "bare_object t = plain_schema (no_attrs\<lparr>sa_Type := ''object'', sa_Description := TypeName t\<rparr>)"

text \<open>What the loops over the fields build: properties, required names, and the generator.\<close>

type_synonym field_acc = "(string, jschema) gomap \<times> string list \<times> schema_gen"

definition add_field :: "schema_env \<Rightarrow> rtype \<Rightarrow> rfield \<Rightarrow> jschema \<Rightarrow> field_acc \<Rightarrow> field_acc" where
  "add_field e owner f s acc =
     (case acc of (props, req, g) \<Rightarrow>
        (AList.update (getJSONName f) (finish_field e owner f s) props,
         if isOptional f then req else req @ [getJSONName f], g))"

definition merge_embedded :: "field_acc \<Rightarrow> (string, jschema) gomap \<times> string list \<Rightarrow> field_acc" where
  "merge_embedded sub outer =
     (case (sub, outer) of ((sprops, sreq, g), (props, req)) \<Rightarrow>
        (fold (\<lambda>(n, s). AList.update n s) sprops props, req @ sreq, g))"

definition open_struct :: "schema_env \<Rightarrow> rtype \<Rightarrow> schema_gen \<Rightarrow> schema_gen" where
  "open_struct e t g =
     (case sg_refs g of
        Some refs \<Rightarrow> g\<lparr>sg_refs := Some (AList.update t (plain_schema (no_attrs\<lparr>sa_Type := ''object'', sa_Description := se_typeDoc e (TypeName t)\<rparr>)) refs)\<rparr>
      | None \<Rightarrow> g\<lparr>sg_building := t # sg_building g\<rparr>)"

text \<open>
  \<open>buildStructSchema\<close> registers its schema before it visits the fields, so the component of a struct
  exists while it is filled; the model puts an empty one there and the finished one at the end.
\<close>

definition close_struct :: "schema_env \<Rightarrow> rtype \<Rightarrow> field_acc \<Rightarrow> jschema \<times> schema_gen" where
  "close_struct e t acc =
     (case acc of (props, req, g) \<Rightarrow>
        let s = Schema (no_attrs\<lparr>sa_Type := ''object'', sa_Required := sort req, sa_Description := se_typeDoc e (TypeName t)\<rparr>) props None None
        in case sg_refs g of
             Some refs \<Rightarrow> (ref_to t, g\<lparr>sg_refs := Some (AList.update t s refs)\<rparr>)
           | None \<Rightarrow> (s, g\<lparr>sg_building := remove1 t (sg_building g)\<rparr>))"

definition struct_known :: "rtype \<Rightarrow> schema_gen \<Rightarrow> jschema option" where
  "struct_known t g =
     (case sg_refs g of
        Some refs \<Rightarrow> if map_of refs t \<noteq> None then Some (ref_to t) else None
      | None \<Rightarrow> if t \<in> set (sg_building g) then Some (bare_object t) else None)"

definition array_schema :: "int option \<Rightarrow> jschema \<Rightarrow> jschema" where
  "array_schema n s = Schema (no_attrs\<lparr>sa_Type := ''array'', sa_MinItems := n, sa_MaxItems := n\<rparr>) [] (Some s) None"

definition map_schema :: "jschema \<Rightarrow> jschema" where
  "map_schema s = Schema (no_attrs\<lparr>sa_Type := ''object''\<rparr>) [] None (Some s)"

fun basic_schema :: "rtype \<Rightarrow> jschema" where
  "basic_schema (RString n) = typed ''string''"
| "basic_schema (RInt n b) = typed ''integer''"
| "basic_schema (RUint n b) = typed ''integer''"
| "basic_schema (RFloat n b) = typed ''number''"
| "basic_schema (RBool n) = typed ''boolean''"
| "basic_schema t = plain_schema no_attrs"

definition container_schema :: "rtype \<Rightarrow> jschema \<Rightarrow> jschema" where
  "container_schema t s =
     (case t of
        RArray n l w \<Rightarrow> array_schema (Some (int l)) s
      | RMap n a w \<Rightarrow> map_schema s
      | _ \<Rightarrow> array_schema None s)"

text \<open>What a type that is no struct becomes: a schema at once, or one around that of its element.\<close>

definition leaf_schema :: "gen_env \<Rightarrow> rtype \<Rightarrow> jschema + rtype" where
  "leaf_schema e u =
     (case ge_enum e u of
        Some info \<Rightarrow> Inl (enumToJSONSchema info)
      | None \<Rightarrow>
          if is_struct_kind u then Inl (typed ''object'')
          else if isUnnamedByteSlice u \<or> isByteArray u then Inl (formatted ''string'' ''byte'')
          else case elem_type u of None \<Rightarrow> Inl (basic_schema u) | Some v \<Rightarrow> Inr v)"

definition named_struct :: "gen_env \<Rightarrow> rtype \<Rightarrow> bool" where
  "named_struct e u \<longleftrightarrow> ge_enum e u = None \<and> is_struct_kind u \<and> PkgPath u \<noteq> []"

text \<open>
  \<open>goTypeToJSONSchema\<close> and the loop over the fields of a struct, which flattens embedded structs in
  \<open>buildStructSchema\<close> (\<open>flat\<close>) and not in \<open>buildFieldsInto\<close>. The number bounds the nesting of the
  calls; \<open>None\<close> is a walk that exceeds it.
\<close>

function goTypeToJSONSchema :: "schema_env \<Rightarrow> nat \<Rightarrow> rtype \<Rightarrow> schema_gen \<Rightarrow> (jschema \<times> schema_gen) option"
  and schema_fields :: "schema_env \<Rightarrow> nat \<Rightarrow> bool \<Rightarrow> rtype \<Rightarrow> rfield list \<Rightarrow> field_acc \<Rightarrow> field_acc option" where
  "goTypeToJSONSchema e k t g =
     (if k = 0 then None
      else if named_struct (se_gen e) (unptr t)
      then (case struct_known (unptr t) g of
              Some s \<Rightarrow> Some (s, g)
            | None \<Rightarrow>
                map_option (close_struct e (unptr t))
                  (schema_fields e (k - 1) True (unptr t) (fields_of (se_gen e) (unptr t)) ([], [], open_struct e (unptr t) g)))
      else case leaf_schema (se_gen e) (unptr t) of
             Inl s \<Rightarrow> Some (s, g)
           | Inr v \<Rightarrow> map_option (\<lambda>(s, g'). (container_schema (unptr t) s, g')) (goTypeToJSONSchema e (k - 1) v g))"
| "schema_fields e k flat t [] acc = Some acc"
| "schema_fields e k flat t (f # fs) acc =
     (if k = 0 then None
      else if \<not> wire_field f then schema_fields e k flat t fs acc
      else case (if flat then embeds f else None) of
             Some u \<Rightarrow>
               Option.bind (schema_fields e (k - 1) False u (fields_of (se_gen e) u) ([], [], snd (snd acc)))
                 (\<lambda>sub. schema_fields e k flat t fs (merge_embedded sub (fst acc, fst (snd acc))))
           | None \<Rightarrow>
               Option.bind
                 (case formatFieldSchema f of
                    Some s \<Rightarrow> Some (s, snd (snd acc))
                  | None \<Rightarrow> goTypeToJSONSchema e (k - 1) (rf_type f) (snd (snd acc)))
                 (\<lambda>(s, g). schema_fields e k flat t fs (add_field e t f s (fst acc, fst (snd acc), g))))"
  by pat_completeness auto
termination
  by (relation "inv_image (less_than <*lex*> less_than)
        (\<lambda>x. case x of Inl (e, k, t, g) \<Rightarrow> (k, 0) | Inr (e, k, flat, t, fs, acc) \<Rightarrow> (k, Suc (length fs)))") auto

declare goTypeToJSONSchema.simps [simp del] schema_fields.simps(2) [simp del]

text \<open>\<open>SchemaFor\<close>: inline mode.\<close>

definition SchemaFor :: "schema_env \<Rightarrow> nat \<Rightarrow> rtype \<Rightarrow> jschema option" where
  "SchemaFor e k t = map_option fst (goTypeToJSONSchema e k t \<lparr>sg_refs = None, sg_building = []\<rparr>)"

section \<open>References\<close>

fun schema_refs :: "jschema \<Rightarrow> string list" where
  "schema_refs (Schema a ps it ad) =
     (if sa_Ref a = [] then [] else [sa_Ref a]) @ concat (map (\<lambda>p. schema_refs (snd p)) ps) @
     (case it of None \<Rightarrow> [] | Some s \<Rightarrow> schema_refs s) @ (case ad of None \<Rightarrow> [] | Some s \<Rightarrow> schema_refs s)"

definition ref_of :: "rtype \<Rightarrow> string" where
  "ref_of t = ref_prefix @ component_name t"

definition components :: "schema_gen \<Rightarrow> (rtype, jschema) gomap" where
  "components g = (case sg_refs g of Some r \<Rightarrow> r | None \<Rightarrow> [])"

definition allowed :: "schema_gen \<Rightarrow> string set" where
  "allowed g = ref_of ` fst ` set (components g)"

definition refs_ok :: "schema_gen \<Rightarrow> bool" where
  "refs_ok g \<longleftrightarrow> (\<forall>c\<in>set (components g). set (schema_refs (snd c)) \<subseteq> allowed g)"

definition props_ok :: "schema_gen \<Rightarrow> (string, jschema) gomap \<Rightarrow> bool" where
  "props_ok g props \<longleftrightarrow> (\<forall>p\<in>set props. set (schema_refs (snd p)) \<subseteq> allowed g)"

text \<open>What a walk may change: components are only added, and the structs in expansion are as before.\<close>

definition later :: "schema_gen \<Rightarrow> schema_gen \<Rightarrow> bool" where
  "later g g' \<longleftrightarrow> sg_building g' = sg_building g \<and> (sg_refs g' = None \<longleftrightarrow> sg_refs g = None) \<and>
     fst ` set (components g) \<subseteq> fst ` set (components g')"

lemma later_refl [simp]: "later g g"
  by (simp add: later_def)

lemma later_trans: "later a b \<Longrightarrow> later b c \<Longrightarrow> later a c"
  by (auto simp: later_def)

lemma allowed_later: "later g g' \<Longrightarrow> allowed g \<subseteq> allowed g'"
  unfolding later_def allowed_def by blast

lemma props_ok_later: "props_ok g ps \<Longrightarrow> later g g' \<Longrightarrow> props_ok g' ps"
  using allowed_later unfolding props_ok_def by blast

lemma set_update: "set (AList.update k v al) \<subseteq> insert (k, v) (set al)"
  by (induction al) auto

lemma props_ok_update: "props_ok g ps \<Longrightarrow> set (schema_refs s) \<subseteq> allowed g \<Longrightarrow> props_ok g (AList.update n s ps)"
  using set_update [of n s ps] unfolding props_ok_def by fastforce

lemma props_ok_fold: "props_ok g xs \<Longrightarrow> props_ok g ps \<Longrightarrow> props_ok g (fold (\<lambda>(n, s). AList.update n s) xs ps)"
proof (induction xs arbitrary: ps)
  case (Cons x xs)
  have "set (schema_refs (snd x)) \<subseteq> allowed g" and xs: "props_ok g xs" using Cons.prems(1) by (auto simp: props_ok_def)
  then have "props_ok g (AList.update (fst x) (snd x) ps)" using props_ok_update [OF Cons.prems(2)] by blast
  from Cons.IH [OF xs this] show ?case by (simp add: case_prod_beta)
qed simp

lemma map_attrs_refs: "(\<And>a. sa_Ref (f a) = sa_Ref a) \<Longrightarrow> schema_refs (map_attrs f s) = schema_refs s"
  by (cases s) (simp add: map_attrs_def)

lemma apply_rule_ref [simp]: "sa_Ref (apply_rule e b c r a) = sa_Ref a"
  by (simp add: apply_rule_def Let_def)

lemma finish_field_refs [simp]: "schema_refs (finish_field e t f s) = schema_refs s"
proof -
  have "sa_Ref (fold (apply_rule e b c) rs a) = sa_Ref a" for b c rs a
    by (induction rs arbitrary: a) auto
  then show ?thesis by (simp add: finish_field_def Let_def applyValidateConstraints_def map_attrs_refs)
qed

lemma plain_refs [simp]: "schema_refs (plain_schema a) = (if sa_Ref a = [] then [] else [sa_Ref a])"
  by (simp add: plain_schema_def)

lemma formatFieldSchema_refs: "formatFieldSchema f = Some s \<Longrightarrow> schema_refs s = []"
  by (auto simp: formatFieldSchema_def durationFieldSchema_def byteSliceFieldSchema_def Let_def typed_def formatted_def
      no_attrs_def split: option.splits if_splits)

lemma basic_schema_refs [simp]: "schema_refs (basic_schema t) = []"
  by (cases t) (auto simp: typed_def no_attrs_def)

lemma leaf_schema_refs: "leaf_schema e u = Inl s \<Longrightarrow> schema_refs s = []"
  by (auto simp: leaf_schema_def enumToJSONSchema_def typed_def formatted_def no_attrs_def split: option.splits if_splits)

lemma container_schema_refs [simp]: "schema_refs (container_schema t s) = schema_refs s"
  by (cases t) (simp_all add: container_schema_def array_schema_def map_schema_def no_attrs_def)

lemma ref_to_refs [simp]: "schema_refs (ref_to t) = [ref_of t]"
  by (simp add: ref_to_def ref_of_def ref_prefix_def)

text \<open>The state of a loop over fields.\<close>

definition acc_ok :: "field_acc \<Rightarrow> bool" where
  "acc_ok acc \<longleftrightarrow> refs_ok (snd (snd acc)) \<and> props_ok (snd (snd acc)) (fst acc)"

lemma acc_ok_add:
  assumes "acc_ok (props, req, g)" "later g g'" "refs_ok g'" "set (schema_refs s) \<subseteq> allowed g'"
  shows "acc_ok (add_field e t f s (props, req, g'))"
  using props_ok_later [OF _ assms(2), of props] assms
  by (auto simp: acc_ok_def add_field_def intro!: props_ok_update)

lemma acc_ok_merge:
  assumes "acc_ok (props, req, g)" "later g (snd (snd sub))" "acc_ok sub"
  shows "acc_ok (merge_embedded sub (props, req))"
  using props_ok_later [OF _ assms(2), of props] assms
  by (cases sub) (auto simp: acc_ok_def merge_embedded_def intro: props_ok_fold)

lemma open_struct_components:
  "components (open_struct e t g) =
     (case sg_refs g of None \<Rightarrow> [] | Some r \<Rightarrow> AList.update t (plain_schema (no_attrs\<lparr>sa_Type := ''object'', sa_Description := se_typeDoc e (TypeName t)\<rparr>)) r)"
  by (simp add: components_def open_struct_def split: option.splits)

lemma open_struct_ok:
  assumes "refs_ok g"
  shows "refs_ok (open_struct e t g)"
proof (cases "sg_refs g")
  case (Some r)
  let ?s = "plain_schema (no_attrs\<lparr>sa_Type := ''object'', sa_Description := se_typeDoc e (TypeName t)\<rparr>)"
  have c: "components (open_struct e t g) = AList.update t ?s r" "components g = r"
    by (simp add: open_struct_components Some, simp add: components_def Some)
  have "allowed g \<subseteq> allowed (open_struct e t g)" by (auto simp: allowed_def c AList.dom_update)
  then show ?thesis
    using assms set_update [of t ?s r] unfolding refs_ok_def c by (fastforce simp: no_attrs_def)
qed (simp add: refs_ok_def open_struct_components)

lemma open_struct_later:
  "sg_refs g = Some r \<Longrightarrow> later g (open_struct e t g)"
  "sg_refs g = None \<Longrightarrow> open_struct e t g = g\<lparr>sg_building := t # sg_building g\<rparr>"
  by (auto simp: later_def open_struct_def components_def AList.dom_update)

text \<open>A struct that is closed has its component, and is no longer in expansion.\<close>

lemma close_struct_ok:
  assumes "struct_known t g = None" "later (open_struct e t g) (snd (snd acc))" "acc_ok acc"
    "close_struct e t acc = (s, g')"
  shows "later g g' \<and> refs_ok g' \<and> set (schema_refs s) \<subseteq> allowed g'"
proof (cases "sg_refs g")
  case None
  then have o: "open_struct e t g = g\<lparr>sg_building := t # sg_building g\<rparr>" by (rule open_struct_later(2))
  obtain props req h where acc: "acc = (props, req, h)" by (metis surj_pair)
  then have h: "sg_refs h = None" "sg_building h = t # sg_building g" using assms(2) o None by (auto simp: later_def)
  then have "later g g'" "components g' = []" "schema_refs s = concat (map (\<lambda>p. schema_refs (snd p)) props)"
    using assms(4) acc None by (auto simp: close_struct_def later_def components_def Let_def no_attrs_def)
  moreover have "components h = []" using h by (simp add: components_def)
  ultimately show ?thesis using assms(3) acc by (auto simp: acc_ok_def props_ok_def refs_ok_def allowed_def)
next
  case (Some r)
  obtain props req h where acc: "acc = (props, req, h)" by (metis surj_pair)
  have l: "later g h" using open_struct_later(1) [OF Some] assms(2) acc later_trans by fastforce
  then obtain rh where rh: "sg_refs h = Some rh" using Some by (auto simp: later_def)
  let ?s = "Schema (no_attrs\<lparr>sa_Type := ''object'', sa_Required := sort req, sa_Description := se_typeDoc e (TypeName t)\<rparr>) props None None"
  have g': "g' = h\<lparr>sg_refs := Some (AList.update t ?s rh)\<rparr>" "s = ref_to t"
    using assms(4) acc rh by (auto simp: close_struct_def Let_def)
  then have c: "components g' = AList.update t ?s rh" "components h = rh" by (simp_all add: components_def rh)
  have lh: "later h g'" using g' rh c by (auto simp: later_def AList.dom_update)
  then have al: "allowed h \<subseteq> allowed g'" by (rule allowed_later)
  have "schema_refs ?s = concat (map (\<lambda>p. schema_refs (snd p)) props)" by (simp add: no_attrs_def)
  then have "set (schema_refs ?s) \<subseteq> allowed h" using assms(3) acc by (auto simp: acc_ok_def props_ok_def)
  then have "refs_ok g'"
    using assms(3) acc al subsetD [OF set_update [of t ?s rh]] by (fastforce simp: refs_ok_def acc_ok_def c simp del: schema_refs.simps)
  moreover have "ref_of t \<in> allowed g'" by (simp add: allowed_def c AList.dom_update)
  ultimately show ?thesis using later_trans [OF l lh] g'(2) by simp
qed

lemma struct_known_ok: "struct_known t g = Some s \<Longrightarrow> set (schema_refs s) \<subseteq> allowed g"
  by (force simp: struct_known_def allowed_def components_def bare_object_def no_attrs_def split: option.splits if_splits
      dest!: map_of_SomeD)

lemma open_struct_acc: "refs_ok g \<Longrightarrow> acc_ok ([], [], open_struct e t g)"
  by (simp add: acc_ok_def props_ok_def open_struct_ok)

lemma later_add_field [simp]: "snd (snd (add_field e t f s acc)) = snd (snd acc)"
  by (cases acc) (simp add: add_field_def)

lemma later_merge [simp]: "snd (snd (merge_embedded sub outer)) = snd (snd sub)"
  by (cases sub; cases outer) (simp add: merge_embedded_def)

text \<open>The cases of one step of the loop over fields.\<close>

lemma schema_fields_step:
  assumes "schema_fields e k flat t (f # fs) acc = Some r"
  obtains (skip) "k \<noteq> 0" "\<not> wire_field f" "schema_fields e k flat t fs acc = Some r"
  | (embedded) u sub where "k \<noteq> 0" "wire_field f" "flat" "embeds f = Some u"
      "schema_fields e (k - 1) False u (fields_of (se_gen e) u) ([], [], snd (snd acc)) = Some sub"
      "schema_fields e k flat t fs (merge_embedded sub (fst acc, fst (snd acc))) = Some r"
  | (formatted) s where "k \<noteq> 0" "wire_field f" "(if flat then embeds f else None) = None" "formatFieldSchema f = Some s"
      "schema_fields e k flat t fs (add_field e t f s acc) = Some r"
  | (typed) s g where "k \<noteq> 0" "wire_field f" "(if flat then embeds f else None) = None" "formatFieldSchema f = None"
      "goTypeToJSONSchema e (k - 1) (rf_type f) (snd (snd acc)) = Some (s, g)"
      "schema_fields e k flat t fs (add_field e t f s (fst acc, fst (snd acc), g)) = Some r"
proof -
  have k: "k \<noteq> 0" using assms by (auto simp: schema_fields.simps(2) split: if_splits)
  show thesis
  proof (cases "wire_field f")
    case False
    then show thesis using skip assms k by (simp add: schema_fields.simps(2))
  next
    case True
    show thesis
    proof (cases "if flat then embeds f else None")
      case (Some u)
      then show thesis using embedded True k assms by (auto simp: schema_fields.simps(2) bind_eq_Some_conv split: if_splits)
    next
      case None
      then show thesis using formatted typed True k assms
        by (cases "formatFieldSchema f") (auto simp: schema_fields.simps(2) bind_eq_Some_conv)
    qed
  qed
qed

text \<open>Every reference of a schema names a component, in inline mode there is none.\<close>

lemma schema_refs_resolve:
  "goTypeToJSONSchema e k t g = Some (s, g') \<Longrightarrow> refs_ok g \<Longrightarrow>
     later g g' \<and> refs_ok g' \<and> set (schema_refs s) \<subseteq> allowed g'"
  "schema_fields e k flat t fs acc = Some r \<Longrightarrow> acc_ok acc \<Longrightarrow> later (snd (snd acc)) (snd (snd r)) \<and> acc_ok r"
proof (induction e k t g and e k flat t fs acc arbitrary: s g' and r rule: goTypeToJSONSchema_schema_fields.induct)
  case (1 e k t g)
  let ?u = "unptr t"
  have k: "k \<noteq> 0" using 1(3) by (auto simp: goTypeToJSONSchema.simps [of e k t g] split: if_splits)
  show ?case
  proof (cases "named_struct (se_gen e) ?u")
    case True
    show ?thesis
    proof (cases "struct_known ?u g")
      case None
      then obtain acc where acc: "schema_fields e (k - 1) True ?u (fields_of (se_gen e) ?u) ([], [], open_struct e ?u g) = Some acc"
          "close_struct e ?u acc = (s, g')"
        using 1(3) k True by (auto simp: goTypeToJSONSchema.simps [of e k t g])
      have "later (open_struct e ?u g) (snd (snd acc)) \<and> acc_ok acc"
        using 1(1) [OF k True None acc(1)] open_struct_acc [OF 1(4)] by simp
      then show ?thesis using close_struct_ok [OF None _ _ acc(2)] by blast
    next
      case (Some s0)
      then show ?thesis using 1(3,4) k True struct_known_ok by (auto simp: goTypeToJSONSchema.simps [of e k t g])
    qed
  next
    case False
    show ?thesis
    proof (cases "leaf_schema (se_gen e) ?u")
      case (Inl s0)
      then show ?thesis using 1(3,4) k False leaf_schema_refs [OF Inl] by (simp add: goTypeToJSONSchema.simps [of e k t g])
    next
      case (Inr v)
      then obtain s0 where s0: "goTypeToJSONSchema e (k - 1) v g = Some (s0, g')" "s = container_schema ?u s0"
        using 1(3) k False by (auto simp: goTypeToJSONSchema.simps [of e k t g])
      then show ?thesis using 1(2) [OF k False Inr s0(1) 1(4)] by simp
    qed
  qed
next
  case (2 e k flat t acc)
  then show ?case by simp
next
  case (3 e k flat t f fs acc)
  obtain props req g where acc: "acc = (props, req, g)" by (metis surj_pair)
  from 3(6) show ?case
  proof (cases rule: schema_fields_step)
    case skip
    then show ?thesis using 3(1) 3(7) by simp
  next
    case (embedded u sub)
    have sel: "(if flat then embeds f else None) = Some u" using embedded by simp
    have "acc_ok ([], [], snd (snd acc))" using 3(7) by (simp add: acc_ok_def props_ok_def)
    then have sub: "later g (snd (snd sub))" "acc_ok sub"
      using 3(4) [OF embedded(1) _ sel embedded(5)] embedded(2) acc by simp_all
    then have "acc_ok (merge_embedded sub (props, req))" using acc_ok_merge 3(7) acc by blast
    then show ?thesis
      using 3(5) [OF embedded(1) _ sel embedded(5,6)] embedded(2) sub(1) acc later_trans by auto
  next
    case (formatted s)
    have "acc_ok (add_field e t f s acc)"
      using acc_ok_add [of props req g g s e t f] 3(7) acc formatFieldSchema_refs [OF formatted(4)]
      by (simp add: acc_ok_def)
    then show ?thesis using 3(3) [OF formatted(1) _ formatted(3), of "(s, g)" s g] formatted acc by simp
  next
    case (typed s h)
    have "refs_ok g" using 3(7) acc by (simp add: acc_ok_def)
    then have ih: "later g h" "refs_ok h" "set (schema_refs s) \<subseteq> allowed h"
      using 3(2) [OF typed(1) _ typed(3,4,5)] typed(2) acc by simp_all
    have "acc_ok (add_field e t f s (props, req, h))" using acc_ok_add [OF _ ih] 3(7) acc by blast
    then show ?thesis using 3(3) [OF typed(1) _ typed(3), of "(s, h)" s h] typed acc ih(1) later_trans by auto
  qed
qed

section \<open>The walk ends\<close>

text \<open>A finite set of structs closed under the types of their fields, with a bound on the size of these.\<close>

definition field_universe :: "schema_env \<Rightarrow> rtype set \<Rightarrow> nat \<Rightarrow> bool" where
  "field_universe e U m \<longleftrightarrow> finite U \<and>
     (\<forall>t\<in>U. \<forall>f\<in>set (fields_of (se_gen e) t). wire_field f \<longrightarrow> size (rf_type f) \<le> m \<and> set (struct_parts (rf_type f)) \<subseteq> U)"

definition opened :: "schema_gen \<Rightarrow> rtype set" where
  "opened g = (case sg_refs g of Some r \<Rightarrow> fst ` set r | None \<Rightarrow> set (sg_building g))"

definition unopened :: "rtype set \<Rightarrow> schema_gen \<Rightarrow> nat" where
  "unopened U g = card (U - opened g)"

lemma opened_later: "later g g' \<Longrightarrow> opened g \<subseteq> opened g'"
  unfolding later_def opened_def components_def by (cases "sg_refs g"; cases "sg_refs g'") simp_all

lemma unopened_later: "later g g' \<Longrightarrow> finite U \<Longrightarrow> unopened U g' \<le> unopened U g"
  unfolding unopened_def using opened_later [of g g'] by (intro card_mono) auto

lemma unopened_open:
  assumes "struct_known t g = None" "t \<in> U" "finite U"
  shows "unopened U g = Suc (unopened U (open_struct e t g))"
proof -
  have "t \<notin> opened g"
    using assms(1) by (auto simp: struct_known_def opened_def map_of_eq_None_iff split: option.splits if_splits)
  moreover have "opened (open_struct e t g) = insert t (opened g)"
    by (auto simp: opened_def open_struct_def AList.dom_update split: option.splits)
  moreover have "card (U - opened g) = Suc (card (U - opened g - {t}))"
    using assms \<open>t \<notin> opened g\<close> by (intro card.remove) auto
  ultimately show ?thesis by (simp add: unopened_def Diff_insert2 [symmetric] Diff_insert [symmetric])
qed

lemma schema_ends:
  "field_universe e U m \<Longrightarrow> set (struct_parts t) \<subseteq> U \<Longrightarrow> refs_ok g \<Longrightarrow> size t + unopened U g * (m + 4) < k \<Longrightarrow>
     goTypeToJSONSchema e k t g \<noteq> None"
  "field_universe e U m \<Longrightarrow> t \<in> U \<Longrightarrow> set fs \<subseteq> set (fields_of (se_gen e) t) \<Longrightarrow> acc_ok acc \<Longrightarrow>
     m + unopened U (snd (snd acc)) * (m + 4) + (if flat then 2 else 1) < k \<Longrightarrow> schema_fields e k flat t fs acc \<noteq> None"
proof (induction e k t g and e k flat t fs acc rule: goTypeToJSONSchema_schema_fields.induct)
  case (1 e k t g)
  let ?u = "unptr t"
  have k: "k \<noteq> 0" and fin: "finite U" using 1(3,6) by (auto simp: field_universe_def)
  show ?case
  proof (cases "named_struct (se_gen e) ?u")
    case True
    then have u: "?u \<in> U" using 1(4) by (subst (asm) struct_parts.simps) (simp add: named_struct_def)
    show ?thesis
    proof (cases "struct_known ?u g")
      case None
      have "unopened U g = Suc (unopened U (open_struct e ?u g))" using unopened_open [OF None u fin] .
      then have "m + unopened U (open_struct e ?u g) * (m + 4) + 2 < k - 1" using 1(6) by simp
      then have "schema_fields e (k - 1) True ?u (fields_of (se_gen e) ?u) ([], [], open_struct e ?u g) \<noteq> None"
        using 1(1) [OF k True None 1(3) u] open_struct_acc [OF 1(5)] by simp
      then show ?thesis using k True None by (simp add: goTypeToJSONSchema.simps [of e k t g])
    qed (use k True in \<open>simp add: goTypeToJSONSchema.simps [of e k t g]\<close>)
  next
    case False
    show ?thesis
    proof (cases "leaf_schema (se_gen e) ?u")
      case (Inr v)
      then have v: "elem_type ?u = Some v" "\<not> is_struct_kind ?u"
        by (auto simp: leaf_schema_def split: option.splits if_splits)
      then have "set (struct_parts v) \<subseteq> U" using 1(4) by (subst (asm) struct_parts.simps) simp
      moreover have "size v < size t"
      proof -
        have "size v < size ?u" using v(1) by (cases ?u) auto
        also have "size ?u \<le> size t" by (cases t) auto
        finally show ?thesis .
      qed
      ultimately have "goTypeToJSONSchema e (k - 1) v g \<noteq> None" using 1(2) [OF k False Inr 1(3) _ 1(5)] 1(6) by simp
      then show ?thesis using k False Inr by (simp add: goTypeToJSONSchema.simps [of e k t g])
    qed (use k False in \<open>simp add: goTypeToJSONSchema.simps [of e k t g]\<close>)
  qed
next
  case (2 e k flat t acc)
  then show ?case by simp
next
  case (3 e k flat t f fs acc)
  obtain props req g where acc: "acc = (props, req, g)" by (metis surj_pair)
  have k: "k \<noteq> 0" and fin: "finite U" using 3(6,10) by (auto simp: field_universe_def)
  have fs: "set fs \<subseteq> set (fields_of (se_gen e) t)" and f: "f \<in> set (fields_of (se_gen e) t)" using 3(8) by auto
  have ok: "refs_ok g" using 3(9) acc by (simp add: acc_ok_def)
  have rest: "m + unopened U h * (m + 4) + (if flat then 2 else 1) < k" if "later g h" for h
  proof (rule le_less_trans)
    show "m + unopened U h * (m + 4) + (if flat then 2 else 1) \<le> m + unopened U g * (m + 4) + (if flat then 2 else 1)"
      by (intro add_le_mono mult_le_mono1 order_refl unopened_later [OF that fin])
    show "m + unopened U g * (m + 4) + (if flat then 2 else 1) < k" using 3(10) acc by simp
  qed
  show ?case
  proof (cases "wire_field f")
    case False
    then show ?thesis using 3(1) [OF k False 3(6,7) fs 3(9,10)] k by (simp add: schema_fields.simps(2))
  next
    case True
    then have ty: "size (rf_type f) \<le> m" "set (struct_parts (rf_type f)) \<subseteq> U"
      using 3(6,7) f by (auto simp: field_universe_def)
    show ?thesis
    proof (cases "if flat then embeds f else None")
      case (Some u)
      then have fl: flat "embeds f = Some u" by (auto split: if_splits)
      then have "u \<in> U" using ty(2) by (subst (asm) struct_parts.simps) (auto simp: embeds_def split: if_splits)
      moreover have start: "acc_ok ([], [], g)" using ok by (simp add: acc_ok_def props_ok_def)
      ultimately have "schema_fields e (k - 1) False u (fields_of (se_gen e) u) ([], [], g) \<noteq> None"
        using 3(4) [OF k _ Some 3(6)] True 3(10) fl acc by simp
      then obtain sub where sub: "schema_fields e (k - 1) False u (fields_of (se_gen e) u) ([], [], g) = Some sub" by blast
      then have sl: "later g (snd (snd sub))" "acc_ok sub" using schema_refs_resolve(2) [OF sub start] by simp_all
      then have "acc_ok (merge_embedded sub (props, req))" using acc_ok_merge 3(9) acc by blast
      then have "schema_fields e k flat t fs (merge_embedded sub (props, req)) \<noteq> None"
        using 3(5) [OF k _ Some _ 3(6,7) fs] sub True acc rest [OF sl(1)] by simp
      then show ?thesis using k True Some sub acc by (simp add: schema_fields.simps(2))
    next
      case None
      show ?thesis
      proof (cases "formatFieldSchema f")
        case (Some s)
        have "acc_ok (add_field e t f s acc)"
          using acc_ok_add [of props req g g s e t f] 3(9) acc ok formatFieldSchema_refs [OF Some] by simp
        then have "schema_fields e k flat t fs (add_field e t f s acc) \<noteq> None"
          using 3(3) [OF k _ None, of "(s, g)" s g] 3(6,7,10) fs True Some acc by simp
        then show ?thesis using k True None Some acc by (simp add: schema_fields.simps(2))
      next
        case ft: None
        have "goTypeToJSONSchema e (k - 1) (rf_type f) g \<noteq> None"
          using 3(2) [OF k _ None ft 3(6) ty(2)] True ok ty(1) 3(10) acc by (simp split: if_splits)
        then obtain s h where sh: "goTypeToJSONSchema e (k - 1) (rf_type f) g = Some (s, h)" by auto
        then have ih: "later g h" "refs_ok h" "set (schema_refs s) \<subseteq> allowed h"
          using schema_refs_resolve(1) [OF sh ok] by simp_all
        have "acc_ok (add_field e t f s (props, req, h))" using acc_ok_add [OF _ ih] 3(9) acc by blast
        then have "schema_fields e k flat t fs (add_field e t f s (props, req, h)) \<noteq> None"
          using 3(3) [OF k _ None, of "(s, h)" s h] 3(6,7) fs True ft sh acc rest [OF ih(1)] by simp
        then show ?thesis using k True None ft sh acc by (simp add: schema_fields.simps(2))
      qed
    qed
  qed
qed

end
