(* ===== verification/Aprot_OpenApi.thy ===== *)
theory Aprot_OpenApi
  imports Aprot_Schema Aprot_Http Aprot_ClientFiles
begin

text \<open>
  The OpenAPI document (\<open>openapi.go\<close>): one operation for each handler of a group that is exposed over
  REST, with the schemas of its parameters, body and response, and the components they refer to.

  The registry inspects a Go type as far as calls need it and the schemas need its names and fields;
  \<open>oe_view\<close> leads from the first description of a type to the second. Comments of handlers and their
  synopsis are parameters.
\<close>

section \<open>Operations\<close>

record operation =
  op_OperationID :: string
  op_Tags :: "string list"
  op_Summary :: string
  op_Description :: string
  op_Parameters :: "(string \<times> jschema) list"
  op_RequestBody :: "jschema option"
  op_Responses :: "(nat \<times> string \<times> jschema option) list"

type_synonym path_item = "(http_method, operation) gomap"

record openapi_env =
  oe_schema :: schema_env
  oe_depth :: nat
  oe_view :: "gotype \<Rightarrow> rtype"
  oe_naming :: naming
  oe_paramNames :: "string \<Rightarrow> string \<Rightarrow> string list"
  oe_handlerDoc :: "string \<Rightarrow> string \<Rightarrow> string"
  oe_synopsis :: "string \<Rightarrow> string"

text \<open>The parameters in the path, in order, and the last struct parameter.\<close>

fun path_and_body :: "string list \<Rightarrow> nat \<Rightarrow> param_info list \<Rightarrow> (string \<times> gotype) list \<times> gotype option" where
  "path_and_body astNames i [] = ([], None)"
| "path_and_body astNames i (p # ps) =
     (case path_and_body astNames (Suc i) ps of (pathParams, body) \<Rightarrow>
        if is_struct (deref (pi_type p)) then (pathParams, if body = None then Some (pi_type p) else body)
        else ((if i < length astNames then astNames ! i else ''arg'' @ nat_str i, pi_type p) # pathParams, body))"

definition op_schema :: "openapi_env \<Rightarrow> gotype \<Rightarrow> schema_gen \<Rightarrow> (jschema \<times> schema_gen) option" where
  "op_schema e t g = goTypeToJSONSchema (oe_schema e) (oe_depth e) (oe_view e t) g"

fun param_schemas :: "openapi_env \<Rightarrow> (string \<times> gotype) list \<Rightarrow> schema_gen \<Rightarrow> ((string \<times> jschema) list \<times> schema_gen) option" where
  "param_schemas e [] g = Some ([], g)"
| "param_schemas e ((n, t) # ps) g =
     Option.bind (op_schema e t g) (\<lambda>(s, g1).
       map_option (\<lambda>(ss, g2). ((n, s) # ss, g2)) (param_schemas e ps g1))"

definition opt_schema :: "openapi_env \<Rightarrow> gotype option \<Rightarrow> schema_gen \<Rightarrow> (jschema option \<times> schema_gen) option" where
  "opt_schema e t g =
     (case t of None \<Rightarrow> Some (None, g) | Some u \<Rightarrow> map_option (\<lambda>(s, g'). (Some s, g')) (op_schema e u g))"

definition op_path :: "openapi_env \<Rightarrow> string \<Rightarrow> string \<Rightarrow> (string \<times> gotype) list \<Rightarrow> string" where
  "op_path e groupName methodName pathParams =
     fold (\<lambda>(n, t) p. p @ ''/{'' @ n @ ''}'') pathParams
       (PathPrefix (oe_naming e) groupName @ ''/'' @ PathSegment (oe_naming e) methodName)"

definition build_operation ::
  "openapi_env \<Rightarrow> string \<Rightarrow> string \<Rightarrow> handler_info \<Rightarrow> schema_gen \<Rightarrow> (string \<times> operation \<times> schema_gen) option" where
  "build_operation e groupName methodName info g =
     (case path_and_body (oe_paramNames e (hi_struct info) (hi_name info)) 0 (hi_params info) of (pathParams, body) \<Rightarrow>
        Option.bind (param_schemas e pathParams g) (\<lambda>(ps, g1).
        Option.bind (opt_schema e body g1) (\<lambda>(bs, g2).
        map_option (\<lambda>(rs, g3).
          (op_path e groupName methodName pathParams,
           let d = oe_handlerDoc e (hi_struct info) (hi_name info)
           in \<lparr>op_OperationID = groupName @ ''_'' @ methodName, op_Tags = [groupName],
               op_Summary = (if d = [] then groupName @ ''.'' @ methodName else oe_synopsis e d),
               op_Description = d, op_Parameters = ps, op_RequestBody = bs,
               op_Responses =
                 (if hi_isVoid info then [(204, ''No content'', None)] else [(200, ''Successful response'', rs)]) @
                 [(422, ''Validation error'', None), (500, ''Internal server error'', None)]\<rparr>, g3))
          (opt_schema e (if hi_isVoid info then None else hi_response info) g2))))"

section \<open>The document\<close>

text \<open>\<open>WithBasePath\<close>.\<close>

definition base_path :: "string \<Rightarrow> string" where
  "base_path path = rev (dropWhile (\<lambda>c. c = CHR ''/'') (rev path))"

definition rest_methods :: "('m, 'v) registry \<Rightarrow> (string \<times> string \<times> handler_info) list" where
  "rest_methods r =
     concat (map (\<lambda>groupName.
       if \<not> IsREST groupName r then []
       else case map_of (rg_groups r) groupName of
              None \<Rightarrow> []
            | Some g \<Rightarrow> map (\<lambda>m. (groupName, m, the (map_of (g_handlers g) m))) (sort (map fst (g_handlers g))))
       (sort (map fst (rg_groups r))))"

definition add_operation :: "string \<Rightarrow> http_method \<Rightarrow> operation \<Rightarrow> (string, path_item) gomap \<Rightarrow> (string, path_item) gomap" where
  "add_operation fullPath m op paths =
     AList.update fullPath (AList.update m op (case map_of paths fullPath of Some item \<Rightarrow> item | None \<Rightarrow> [])) paths"

fun generate_paths ::
  "openapi_env \<Rightarrow> string \<Rightarrow> (string \<times> string \<times> handler_info) list \<Rightarrow> (string, path_item) gomap \<times> schema_gen \<Rightarrow>
     ((string, path_item) gomap \<times> schema_gen) option" where
  "generate_paths e base [] acc = Some acc"
| "generate_paths e base ((groupName, methodName, info) # ms) acc =
     (if hi_kind info \<noteq> HandlerKindUnary then generate_paths e base ms acc
      else case build_operation e groupName methodName info (snd acc) of
             None \<Rightarrow> None
           | Some (path, op, g) \<Rightarrow>
               generate_paths e base ms (add_operation (base @ path) (inferHTTPMethod methodName) op (fst acc), g))"

record openapi_spec =
  os_Paths :: "(string, path_item) gomap"
  os_Schemas :: "(string, jschema) gomap"

definition collect_schemas :: "schema_gen \<Rightarrow> (string, jschema) gomap" where
  "collect_schemas g = fold (\<lambda>(t, s). AList.update (component_name t) s) (components g) []"

definition OpenAPI_Generate :: "openapi_env \<Rightarrow> string \<Rightarrow> ('m, 'v) registry \<Rightarrow> openapi_spec option" where
  "OpenAPI_Generate e base r =
     map_option (\<lambda>(paths, g). \<lparr>os_Paths = paths, os_Schemas = collect_schemas g\<rparr>)
       (generate_paths e base (rest_methods r) ([], \<lparr>sg_refs = Some [], sg_building = []\<rparr>))"

section \<open>The operations are the routes\<close>

lemma path_and_body_classify:
  "classify ast i ps pathParams body =
     (pathParams @ fst (path_and_body ast i ps), case snd (path_and_body ast i ps) of None \<Rightarrow> body | Some b \<Rightarrow> Some b)"
  by (induction ast i ps arbitrary: pathParams body rule: path_and_body.induct)
    (auto split: prod.splits option.splits)

lemma op_path_route:
  "op_path e g m ps = PathPrefix (oe_naming e) g @ ''/'' @ PathSegment (oe_naming e) m @ concat (map (\<lambda>(n, t). ''/{'' @ n @ ''}'') ps)"
proof -
  have "fold (\<lambda>(n, t) p. p @ ''/{'' @ n @ ''}'') ps q = q @ concat (map (\<lambda>(n, t). ''/{'' @ n @ ''}'') ps)" for q
    by (induction ps arbitrary: q) auto
  then show ?thesis by (simp add: op_path_def)
qed

lemma buildRoutes_methods:
  "buildRoutes nm pn r = map (\<lambda>(g, m, i). build_route nm pn g m i) (rest_methods r)"
proof -
  have "map f (concat xss) = concat (map (map f) xss)" for f :: "string \<times> string \<times> handler_info \<Rightarrow> route" and xss
    by (simp add: map_concat)
  then show ?thesis
    unfolding buildRoutes_def rest_methods_def by (auto intro!: arg_cong [of _ _ concat] simp: comp_def split: option.splits)
qed

lemma param_schemas_names: "param_schemas e ps g = Some (ss, g') \<Longrightarrow> map fst ss = map fst ps"
  by (induction e ps g arbitrary: ss g' rule: param_schemas.induct) (auto simp: bind_eq_Some_conv)

text \<open>The operation of a method has the path, the parameters and the body of its route.\<close>

definition describes :: "openapi_env \<Rightarrow> string \<Rightarrow> string \<Rightarrow> route \<Rightarrow> operation \<Rightarrow> bool" where
  "describes e base path rt op \<longleftrightarrow> path = base @ rt_path rt \<and> op_OperationID op = rt_group rt @ ''_'' @ rt_name rt \<and>
     map fst (op_Parameters op) = map fst (rt_pathParams rt) \<and> (op_RequestBody op = None \<longleftrightarrow> rt_body rt = None)"

lemma opt_schema_None: "opt_schema e t g = Some (s, g') \<Longrightarrow> s = None \<longleftrightarrow> t = None"
  by (auto simp: opt_schema_def split: option.splits)

lemma build_operation_describes:
  assumes "build_operation e gn mn info g = Some (path, op, g')"
  shows "describes e base (base @ path) (build_route (oe_naming e) (oe_paramNames e) gn mn info) op"
proof -
  obtain ps body where pb: "path_and_body (oe_paramNames e (hi_struct info) (hi_name info)) 0 (hi_params info) = (ps, body)"
    by (metis surj_pair)
  obtain ss g1 bs g2 where s: "param_schemas e ps g = Some (ss, g1)" "opt_schema e body g1 = Some (bs, g2)"
      "path = op_path e gn mn ps" "op_Parameters op = ss" "op_RequestBody op = bs" "op_OperationID op = gn @ ''_'' @ mn"
    using assms by (auto simp: build_operation_def pb bind_eq_Some_conv Let_def split: prod.splits)
  show ?thesis
    using param_schemas_names [OF s(1)] opt_schema_None [OF s(2)] s(3-)
    by (auto simp: describes_def build_route_def path_and_body_classify pb op_path_route)
qed

definition op_at :: "(string, path_item) gomap \<Rightarrow> string \<Rightarrow> http_method \<Rightarrow> operation option" where
  "op_at paths path m = Option.bind (map_of paths path) (\<lambda>item. map_of item m)"

lemma op_at_add:
  "op_at (add_operation p m op paths) p' m' = (if p' = p \<and> m' = m then Some op else op_at paths p' m')"
  by (auto simp: op_at_def add_operation_def update_conv' split: option.splits)

lemma generate_paths_step:
  assumes "generate_paths e base ((gn, mn, info) # ms) acc = Some acc'" "hi_kind info = HandlerKindUnary"
  obtains path op g where "build_operation e gn mn info (snd acc) = Some (path, op, g)"
    "generate_paths e base ms (add_operation (base @ path) (inferHTTPMethod mn) op (fst acc), g) = Some acc'"
  using assms by (auto split: option.splits)

text \<open>The route of a method of the list.\<close>

definition method_route :: "openapi_env \<Rightarrow> string \<times> string \<times> handler_info \<Rightarrow> route" where
  "method_route e x = (case x of (gn, mn, info) \<Rightarrow> build_route (oe_naming e) (oe_paramNames e) gn mn info)"

lemma buildRoutes_method_route:
  "set (buildRoutes (oe_naming e) (oe_paramNames e) r) = method_route e ` set (rest_methods r)"
  by (auto simp: buildRoutes_methods method_route_def)

definition unary_method :: "string \<times> string \<times> handler_info \<Rightarrow> bool" where
  "unary_method x \<longleftrightarrow> hi_kind (snd (snd x)) = HandlerKindUnary"

lemma generate_paths_routes:
  assumes "generate_paths e base xs acc = Some acc'" "list_all unary_method xs"
  shows "(\<forall>p m. op_at (fst acc) p m \<noteq> None \<longrightarrow> op_at (fst acc') p m \<noteq> None) \<and>
    (\<forall>x\<in>set xs. op_at (fst acc') (base @ rt_path (method_route e x)) (rt_method (method_route e x)) \<noteq> None) \<and>
    (\<forall>p m op. op_at (fst acc') p m = Some op \<longrightarrow> op_at (fst acc) p m = Some op \<or>
       (\<exists>x\<in>set xs. describes e base p (method_route e x) op \<and> m = rt_method (method_route e x)))"
  using assms
proof (induction xs arbitrary: acc)
  case (Cons x xs)
  obtain gn mn info where x: "x = (gn, mn, info)" by (metis surj_pair)
  let ?rt = "method_route e x"
  obtain path op g where st: "build_operation e gn mn info (snd acc) = Some (path, op, g)"
      "generate_paths e base xs (add_operation (base @ path) (inferHTTPMethod mn) op (fst acc), g) = Some acc'"
    using generate_paths_step [of e base gn mn info xs acc acc'] Cons.prems x by (auto simp: unary_method_def)
  have d: "describes e base (base @ path) ?rt op"
    using build_operation_describes [OF st(1)] by (simp add: method_route_def x)
  have m: "rt_method ?rt = inferHTTPMethod mn" by (simp add: method_route_def x build_route_def split: prod.splits)
  have p: "path = rt_path ?rt" using d by (simp add: describes_def)
  have u: "list_all unary_method xs" using Cons.prems(2) by simp
  note ih = Cons.IH [OF st(2) u, THEN conjunct1] Cons.IH [OF st(2) u, THEN conjunct2, THEN conjunct1]
    Cons.IH [OF st(2) u, THEN conjunct2, THEN conjunct2]
  have mono: "op_at (fst acc') q n \<noteq> None" if "op_at (fst acc) q n \<noteq> None" for q n
    using ih(1) [rule_format, of q n] that by (simp add: op_at_add split: if_splits)
  have here: "op_at (fst acc') (base @ rt_path ?rt) (rt_method ?rt) \<noteq> None"
    using ih(1) [rule_format, of "base @ rt_path ?rt" "rt_method ?rt"] m p by (simp add: op_at_add)
  have origin: "op_at (fst acc) q n = Some o1 \<or>
      (\<exists>y\<in>set (x # xs). describes e base q (method_route e y) o1 \<and> n = rt_method (method_route e y))"
    if "op_at (fst acc') q n = Some o1" for q n o1
    using ih(3) [rule_format, OF that] d m by (auto simp: op_at_add split: if_splits)
  show ?case using mono here origin ih(2) by simp
qed simp

lemma rest_methods_unary:
  assumes "(reg_step te)\<^sup>*\<^sup>* NewRegistry r"
  shows "list_all unary_method (rest_methods r)"
proof -
  have inv: "dispatch_ok r" "exposed_ok r" using reg_ts.inv_reachable [OF refl assms(1)] by (auto simp: reg_inv_def)
  have "hi_kind (the (map_of (g_handlers g) m)) = HandlerKindUnary"
    if h: "IsREST gn r" "Some g = map_of (rg_groups r) gn" "(m, v) \<in> set (g_handlers g)" for gn g m v
  proof -
    have "gn \<in> set (rg_rest r)" using h(1) by (simp add: IsREST_def)
    then have "\<exists>h. map_of (rg_groups r) gn = Some h \<and> all_unary h" using inv(2) by (simp add: exposed_ok_def)
    then have "all_unary g" using h(2) [symmetric] by simp
    moreover obtain i where "map_of (g_handlers g) m = Some i" using h(3) by (metis not_None_eq map_of_eq_None_iff fst_conv image_eqI)
    ultimately show ?thesis by (auto simp: all_unary_def)
  qed
  then have "\<forall>x\<in>set (rest_methods r). unary_method x"
    by (auto simp: unary_method_def rest_methods_def split: if_splits option.splits)
  then show ?thesis by (simp add: list_all_iff)
qed

text \<open>
  Property C25. The document describes exactly the routes that the REST adapter serves, under the base path: every
  route has an operation at its path and method, and every operation is that of such a route, with its
  path parameters in order and a body exactly when the route has one.
\<close>

theorem openapi_describes_routes:
  assumes "(reg_step te)\<^sup>*\<^sup>* NewRegistry r" "OpenAPI_Generate e base r = Some doc"
  shows "(\<forall>rt\<in>set (buildRoutes (oe_naming e) (oe_paramNames e) r). op_at (os_Paths doc) (base @ rt_path rt) (rt_method rt) \<noteq> None) \<and>
    (\<forall>p m op. op_at (os_Paths doc) p m = Some op \<longrightarrow>
       (\<exists>rt\<in>set (buildRoutes (oe_naming e) (oe_paramNames e) r). describes e base p rt op \<and> m = rt_method rt))"
proof -
  obtain g where gen: "generate_paths e base (rest_methods r) ([], \<lparr>sg_refs = Some [], sg_building = []\<rparr>) = Some (os_Paths doc, g)"
    using assms(2) by (auto simp: OpenAPI_Generate_def)
  note gp = generate_paths_routes [OF gen rest_methods_unary [OF assms(1)], THEN conjunct2]
  have a: "op_at (os_Paths doc) (base @ rt_path rt) (rt_method rt) \<noteq> None"
    if "rt \<in> set (buildRoutes (oe_naming e) (oe_paramNames e) r)" for rt
    using gp [THEN conjunct1] that by (auto simp: buildRoutes_method_route)
  have b: "\<exists>rt\<in>set (buildRoutes (oe_naming e) (oe_paramNames e) r). describes e base p rt op \<and> m = rt_method rt"
    if "op_at (os_Paths doc) p m = Some op" for p m op
  proof -
    have "op_at [] p m \<noteq> Some op" by (simp add: op_at_def)
    then show ?thesis using gp [THEN conjunct2, rule_format, of p m op] that by (simp add: buildRoutes_method_route)
  qed
  show ?thesis using a b by blast
qed

section \<open>References resolve\<close>

text \<open>The schemas of an operation, and the references a document has a schema for.\<close>

definition op_schemas :: "operation \<Rightarrow> jschema list" where
  "op_schemas op =
     map snd (op_Parameters op) @ (case op_RequestBody op of None \<Rightarrow> [] | Some s \<Rightarrow> [s]) @
     concat (map (\<lambda>(c, d, s). case s of None \<Rightarrow> [] | Some s \<Rightarrow> [s]) (op_Responses op))"

definition schemas_in :: "schema_gen \<Rightarrow> jschema list \<Rightarrow> bool" where
  "schemas_in g ss \<longleftrightarrow> (\<forall>s\<in>set ss. set (schema_refs s) \<subseteq> allowed g)"

lemma schemas_in_later: "schemas_in g ss \<Longrightarrow> later g g' \<Longrightarrow> schemas_in g' ss"
  using allowed_later unfolding schemas_in_def by blast

lemma op_schema_ok:
  "op_schema e t g = Some (s, g') \<Longrightarrow> refs_ok g \<Longrightarrow> later g g' \<and> refs_ok g' \<and> schemas_in g' [s]"
  using schema_refs_resolve(1) by (simp add: op_schema_def schemas_in_def)

lemma param_schemas_ok:
  "param_schemas e ps g = Some (ss, g') \<Longrightarrow> refs_ok g \<Longrightarrow> later g g' \<and> refs_ok g' \<and> schemas_in g' (map snd ss)"
proof (induction e ps g arbitrary: ss g' rule: param_schemas.induct)
  case (2 e n t ps g)
  obtain s g1 ss1 where s: "op_schema e t g = Some (s, g1)" "param_schemas e ps g1 = Some (ss1, g')" "ss = (n, s) # ss1"
    using 2(2) by (auto simp: bind_eq_Some_conv)
  have a: "later g g1" "refs_ok g1" "schemas_in g1 [s]" using op_schema_ok [OF s(1) 2(3)] by simp_all
  have b: "later g1 g'" "refs_ok g'" "schemas_in g' (map snd ss1)" using 2(1) [OF s(1) refl s(2) a(2)] by simp_all
  show ?case using later_trans [OF a(1) b(1)] b(2,3) schemas_in_later [OF a(3) b(1)] s(3) by (simp add: schemas_in_def)
qed (simp add: schemas_in_def)

lemma opt_schema_ok:
  "opt_schema e t g = Some (s, g') \<Longrightarrow> refs_ok g \<Longrightarrow>
     later g g' \<and> refs_ok g' \<and> schemas_in g' (case s of None \<Rightarrow> [] | Some s \<Rightarrow> [s])"
  using op_schema_ok [of e _ g _ g'] by (cases t) (auto simp: opt_schema_def schemas_in_def)

lemma build_operation_ok:
  assumes "build_operation e gn mn info g = Some (path, op, g')" "refs_ok g"
  shows "later g g' \<and> refs_ok g' \<and> schemas_in g' (op_schemas op)"
proof -
  obtain ps body where pb: "path_and_body (oe_paramNames e (hi_struct info) (hi_name info)) 0 (hi_params info) = (ps, body)"
    by (metis surj_pair)
  obtain ss g1 bs g2 rs where s: "param_schemas e ps g = Some (ss, g1)" "opt_schema e body g1 = Some (bs, g2)"
      "opt_schema e (if hi_isVoid info then None else hi_response info) g2 = Some (rs, g')"
      "op_Parameters op = ss" "op_RequestBody op = bs"
      "op_Responses op = (if hi_isVoid info then [(204, ''No content'', None)] else [(200, ''Successful response'', rs)]) @
         [(422, ''Validation error'', None), (500, ''Internal server error'', None)]"
    using assms(1) by (auto simp: build_operation_def pb bind_eq_Some_conv Let_def)
  note a = param_schemas_ok [OF s(1) assms(2)]
  note b = opt_schema_ok [OF s(2) a [THEN conjunct2, THEN conjunct1]]
  note c = opt_schema_ok [OF s(3) b [THEN conjunct2, THEN conjunct1]]
  have "schemas_in g' (map snd ss)" using a b c schemas_in_later by blast
  moreover have "schemas_in g' (case bs of None \<Rightarrow> [] | Some s \<Rightarrow> [s])" using b c schemas_in_later by blast
  moreover have "later g g'" using a b c later_trans by blast
  ultimately show ?thesis using c s(4-) by (auto simp: op_schemas_def schemas_in_def)
qed

definition paths_ok :: "schema_gen \<Rightarrow> (string, path_item) gomap \<Rightarrow> bool" where
  "paths_ok g paths \<longleftrightarrow> (\<forall>(p, item)\<in>set paths. \<forall>(m, op)\<in>set item. schemas_in g (op_schemas op))"

lemma paths_ok_later: "paths_ok g ps \<Longrightarrow> later g g' \<Longrightarrow> paths_ok g' ps"
  using schemas_in_later unfolding paths_ok_def by fastforce

lemma paths_ok_add:
  assumes "paths_ok g paths" "schemas_in g (op_schemas op)"
  shows "paths_ok g (add_operation p m op paths)"
proof -
  define item where "item = (case map_of paths p of Some item \<Rightarrow> item | None \<Rightarrow> [])"
  have "\<forall>x\<in>set item. schemas_in g (op_schemas (snd x))"
  proof (cases "map_of paths p")
    case (Some it)
    then have "(p, it) \<in> set paths" by (rule map_of_SomeD)
    then show ?thesis using assms(1) Some by (fastforce simp: paths_ok_def item_def)
  qed (simp add: item_def)
  then have "\<forall>x\<in>set (AList.update m op item). schemas_in g (op_schemas (snd x))"
    using set_update [of m op item] assms(2) by auto
  then show ?thesis
    using set_update [of p "AList.update m op item" paths] assms(1)
    unfolding add_operation_def item_def [symmetric] paths_ok_def by fastforce
qed

lemma generate_paths_ok:
  "generate_paths e base xs acc = Some acc' \<Longrightarrow> refs_ok (snd acc) \<Longrightarrow> paths_ok (snd acc) (fst acc) \<Longrightarrow>
     refs_ok (snd acc') \<and> paths_ok (snd acc') (fst acc')"
proof (induction xs arbitrary: acc)
  case (Cons x xs)
  obtain gn mn info where x: "x = (gn, mn, info)" by (metis surj_pair)
  show ?case
  proof (cases "hi_kind info = HandlerKindUnary")
    case True
    then obtain path op g where st: "build_operation e gn mn info (snd acc) = Some (path, op, g)"
        "generate_paths e base xs (add_operation (base @ path) (inferHTTPMethod mn) op (fst acc), g) = Some acc'"
      using generate_paths_step [of e base gn mn info xs acc acc'] Cons.prems(1) x by auto
    note b = build_operation_ok [OF st(1) Cons.prems(2)]
    then show ?thesis using Cons.IH [OF st(2)] paths_ok_add paths_ok_later Cons.prems(3) by simp
  next
    case False
    then show ?thesis using Cons x by simp
  qed
qed simp

lemma collect_keys: "fst ` set (collect_schemas g) = component_name ` fst ` set (components g)"
proof -
  have "fst ` set (fold (\<lambda>(t, s). AList.update (component_name t) s) cs m) = fst ` set m \<union> component_name ` fst ` set cs"
    for cs and m :: "(string, jschema) gomap"
  proof (induction cs arbitrary: m)
    case (Cons c cs)
    then show ?case by (simp add: case_prod_beta AList.dom_update insert_commute Un_commute)
  qed simp
  then show ?thesis by (simp add: collect_schemas_def)
qed

lemma collect_values: "(n, s) \<in> set (collect_schemas g) \<Longrightarrow> \<exists>t. (t, s) \<in> set (components g)"
proof -
  have "(n, s) \<in> set (fold (\<lambda>(t, s). AList.update (component_name t) s) cs m) \<Longrightarrow> (n, s) \<in> set m \<or> (\<exists>t. (t, s) \<in> set cs)"
    for cs m
  proof (induction cs arbitrary: m)
    case (Cons c cs)
    then show ?case using set_update [of "component_name (fst c)" "snd c" m] by (cases c) fastforce
  qed simp
  then show "(n, s) \<in> set (collect_schemas g) \<Longrightarrow> \<exists>t. (t, s) \<in> set (components g)"
    unfolding collect_schemas_def by fastforce
qed

text \<open>All references of a document, and those it defines.\<close>

definition document_refs :: "openapi_spec \<Rightarrow> string set" where
  "document_refs doc =
     (\<Union>(p, item)\<in>set (os_Paths doc). \<Union>(m, op)\<in>set item. \<Union>s\<in>set (op_schemas op). set (schema_refs s)) \<union>
     (\<Union>(n, s)\<in>set (os_Schemas doc). set (schema_refs s))"

definition document_components :: "openapi_spec \<Rightarrow> string set" where
  "document_components doc = (\<lambda>n. ref_prefix @ n) ` fst ` set (os_Schemas doc)"

text \<open>
  Property C26. Every reference of the document, in an operation or in a component, names a component that the document
  has; recursive structs are no exception.
\<close>

theorem openapi_refs_resolve:
  assumes "OpenAPI_Generate e base r = Some doc"
  shows "document_refs doc \<subseteq> document_components doc"
proof -
  obtain g where gen: "generate_paths e base (rest_methods r) ([], \<lparr>sg_refs = Some [], sg_building = []\<rparr>) = Some (os_Paths doc, g)"
      and sch: "os_Schemas doc = collect_schemas g"
    using assms by (auto simp: OpenAPI_Generate_def)
  have ok: "refs_ok g" "paths_ok g (os_Paths doc)"
    using generate_paths_ok [OF gen] by (simp_all add: refs_ok_def paths_ok_def components_def)
  have def: "document_components doc = allowed g"
    unfolding document_components_def sch collect_keys by (simp add: allowed_def ref_of_def image_image)
  have "(\<Union>(n, s)\<in>set (os_Schemas doc). set (schema_refs s)) \<subseteq> allowed g"
    using ok(1) collect_values unfolding sch refs_ok_def by fastforce
  moreover have "(\<Union>(p, item)\<in>set (os_Paths doc). \<Union>(m, op)\<in>set item. \<Union>s\<in>set (op_schemas op). set (schema_refs s)) \<subseteq> allowed g"
    using ok(2) unfolding paths_ok_def schemas_in_def by fastforce
  ultimately show ?thesis by (simp add: document_refs_def def)
qed

section \<open>The generator ends\<close>

text \<open>The types of the parameters and the response of a handler.\<close>

definition handler_types :: "handler_info \<Rightarrow> gotype list" where
  "handler_types info = map pi_type (hi_params info) @ (case hi_response info of None \<Rightarrow> [] | Some t \<Rightarrow> [t])"

definition type_fits :: "openapi_env \<Rightarrow> rtype set \<Rightarrow> nat \<Rightarrow> gotype \<Rightarrow> bool" where
  "type_fits e U m t \<longleftrightarrow> set (struct_parts (oe_view e t)) \<subseteq> U \<and> size (oe_view e t) \<le> m"

definition deep_enough :: "openapi_env \<Rightarrow> rtype set \<Rightarrow> nat \<Rightarrow> bool" where
  "deep_enough e U m \<longleftrightarrow> field_universe (oe_schema e) U m \<and> m + card U * (m + 4) < oe_depth e"

lemma op_schema_ends:
  assumes "deep_enough e U m" "type_fits e U m t" "refs_ok g"
  shows "\<exists>s g'. op_schema e t g = Some (s, g') \<and> refs_ok g'"
proof -
  have u: "field_universe (oe_schema e) U m" "m + card U * (m + 4) < oe_depth e" using assms(1) by (simp_all add: deep_enough_def)
  have "unopened U g \<le> card U" using u(1) by (auto simp: unopened_def field_universe_def intro: card_mono)
  then have "unopened U g * (m + 4) \<le> card U * (m + 4)" by (rule mult_le_mono1)
  then have "size (oe_view e t) + unopened U g * (m + 4) < oe_depth e" using assms(2) u(2) unfolding type_fits_def by linarith
  then have "op_schema e t g \<noteq> None"
    using schema_ends(1) [OF u(1) _ assms(3)] assms(2) by (simp add: op_schema_def type_fits_def)
  then show ?thesis using op_schema_ok [OF _ assms(3)] by fastforce
qed

lemma param_schemas_end:
  "deep_enough e U m \<Longrightarrow> list_all (type_fits e U m \<circ> snd) ps \<Longrightarrow> refs_ok g \<Longrightarrow>
     \<exists>ss g'. param_schemas e ps g = Some (ss, g') \<and> refs_ok g'"
proof (induction e ps g rule: param_schemas.induct)
  case (2 e n t ps g)
  obtain s g1 where s: "op_schema e t g = Some (s, g1)" "refs_ok g1" using op_schema_ends [OF 2(2) _ 2(4), of t] 2(3) by auto
  then show ?case using 2(1) [OF s(1) refl 2(2) _ s(2)] 2(3) by auto
qed simp

lemma opt_schema_ends:
  "deep_enough e U m \<Longrightarrow> pred_option (type_fits e U m) t \<Longrightarrow> refs_ok g \<Longrightarrow>
     \<exists>s g'. opt_schema e t g = Some (s, g') \<and> refs_ok g'"
  using op_schema_ends by (cases t) (fastforce simp: opt_schema_def)+

lemma path_and_body_types:
  "path_and_body ast i ps = (pathParams, body) \<Longrightarrow> list_all (P \<circ> pi_type) ps \<Longrightarrow>
     list_all (P \<circ> snd) pathParams \<and> pred_option P body"
  by (induction ast i ps arbitrary: pathParams body rule: path_and_body.induct) (auto split: prod.splits if_splits)

lemma build_operation_ends:
  assumes "deep_enough e U m" "list_all (type_fits e U m) (handler_types info)" "refs_ok g"
  shows "\<exists>path op g'. build_operation e gn mn info g = Some (path, op, g') \<and> refs_ok g'"
proof -
  obtain ps body where pb: "path_and_body (oe_paramNames e (hi_struct info) (hi_name info)) 0 (hi_params info) = (ps, body)"
    by (metis surj_pair)
  have t: "list_all (type_fits e U m \<circ> snd) ps" "pred_option (type_fits e U m) body"
    "pred_option (type_fits e U m) (if hi_isVoid info then None else hi_response info)"
    using path_and_body_types [OF pb, of "type_fits e U m"] assms(2)
    by (auto simp: handler_types_def list_all_iff split: option.splits) (cases "hi_response info"; simp)
  obtain ss g1 where a: "param_schemas e ps g = Some (ss, g1)" "refs_ok g1" using param_schemas_end [OF assms(1) t(1) assms(3)] by blast
  obtain bs g2 where b: "opt_schema e body g1 = Some (bs, g2)" "refs_ok g2" using opt_schema_ends [OF assms(1) t(2) a(2)] by blast
  obtain rs g3 where c: "opt_schema e (if hi_isVoid info then None else hi_response info) g2 = Some (rs, g3)" "refs_ok g3"
    using opt_schema_ends [OF assms(1) t(3) b(2)] by blast
  show ?thesis using a(1) b(1) c by (simp add: build_operation_def pb)
qed

lemma generate_paths_end:
  "deep_enough e U m \<Longrightarrow> list_all (\<lambda>x. list_all (type_fits e U m) (handler_types (snd (snd x)))) xs \<Longrightarrow> refs_ok (snd acc) \<Longrightarrow>
     generate_paths e base xs acc \<noteq> None"
proof (induction xs arbitrary: acc)
  case (Cons x xs)
  obtain gn mn info where x: "x = (gn, mn, info)" by (metis surj_pair)
  show ?case
  proof (cases "hi_kind info = HandlerKindUnary")
    case True
    obtain path op g where b: "build_operation e gn mn info (snd acc) = Some (path, op, g)" "refs_ok g"
      using build_operation_ends [OF Cons.prems(1) _ Cons.prems(3), of info gn mn] Cons.prems(2) x by auto
    then show ?thesis using Cons.IH [OF Cons.prems(1), of "(add_operation (base @ path) (inferHTTPMethod mn) op (fst acc), g)"]
        Cons.prems(2) x True by simp
  next
    case False
    then show ?thesis using Cons x by simp
  qed
qed simp

text \<open>
  The generator ends, recursive types included, when the structs its handlers reach are finitely many and
  the nesting is bounded by their number times the size of their field types.
\<close>

theorem openapi_generate_ends:
  assumes "deep_enough e U m" "\<forall>x\<in>set (rest_methods r). list_all (type_fits e U m) (handler_types (snd (snd x)))"
  shows "OpenAPI_Generate e base r \<noteq> None"
  using generate_paths_end [OF assms(1), of "rest_methods r" "([], \<lparr>sg_refs = Some [], sg_building = []\<rparr>)" base] assms(2)
  by (simp add: OpenAPI_Generate_def list_all_iff refs_ok_def components_def)

section \<open>An instance\<close>

text \<open>A REST group with a recursive struct as the body and the response of its method.\<close>

definition todo_ins :: "gotype list" where
  "todo_ins = [GIface ''context.Context'', GString, GPtr (GStruct ''Req'')]"

definition todo_struct :: handler_struct where
  "todo_struct = \<lparr>hs_pointer = True, hs_name = ''Todos'', hs_methods =
     [\<lparr>m_name = ''CreateTodo'', m_ins = todo_ins, m_variadic = False, m_outs = [GPtr (GStruct ''Req''), GIface ''error'']\<rparr>]\<rparr>"

definition todo_registry :: "(string, int) registry" where
  "todo_registry = (case RegisterREST te0 todo_struct [] NewRegistry of Inr r \<Rightarrow> r | Inl e \<Rightarrow> NewRegistry)"

definition req_type :: rtype where
  "req_type = RStruct (''app/api'', ''Req'')"

fun view0 :: "gotype \<Rightarrow> rtype" where
  "view0 (GPtr t) = RPtr (view0 t)"
| "view0 (GSlice t) = RSlice ([], []) (view0 t)"
| "view0 (GStruct n) = req_type"
| "view0 t = RString ([], [])"

definition todo_env :: openapi_env where
  "todo_env = \<lparr>oe_schema = \<lparr>se_gen = plain_env (\<lambda>n. if n = (''app/api'', ''Req'')
        then [demo_field ''Name'' (RString ([], [])), demo_field ''Next'' (RPtr req_type)] else []),
       se_float = (\<lambda>s. None), se_typeDoc = (\<lambda>s. []), se_fieldDoc = (\<lambda>s t. [])\<rparr>,
     oe_depth = 20, oe_view = view0, oe_naming = DefaultNaming True, oe_paramNames = (\<lambda>s m. [''id'', ''req'']),
     oe_handlerDoc = (\<lambda>s m. []), oe_synopsis = (\<lambda>s. s)\<rparr>"

lemma todo_registered: "RegisterREST te0 todo_struct [] NewRegistry = Inr todo_registry"
proof -
  have "\<not> (case RegisterREST te0 todo_struct [] (NewRegistry :: (string, int) registry) of Inl _ \<Rightarrow> True | Inr _ \<Rightarrow> False)"
    by code_simp
  then show ?thesis by (simp add: todo_registry_def split: sum.splits)
qed

lemma todo_reachable: "(reg_step te0)\<^sup>*\<^sup>* NewRegistry todo_registry"
  by (rule r_into_rtranclp, rule rs_rest [OF _ todo_registered]) code_simp

lemma todo_document:
  "map_option (\<lambda>doc. (map (\<lambda>(p, item). (p, map fst item)) (os_Paths doc), map fst (os_Schemas doc)))
     (OpenAPI_Generate todo_env ''/v1'' todo_registry) =
   Some ([(''/v1/todos/create-todo/{id}'', [HTTPPost])], [''Req''])"
  by code_simp

lemma todo_routes:
  "map (\<lambda>rt. (rt_path rt, rt_method rt, map fst (rt_pathParams rt), rt_body rt \<noteq> None))
     (buildRoutes (oe_naming todo_env) (oe_paramNames todo_env) todo_registry) =
   [(''/todos/create-todo/{id}'', HTTPPost, [''id''], True)]"
  by code_simp

theorem openapi_describes_routes_witness:
  "\<exists>doc op. OpenAPI_Generate todo_env ''/v1'' todo_registry = Some doc \<and>
     op_at (os_Paths doc) ''/v1/todos/create-todo/{id}'' HTTPPost = Some op \<and>
     map fst (op_Parameters op) = [''id''] \<and> op_RequestBody op \<noteq> None"
proof -
  obtain doc where doc: "OpenAPI_Generate todo_env ''/v1'' todo_registry = Some doc" using todo_document by auto
  obtain rt where rt: "buildRoutes (oe_naming todo_env) (oe_paramNames todo_env) todo_registry = [rt]"
      "rt_path rt = ''/todos/create-todo/{id}''" "rt_method rt = HTTPPost" "map fst (rt_pathParams rt) = [''id'']" "rt_body rt \<noteq> None"
    using todo_routes by auto
  note d = openapi_describes_routes [OF todo_reachable doc]
  obtain op where op: "op_at (os_Paths doc) (''/v1'' @ rt_path rt) (rt_method rt) = Some op"
    using d [THEN conjunct1] by (auto simp: rt(1))
  have "describes todo_env ''/v1'' (''/v1'' @ rt_path rt) rt op"
    using d [THEN conjunct2, rule_format, OF op] by (simp add: rt(1))
  then show ?thesis using doc op rt by (simp add: describes_def)
qed

theorem openapi_refs_resolve_witness:
  "\<exists>doc. OpenAPI_Generate todo_env ''/v1'' todo_registry = Some doc \<and> document_refs doc \<subseteq> {''#/components/schemas/Req''}"
proof -
  obtain doc where doc: "OpenAPI_Generate todo_env ''/v1'' todo_registry = Some doc" "map fst (os_Schemas doc) = [''Req'']"
    using todo_document by auto
  have "document_components doc = {''#/components/schemas/Req''}"
    using doc(2) unfolding document_components_def set_map [symmetric] by (simp add: ref_prefix_def)
  then show ?thesis using openapi_refs_resolve [OF doc(1)] doc(1) by auto
qed

lemma todo_fits:
  "field_universe (oe_schema todo_env) {req_type} 5 \<and>
   list_all (\<lambda>x. list_all (type_fits todo_env {req_type} 5) (handler_types (snd (snd x)))) (rest_methods todo_registry)"
proof -
  have "fields_of (se_gen (oe_schema todo_env)) req_type = [demo_field ''Name'' (RString ([], [])), demo_field ''Next'' (RPtr req_type)]"
    by code_simp
  moreover have "struct_parts (RPtr req_type) = [req_type]" "struct_parts (RString ([], [])) = []" "struct_parts req_type = [req_type]"
    by code_simp+
  moreover have "map (\<lambda>x. map view0 (handler_types (snd (snd x)))) (rest_methods todo_registry) =
      [[RString ([], []), RPtr req_type, req_type]]"
    by code_simp
  moreover have "oe_view todo_env = view0" by (simp add: todo_env_def)
  ultimately show ?thesis
    by (auto simp: field_universe_def type_fits_def demo_field_def req_type_def list_all_iff)
qed

theorem openapi_generate_ends_witness: "OpenAPI_Generate todo_env ''/v1'' todo_registry \<noteq> None"
  using openapi_generate_ends [of todo_env "{req_type}" 5 todo_registry "''/v1''"] todo_fits
  by (simp add: deep_enough_def list_all_iff todo_env_def)

end
