(* ===== verification/Aprot_Mcp.thy ===== *)
theory Aprot_Mcp
  imports Aprot_OpenApi
begin

text \<open>
  Handlers as MCP tools: the descriptors of the tools and how the arguments of a call become positional
  parameters (\<open>mcp_registry.go\<close>), and the adapter that answers JSON-RPC requests over HTTP
  (\<open>mcp/mcp.go\<close>).

  The JSON decoder, the encoder of results and the middleware chain are parameters. The settings given
  to \<open>EnableMCP\<close> are a function of the wire method.
\<close>

section \<open>Tools\<close>

record mcp_tool =
  mt_Name :: string
  mt_Title :: string
  mt_Description :: string
  mt_ReadOnly :: bool
  mt_Destructive :: bool
  mt_Idempotent :: bool
  mt_OpenWorld :: bool

record mcp_param =
  mp_Name :: string
  mp_Struct :: bool
  mp_Required :: bool

record mcp_tool_info =
  ti_Name :: string
  ti_Title :: string
  ti_Description :: string
  ti_Method :: string
  ti_InputSchema :: jschema
  ti_ReadOnly :: bool
  ti_Destructive :: bool
  ti_Idempotent :: bool
  ti_OpenWorld :: bool
  ti_Params :: "mcp_param list"
  ti_SingleStruct :: bool

datatype mcp_panic = ToolNameTwice string string string | ToollessGroups "string list"

definition inline_gen :: schema_gen where
  "inline_gen = \<lparr>sg_refs = None, sg_building = []\<rparr>"

fun is_pointer :: "gotype \<Rightarrow> bool" where
  "is_pointer (GPtr t) \<longleftrightarrow> True"
| "is_pointer _ \<longleftrightarrow> False"

definition param_name :: "string list \<Rightarrow> nat \<Rightarrow> string" where
  "param_name astNames i = (if i < length astNames then astNames ! i else ''arg'' @ nat_str i)"

definition named_param :: "string list \<Rightarrow> nat \<Rightarrow> param_info \<Rightarrow> mcp_param" where
  "named_param ast i p =
     \<lparr>mp_Name = param_name ast i, mp_Struct = is_struct (deref (pi_type p)), mp_Required = \<not> is_pointer (pi_type p)\<rparr>"

text \<open>The loop over the parameters: the plan, the properties and the required names so far.\<close>

type_synonym binding_acc = "mcp_param list \<times> (string, jschema) gomap \<times> string list"

fun named_binding ::
  "openapi_env \<Rightarrow> string list \<Rightarrow> nat \<Rightarrow> param_info list \<Rightarrow> binding_acc \<Rightarrow> schema_gen \<Rightarrow> (binding_acc \<times> schema_gen) option" where
  "named_binding e ast i [] acc g = Some (acc, g)"
| "named_binding e ast i (p # ps) (params, props, req) g =
     Option.bind (op_schema e (pi_type p) g) (\<lambda>(s, g').
       let mp = named_param ast i p
       in named_binding e ast (Suc i) ps
            (params @ [mp], AList.update (mp_Name mp) s props, if mp_Required mp then req @ [mp_Name mp] else req) g')"

definition object_schema :: "string list \<Rightarrow> (string, jschema) gomap \<Rightarrow> jschema" where
  "object_schema req props = Schema (no_attrs\<lparr>sa_Type := ''object'', sa_Required := sort req\<rparr>) props None None"

definition mcpBinding :: "openapi_env \<Rightarrow> handler_info \<Rightarrow> schema_gen \<Rightarrow> ((mcp_param list \<times> bool \<times> jschema) \<times> schema_gen) option" where
  "mcpBinding e info g =
     (let named = (\<lambda>g. map_option (\<lambda>((params, props, req), g'). ((params, False, object_schema req props), g'))
                   (named_binding e (oe_paramNames e (hi_struct info) (hi_name info)) 0 (hi_params info) ([], [], []) g))
      in if length (hi_params info) = 1 \<and> is_struct (deref (pi_type (hd (hi_params info))))
         then Option.bind (op_schema e (pi_type (hd (hi_params info))) g) (\<lambda>(s, g').
                if sa_Type (sc_attrs s) \<noteq> ''object'' then named g'
                else Some (([\<lparr>mp_Name = [], mp_Struct = True, mp_Required = \<not> is_pointer (pi_type (hd (hi_params info)))\<rparr>], True, s), g'))
         else named g)"

definition tool_name :: "mcp_tool \<Rightarrow> handler_info \<Rightarrow> string" where
  "tool_name t info = (if mt_Name t = [] then toSnake (hi_struct info) @ ''_'' @ toSnake (hi_name info) else mt_Name t)"

definition tool_info :: "openapi_env \<Rightarrow> mcp_tool \<Rightarrow> string \<Rightarrow> handler_info \<Rightarrow> mcp_param list \<times> bool \<times> jschema \<Rightarrow> mcp_tool_info" where
  "tool_info e t w info b =
     (case b of (params, single, schema) \<Rightarrow>
        \<lparr>ti_Name = tool_name t info, ti_Title = mt_Title t,
         ti_Description = (if mt_Description t = [] then TrimSpace (oe_handlerDoc e (hi_struct info) (hi_name info)) else mt_Description t),
         ti_Method = w, ti_InputSchema = schema, ti_ReadOnly = mt_ReadOnly t, ti_Destructive = mt_Destructive t,
         ti_Idempotent = mt_Idempotent t, ti_OpenWorld = mt_OpenWorld t, ti_Params = params, ti_SingleStruct = single\<rparr>)"

text \<open>The loop of \<open>MCPTools\<close> with the names seen; a wire method that resolves to nothing is skipped.\<close>

fun resolve_tools ::
  "openapi_env \<Rightarrow> (string \<Rightarrow> mcp_tool) \<Rightarrow> ('m, 'v) registry \<Rightarrow> string list \<Rightarrow> (string \<times> string) list \<Rightarrow> schema_gen \<Rightarrow>
     (mcp_panic + mcp_tool_info list) option" where
  "resolve_tools e st r [] seen g = Some (Inr [])"
| "resolve_tools e st r (w # ws) seen g =
     (case lookupMethod w r of
        None \<Rightarrow> resolve_tools e st r ws seen g
      | Some info \<Rightarrow>
          let n = tool_name (st w) info
          in case map_of seen n of
               Some prev \<Rightarrow> Some (Inl (ToolNameTwice n prev w))
             | None \<Rightarrow>
                 Option.bind (mcpBinding e info g) (\<lambda>(b, g').
                   map_option (map_sum id (\<lambda>ts. tool_info e (st w) w info b # ts)) (resolve_tools e st r ws ((n, w) # seen) g')))"

definition MCPTools :: "openapi_env \<Rightarrow> (string \<Rightarrow> mcp_tool) \<Rightarrow> ('m, 'v) registry \<Rightarrow> (mcp_panic + mcp_tool_info list) option" where
  "MCPTools e st r = map_option (map_sum id (sort_key ti_Name)) (resolve_tools e st r (rg_mcpTools r) [] inline_gen)"

section \<open>The adapter\<close>

record mcp_options =
  mo_ServerName :: string
  mo_ServerTitle :: string
  mo_ServerVersion :: string
  mo_Instructions :: string

record adapter =
  ad_opts :: mcp_options
  ad_tools :: "(string, mcp_tool_info) gomap"
  ad_order :: "string list"

definition group_of :: "string \<Rightarrow> string" where
  "group_of w = takeWhile (\<lambda>c. c \<noteq> CHR ''.'') w"

definition NewAdapter ::
  "openapi_env \<Rightarrow> (string \<Rightarrow> mcp_tool) \<Rightarrow> ('m, 'v) registry \<Rightarrow> mcp_options \<Rightarrow> (mcp_panic + adapter) option" where
  "NewAdapter e st r opts =
     map_option (\<lambda>res. case res of
        Inl p \<Rightarrow> Inl p
      | Inr tools \<Rightarrow>
          let toolGroups = map (group_of \<circ> ti_Method) tools;
              toolless = filter (\<lambda>n. IsMCPOnly n r \<and> n \<notin> set toolGroups) (map fst (rg_groups r))
          in if toolless \<noteq> [] then Inl (ToollessGroups (sort toolless))
             else Inr \<lparr>ad_opts = opts\<lparr>mo_ServerName := (if mo_ServerName opts = [] then ''aprot'' else mo_ServerName opts),
                                  mo_ServerVersion := (if mo_ServerVersion opts = [] then ''0.0.0'' else mo_ServerVersion opts)\<rparr>,
                    ad_tools = fold (\<lambda>t. AList.update (ti_Name t) t) tools [], ad_order = map ti_Name tools\<rparr>)
       (MCPTools e st r)"

section \<open>Requests\<close>

definition codeParseError :: int where "codeParseError = - 32700"
definition codeInvalidRequest :: int where "codeInvalidRequest = - 32600"
definition codeMethodNotFound :: int where "codeMethodNotFound = - 32601"
definition codeInvalidParams :: int where "codeInvalidParams = - 32602"
definition codeInternalError :: int where "codeInternalError = - 32603"

record rpc_request =
  rr_ID :: string
  rr_Method :: string
  rr_Params :: string

record rpc_error =
  re_Code :: int
  re_Message :: string

definition rpcError :: "int \<Rightarrow> string \<Rightarrow> rpc_error" where
  "rpcError c m = \<lparr>re_Code = c, re_Message = m\<rparr>"

record init_result =
  in_protocolVersion :: string
  in_name :: string
  in_version :: string
  in_title :: "string option"
  in_instructions :: "string option"

datatype rpc_result =
    InitResult init_result
  | EmptyResult
  | ToolList "mcp_tool_info list"
  | ToolResult (tr_structured: "string option") (tr_text: string) (tr_isError: bool)

definition protocolVersion :: string where
  "protocolVersion = ''2025-06-18''"

definition supportedVersions :: "string list" where
  "supportedVersions = [''2025-06-18'', ''2025-03-26'', ''2024-11-05'']"

text \<open>
  What the adapter meets: the decoders of a message, of the parameters of \<open>initialize\<close> and
  \<open>tools/call\<close> and of an object of raw values; for the wire method, the principal in the context and
  the chain of middleware around the handler, given the parameters; whether a result is \<open>nil\<close>, and
  the encoder of results, \<open>None\<close> for one that panics.
\<close>

record 'v mcp_env =
  me_request :: "string \<Rightarrow> rpc_request option"
  me_version :: "string \<Rightarrow> string"
  me_call :: "string \<Rightarrow> (string \<times> string) option"
  me_object :: "string \<Rightarrow> (string \<times> string) list option"
  me_resolved :: bool
  me_provider :: "'v outcome option"
  me_chain :: "string \<Rightarrow> string \<Rightarrow> 'v outcome \<times> string list"
  me_nil :: "'v result \<Rightarrow> bool"
  me_encode :: "'v payload \<Rightarrow> (string + string) option"
  me_quoted :: "string \<Rightarrow> string"

text \<open>\<open>errors.As\<close> for a protocol error: the first one in the tree of wrapped errors.\<close>

primrec as_protocol :: "'v go_error \<Rightarrow> (int \<times> string) option" where
  "as_protocol (ProtocolError a code message cause data) = Some (code, message)"
| "as_protocol (CancelReason r) = None"
| "as_protocol (OtherError a t ws) = (case filter (\<lambda>x. x \<noteq> None) (map as_protocol ws) of [] \<Rightarrow> None | x # _ \<Rightarrow> x)"

definition absent :: "string \<Rightarrow> bool" where
  "absent raw \<longleftrightarrow> raw = [] \<or> raw = ''null''"

fun bind_params :: "(string \<Rightarrow> string) \<Rightarrow> (string \<times> string) list \<Rightarrow> mcp_param list \<Rightarrow> rpc_error + string list" where
  "bind_params quoted args [] = Inr []"
| "bind_params quoted args (p # ps) =
     (case map_of args (mp_Name p) of
        None \<Rightarrow>
          if mp_Required p then Inl (rpcError codeInvalidParams (''missing required argument '' @ quoted (mp_Name p)))
          else map_sum id ((#) ''null'') (bind_params quoted args ps)
      | Some v \<Rightarrow> map_sum id ((#) v) (bind_params quoted args ps))"

text \<open>The arguments of a call that binds them by name.\<close>

definition arg_object :: "'v mcp_env \<Rightarrow> string \<Rightarrow> (string \<times> string) list option" where
  "arg_object e arguments = (if absent arguments then Some [] else me_object e arguments)"

definition bindArguments :: "'v mcp_env \<Rightarrow> mcp_tool_info \<Rightarrow> string \<Rightarrow> rpc_error + string" where
  "bindArguments e tool arguments =
     (if ti_SingleStruct tool then
        (if absent arguments
         then (if mp_Required (hd (ti_Params tool)) then Inl (rpcError codeInvalidParams ''missing arguments'') else Inr ''[null]'')
         else Inr (''['' @ arguments @ '']''))
      else
        case arg_object e arguments of
          None \<Rightarrow> Inl (rpcError codeInvalidParams ''arguments must be an object'')
        | Some args \<Rightarrow>
            map_sum id (\<lambda>parts. ''['' @ join '','' parts @ '']'') (bind_params (me_quoted e) args (ti_Params tool)))"

text \<open>What serving one request does: a result or an error, a panic of the adapter, or the abort of the connection.\<close>

datatype served = Served rpc_result | ServedError rpc_error | ServedPanic | ServedAbort

definition tool_outcome :: "'v mcp_env \<Rightarrow> 'v invoke_result \<Rightarrow> served" where
  "tool_outcome e res =
     (case res of
        Repanic \<Rightarrow> ServedAbort
      | InvokeError err \<Rightarrow>
          (case as_protocol err of
             Some (code, message) \<Rightarrow>
               if code = CodeInvalidParams then ServedError (rpcError codeInvalidParams message)
               else Served (ToolResult None (error_str err) True)
           | None \<Rightarrow> Served (ToolResult None (error_str err) True))
      | Invoked v \<Rightarrow>
          if me_nil e v then Served (ToolResult None ''OK'' False)
          else case me_encode e (rest_payload v) of
                 None \<Rightarrow> ServedPanic
               | Some (Inl err) \<Rightarrow> Served (ToolResult None (''failed to marshal tool result: '' @ err) True)
               | Some (Inr data) \<Rightarrow> Served (ToolResult (Some data) data False))"

text \<open>\<open>callTool\<close> with the triggers that \<open>Invoke\<close> flushes.\<close>

definition callTool :: "'v mcp_env \<Rightarrow> ('m, 'v) registry \<Rightarrow> adapter \<Rightarrow> string \<Rightarrow> served \<times> string list" where
  "callTool e r a params =
     (case me_call e params of
        None \<Rightarrow> (ServedError (rpcError codeInvalidParams ''invalid tools/call params''), [])
      | Some (nm, arguments) \<Rightarrow>
          (case map_of (ad_tools a) nm of
             None \<Rightarrow> (ServedError (rpcError codeInvalidParams (''unknown tool: '' @ nm)), [])
           | Some tool \<Rightarrow>
               (case bindArguments e tool arguments of
                  Inl err \<Rightarrow> (ServedError err, [])
                | Inr positional \<Rightarrow>
                    (case Invoke (\<lambda>m. map_option hi_kind (lookupMethod m r)) (ti_Method tool) (me_resolved e) (me_provider e) None
                            (me_chain e (ti_Method tool) positional) of
                       (res, q, flushed) \<Rightarrow> (tool_outcome e res, flushed)))))"

definition initialize :: "'v mcp_env \<Rightarrow> adapter \<Rightarrow> string \<Rightarrow> init_result" where
  "initialize e a params =
     (let v = me_version e params
      in \<lparr>in_protocolVersion = (if v \<in> set supportedVersions then v else protocolVersion),
          in_name = mo_ServerName (ad_opts a), in_version = mo_ServerVersion (ad_opts a),
          in_title = (if mo_ServerTitle (ad_opts a) = [] then None else Some (mo_ServerTitle (ad_opts a))),
          in_instructions = (if mo_Instructions (ad_opts a) = [] then None else Some (mo_Instructions (ad_opts a)))\<rparr>)"

definition listTools :: "adapter \<Rightarrow> mcp_tool_info list" where
  "listTools a = map (\<lambda>n. the (map_of (ad_tools a) n)) (ad_order a)"

definition dispatch_rpc :: "'v mcp_env \<Rightarrow> ('m, 'v) registry \<Rightarrow> adapter \<Rightarrow> rpc_request \<Rightarrow> served \<times> string list" where
  "dispatch_rpc e r a req =
     (if rr_Method req = ''initialize'' then (Served (InitResult (initialize e a (rr_Params req))), [])
      else if rr_Method req = ''ping'' then (Served EmptyResult, [])
      else if rr_Method req = ''tools/list'' then (Served (ToolList (listTools a)), [])
      else if rr_Method req = ''tools/call'' then callTool e r a (rr_Params req)
      else (ServedError (rpcError codeMethodNotFound (''method not found: '' @ rr_Method req)), []))"

datatype mcp_response =
    MethodNotAllowed
  | NotificationAccepted
  | RpcFailure int string rpc_error
  | RpcSuccess string rpc_result

definition answer :: "string \<Rightarrow> served \<Rightarrow> mcp_response option" where
  "answer i served =
     (case served of
        Served res \<Rightarrow> Some (RpcSuccess i res)
      | ServedError err \<Rightarrow> Some (RpcFailure 200 i err)
      | ServedPanic \<Rightarrow> Some (RpcFailure 200 i (rpcError codeInternalError ''handler panicked''))
      | ServedAbort \<Rightarrow> None)"

text \<open>
  \<open>ServeHTTP\<close>: the response, \<open>None\<close> for an aborted connection, and the triggers flushed. \<open>body\<close> is what
  reading the request gives.
\<close>

definition mcp_ServeHTTP ::
  "'v mcp_env \<Rightarrow> ('m, 'v) registry \<Rightarrow> adapter \<Rightarrow> string \<Rightarrow> string option \<Rightarrow> mcp_response option \<times> string list" where
  "mcp_ServeHTTP e r a method body =
     (if method \<noteq> ''POST'' then (Some MethodNotAllowed, [])
      else case body of
             None \<Rightarrow> (Some (RpcFailure 400 [] (rpcError codeParseError ''failed to read request body'')), [])
           | Some b \<Rightarrow>
               (case me_request e b of
                  None \<Rightarrow>
                    (Some (RpcFailure 400 []
                       (if b \<noteq> [] \<and> hd b = CHR ''['' then rpcError codeInvalidRequest ''batch requests are not supported''
                        else rpcError codeParseError ''invalid JSON-RPC message'')), [])
                | Some req \<Rightarrow>
                    if absent (rr_ID req) then (Some NotificationAccepted, [])
                    else (case dispatch_rpc e r a req of (res, keys) \<Rightarrow> (answer (rr_ID req) res, keys))))"

section \<open>The tools of a registry\<close>

lemma cut_dot_wire: "cut_dot w = Some (n, m) \<Longrightarrow> w = wire_method n m"
proof -
  assume h: "cut_dot w = Some (n, m)"
  then have d: "CHR ''.'' \<in> set w" "n = takeWhile (\<lambda>c. c \<noteq> CHR ''.'') w" "m = tl (dropWhile (\<lambda>c. c \<noteq> CHR ''.'') w)"
    by (auto simp: cut_dot_def split: if_splits)
  have "dropWhile (\<lambda>c. c \<noteq> CHR ''.'') w \<noteq> []" using d(1) by (simp add: dropWhile_eq_Nil_conv)
  then have "dropWhile (\<lambda>c. c \<noteq> CHR ''.'') w = CHR ''.'' # m"
    using hd_dropWhile [of "\<lambda>c. c \<noteq> CHR ''.''" w] d(3) by (metis list.collapse)
  then show ?thesis using d(2) takeWhile_dropWhile_id [of "\<lambda>c. c \<noteq> CHR ''.''" w] by (simp add: wire_method_def)
qed

text \<open>A lookup by wire method yields the handler of the group and method of that name.\<close>

lemma lookup_sound:
  assumes "dispatch_ok r" "lookupMethod w r = Some info"
  obtains n g m where "w = wire_method n m" "map_of (rg_groups r) n = Some g" "map_of (g_handlers g) m = Some info" "dot_free m"
proof (cases "map_of (rg_handlers r) w")
  case (Some i)
  then have "socket_method r w info" using assms by (auto simp: lookupMethod_def dispatch_ok_def)
  then obtain n g m where h: "w = wire_method n m" "map_of (rg_groups r) n = Some g" "map_of (g_handlers g) m = Some info"
    by (auto simp: socket_method_def)
  moreover have "dot_free m" using assms(1) h(2,3) by (auto simp: dispatch_ok_def group_ok_def)
  ultimately show ?thesis using that by blast
next
  case None
  then obtain n g m where h: "cut_dot w = Some (n, m)" "map_of (rg_groups r) n = Some g" "map_of (g_handlers g) m = Some info"
    using assms(2) by (auto simp: lookupMethod_def split: option.splits prod.splits)
  moreover have "dot_free m" using assms(1) h(2,3) by (auto simp: dispatch_ok_def group_ok_def)
  ultimately show ?thesis using that cut_dot_wire [OF h(1)] by blast
qed

lemma tool_lookup:
  assumes "dispatch_ok r" "exposed_ok r" "w \<in> set (rg_mcpTools r)" "lookupMethod w r = Some info"
  shows "\<exists>n g m. w = wire_method n m \<and> map_of (rg_groups r) n = Some g \<and> map_of (g_handlers g) m = Some info \<and>
    hi_kind info = HandlerKindUnary"
proof -
  obtain n g m where h: "w = wire_method n m" "map_of (rg_groups r) n = Some g" "map_of (g_handlers g) m = Some info" "dot_free m"
    using lookup_sound [OF assms(1,4)] by blast
  obtain n' g' m' i where t: "w = wire_method n' m'" "map_of (rg_groups r) n' = Some g'" "map_of (g_handlers g') m' = Some i"
      "hi_kind i = HandlerKindUnary"
    using assms(2,3) by (auto simp: exposed_ok_def)
  have "dot_free m'" using assms(1) t(2,3) by (auto simp: dispatch_ok_def group_ok_def)
  then have "n = n' \<and> m = m'" using wire_inject [OF h(4)] h(1) t(1) by metis
  then show ?thesis using h t by auto
qed

text \<open>What the plan of a tool has to do with the parameters of its handler.\<close>

definition plan_fits :: "handler_info \<Rightarrow> mcp_param list \<Rightarrow> bool" where
  "plan_fits info ps \<longleftrightarrow> map mp_Required ps = map (\<lambda>p. \<not> is_pointer (pi_type p)) (hi_params info)"

definition schema_fits :: "mcp_param list \<Rightarrow> jschema \<Rightarrow> bool" where
  "schema_fits ps s \<longleftrightarrow> set (sa_Required (sc_attrs s)) = mp_Name ` {p \<in> set ps. mp_Required p} \<and>
     fst ` set (sc_Properties s) = mp_Name ` set ps"

lemma named_binding_fits:
  "named_binding e ast i ps (params, props, req) g = Some ((params', props', req'), g') \<Longrightarrow>
     set req = mp_Name ` {p \<in> set params. mp_Required p} \<Longrightarrow> fst ` set props = mp_Name ` set params \<Longrightarrow>
     map mp_Required params' = map mp_Required params @ map (\<lambda>p. \<not> is_pointer (pi_type p)) ps \<and>
     set req' = mp_Name ` {p \<in> set params'. mp_Required p} \<and> fst ` set props' = mp_Name ` set params'"
proof (induction e ast i ps "(params, props, req)" g arbitrary: params props req rule: named_binding.induct)
  case (2 e ast i p ps params props req g)
  let ?mp = "named_param ast i p"
  obtain s g1 where s: "op_schema e (pi_type p) g = Some (s, g1)"
      "named_binding e ast (Suc i) ps (params @ [?mp], AList.update (mp_Name ?mp) s props,
         if mp_Required ?mp then req @ [mp_Name ?mp] else req) g1 = Some ((params', props', req'), g')"
    using 2(2) by (auto simp: Let_def bind_eq_Some_conv)
  have "set (if mp_Required ?mp then req @ [mp_Name ?mp] else req) = mp_Name ` {p \<in> set (params @ [?mp]). mp_Required p}"
    using 2(3) by auto
  moreover have "fst ` set (AList.update (mp_Name ?mp) s props) = mp_Name ` set (params @ [?mp])"
    using 2(4) by (simp add: AList.dom_update)
  ultimately have "map mp_Required params' = map mp_Required (params @ [?mp]) @ map (\<lambda>p. \<not> is_pointer (pi_type p)) ps \<and>
      set req' = mp_Name ` {p \<in> set params'. mp_Required p} \<and> fst ` set props' = mp_Name ` set params'"
    using 2(1) [OF s(1) refl refl s(2)] by simp
  then show ?case by (simp add: named_param_def)
qed auto

lemma mcpBinding_fits:
  assumes "mcpBinding e info g = Some ((params, single, schema), g')"
  shows "plan_fits info params \<and> (single \<longrightarrow> length params = 1) \<and> (\<not> single \<longrightarrow> schema_fits params schema)"
proof -
  let ?named = "\<lambda>g. named_binding e (oe_paramNames e (hi_struct info) (hi_name info)) 0 (hi_params info) ([], [], []) g"
  consider (single) "single" "length (hi_params info) = 1"
      "params = [\<lparr>mp_Name = [], mp_Struct = True, mp_Required = \<not> is_pointer (pi_type (hd (hi_params info)))\<rparr>]"
    | (named) h props req where "\<not> single" "?named h = Some ((params, props, req), g')" "schema = object_schema req props"
    using assms by (auto simp: mcpBinding_def Let_def bind_eq_Some_conv split: if_splits)
  then show ?thesis
  proof cases
    case single
    then show ?thesis by (cases "hi_params info") (auto simp: plan_fits_def)
  next
    case named
    from named_binding_fits [OF named(2)] named show ?thesis
      by (simp add: plan_fits_def schema_fits_def object_schema_def)
  qed
qed

text \<open>A tool that the registry resolves.\<close>

definition tool_of :: "openapi_env \<Rightarrow> (string \<Rightarrow> mcp_tool) \<Rightarrow> ('m, 'v) registry \<Rightarrow> string list \<Rightarrow> mcp_tool_info \<Rightarrow> bool" where
  "tool_of e st r ws t \<longleftrightarrow> (\<exists>info. ti_Method t \<in> set ws \<and> lookupMethod (ti_Method t) r = Some info \<and>
     ti_Name t = tool_name (st (ti_Method t)) info \<and> plan_fits info (ti_Params t) \<and> (ti_SingleStruct t \<longrightarrow> length (ti_Params t) = 1) \<and>
     (\<not> ti_SingleStruct t \<longrightarrow> schema_fits (ti_Params t) (ti_InputSchema t)))"

lemma tool_of_mono: "tool_of e st r ws t \<Longrightarrow> tool_of e st r (w # ws) t"
  by (auto simp: tool_of_def)

lemma resolve_step:
  assumes "resolve_tools e st r (w # ws) seen g = Some (Inr ts)" "lookupMethod w r = Some info"
  obtains b g' ts' where "map_of seen (tool_name (st w) info) = None" "mcpBinding e info g = Some (b, g')"
    "resolve_tools e st r ws ((tool_name (st w) info, w) # seen) g' = Some (Inr ts')" "ts = tool_info e (st w) w info b # ts'"
proof -
  have none: "map_of seen (tool_name (st w) info) = None"
    using assms by (cases "map_of seen (tool_name (st w) info)") (simp_all add: Let_def)
  then obtain b g' x where x: "mcpBinding e info g = Some (b, g')"
      "resolve_tools e st r ws ((tool_name (st w) info, w) # seen) g' = Some x"
      "map_sum id (\<lambda>ts. tool_info e (st w) w info b # ts) x = Inr ts"
    using assms by (auto simp: Let_def bind_eq_Some_conv)
  from x(3) obtain ts' where "x = Inr ts'" "ts = tool_info e (st w) w info b # ts'" by (cases x) simp_all
  then show ?thesis using that none x(1,2) by blast
qed

lemma resolve_tools_ok:
  "resolve_tools e st r ws seen g = Some (Inr ts) \<Longrightarrow>
     (\<forall>t\<in>set ts. tool_of e st r ws t) \<and> distinct (map ti_Name ts) \<and> set (map ti_Name ts) \<inter> fst ` set seen = {}"
proof (induction ws arbitrary: seen g ts)
  case (Cons w ws)
  show ?case
  proof (cases "lookupMethod w r")
    case None
    then have "resolve_tools e st r ws seen g = Some (Inr ts)" using Cons.prems by simp
    note ih = Cons.IH [OF this]
    have "\<forall>t\<in>set ts. tool_of e st r (w # ws) t" using ih [THEN conjunct1] tool_of_mono by (metis (no_types))
    then show ?thesis using ih [THEN conjunct2] by (rule conjI)
  next
    case (Some info)
    define n where "n = tool_name (st w) info"
    obtain b g' ts' where b: "map_of seen n = None" "mcpBinding e info g = Some (b, g')"
        "resolve_tools e st r ws ((n, w) # seen) g' = Some (Inr ts')" "ts = tool_info e (st w) w info b # ts'"
      using resolve_step [OF Cons.prems Some] unfolding n_def by blast
    obtain params single schema where bb: "b = (params, single, schema)" by (metis surj_pair)
    let ?t = "tool_info e (st w) w info b"
    have nm: "ti_Name ?t = n" "ti_Method ?t = w" "ti_Params ?t = params" "ti_SingleStruct ?t = single" "ti_InputSchema ?t = schema"
      by (simp_all add: tool_info_def bb n_def)
    have ih: "\<forall>t\<in>set ts'. tool_of e st r ws t" "distinct (map ti_Name ts')" "set (map ti_Name ts') \<inter> fst ` set ((n, w) # seen) = {}"
      using Cons.IH [OF b(3)] by simp_all
    have "tool_of e st r (w # ws) ?t"
      using mcpBinding_fits [of e info g params single schema g'] b(2) Some by (simp add: tool_of_def tool_info_def bb)
    moreover have "n \<notin> fst ` set seen" using b(1) by (simp add: map_of_eq_None_iff)
    moreover have "\<forall>t\<in>set ts'. tool_of e st r (w # ws) t" using ih(1) tool_of_mono by blast
    ultimately show ?thesis using ih(2,3) by (auto simp: b(4) nm(1))
  qed
qed simp

section \<open>Calls\<close>

lemma bind_params_present:
  "(\<exists>vs. bind_params quoted args ps = Inr vs) \<longleftrightarrow> mp_Name ` {p \<in> set ps. mp_Required p} \<subseteq> fst ` set args"
proof (induction ps)
  case (Cons p ps)
  have key: "(\<exists>v. map_of args (mp_Name p) = Some v) \<longleftrightarrow> mp_Name p \<in> fst ` set args"
    by (metis map_of_eq_None_iff not_None_eq)
  have step: "(\<exists>vs. map_sum id ((#) v) x = Inr vs) \<longleftrightarrow> (\<exists>vs. x = Inr vs)" for v and x :: "rpc_error + string list"
    by (cases x) auto
  show ?case
  proof (cases "map_of args (mp_Name p)")
    case None
    then show ?thesis using Cons.IH key by (cases "mp_Required p") (auto simp: step)
  next
    case (Some v)
    then show ?thesis using Cons.IH key by (cases "mp_Required p") (auto simp: step)
  qed
qed simp

lemma bind_params_values:
  "bind_params quoted args ps = Inr vs \<Longrightarrow>
     vs = map (\<lambda>p. case map_of args (mp_Name p) of Some v \<Rightarrow> v | None \<Rightarrow> ''null'') ps"
proof (induction ps arbitrary: vs)
  case (Cons p ps)
  have step: "map_sum id ((#) v) x = Inr vs \<Longrightarrow> \<exists>us. x = Inr us \<and> vs = v # us" for v and x :: "rpc_error + string list"
    by (cases x) auto
  from Cons.prems show ?case using Cons.IH
    by (auto simp: split: option.splits if_splits dest!: step)
qed simp

text \<open>The error names the first required parameter without a value.\<close>

lemma bind_params_error:
  "bind_params quoted args ps = Inl err \<Longrightarrow>
     err = rpcError codeInvalidParams (''missing required argument '' @
       quoted (hd (filter (\<lambda>n. n \<notin> fst ` set args) (map mp_Name (filter mp_Required ps)))))"
proof (induction ps)
  case (Cons p ps)
  have key: "map_of args (mp_Name p) = None \<longleftrightarrow> mp_Name p \<notin> fst ` set args" by (simp add: map_of_eq_None_iff)
  have step: "map_sum id ((#) v) x = Inl err \<Longrightarrow> x = Inl err" for v and x :: "rpc_error + string list"
    by (cases x) auto
  show ?case
  proof (cases "map_of args (mp_Name p)")
    case None
    show ?thesis
    proof (cases "mp_Required p")
      case True
      then show ?thesis using Cons.prems None key by simp
    next
      case False
      have "map_sum id ((#) ''null'') (bind_params quoted args ps) = Inl err" using Cons.prems None False by simp
      from Cons.IH [OF step [OF this]] False show ?thesis by simp
    qed
  next
    case (Some v)
    then have mem: "mp_Name p \<in> fst ` set args" using key by simp
    have "map_sum id ((#) v) (bind_params quoted args ps) = Inl err" using Cons.prems Some by simp
    from Cons.IH [OF step [OF this]] mem show ?thesis by simp
  qed
qed simp

text \<open>The tools of an adapter.\<close>

lemma adapter_tools:
  assumes "NewAdapter e st r opts = Some (Inr a)"
  obtains ts where "MCPTools e st r = Some (Inr ts)" "listTools a = ts" "ad_order a = map ti_Name ts"
    "\<And>t. t \<in> set ts \<Longrightarrow> map_of (ad_tools a) (ti_Name t) = Some t" "\<And>t. t \<in> set ts \<Longrightarrow> tool_of e st r (rg_mcpTools r) t"
    "sorted (map ti_Name ts)" "distinct (map ti_Name ts)"
    "\<And>n. IsMCPOnly n r \<Longrightarrow> n \<in> fst ` set (rg_groups r) \<Longrightarrow> \<exists>t\<in>set ts. group_of (ti_Method t) = n"
proof -
  obtain res where res: "MCPTools e st r = Some res" using assms by (auto simp: NewAdapter_def)
  obtain ts where ts: "res = Inr ts" using assms res by (cases res) (auto simp: NewAdapter_def)
  have a: "ad_tools a = fold (\<lambda>t. AList.update (ti_Name t) t) ts []" "ad_order a = map ti_Name ts"
    "filter (\<lambda>n. IsMCPOnly n r \<and> n \<notin> set (map (group_of \<circ> ti_Method) ts)) (map fst (rg_groups r)) = []"
    using assms res ts by (auto simp: NewAdapter_def Let_def split: if_splits)
  obtain us where us: "resolve_tools e st r (rg_mcpTools r) [] inline_gen = Some (Inr us)" "ts = sort_key ti_Name us"
  proof -
    obtain x where "resolve_tools e st r (rg_mcpTools r) [] inline_gen = Some x" "map_sum id (sort_key ti_Name) x = Inr ts"
      using res ts by (auto simp: MCPTools_def)
    then show ?thesis using that by (cases x) auto
  qed
  note ok = resolve_tools_ok [OF us(1)]
  have d: "distinct (map ti_Name ts)"
    using ok by (simp add: us(2) distinct_map)
  have look: "distinct (map ti_Name xs) \<Longrightarrow> map_of (fold (\<lambda>t. AList.update (ti_Name t) t) xs m) n =
      (case find (\<lambda>t. ti_Name t = n) xs of Some t \<Rightarrow> Some t | None \<Rightarrow> map_of m n)" for xs m n
  proof (induction xs arbitrary: m)
    case (Cons x xs)
    have "find (\<lambda>t. ti_Name t = n) xs = None" if "ti_Name x = n" using Cons.prems that by (fastforce simp: find_None_iff image_iff)
    then show ?case using Cons by (simp add: update_conv' split: option.splits)
  qed simp
  have at: "map_of (ad_tools a) (ti_Name t) = Some t" if "t \<in> set ts" for t
  proof -
    have "find (\<lambda>u. ti_Name u = ti_Name t) ts = Some t" using d that
      by (induction ts) (auto simp: image_iff)
    then show ?thesis by (simp add: a(1) look [OF d])
  qed
  have lst: "listTools a = ts"
  proof -
    have "map (\<lambda>n. the (map_of (ad_tools a) n)) (map ti_Name ts) = map id ts"
      unfolding map_map using at by (intro map_cong) simp_all
    then show ?thesis by (simp add: listTools_def a(2))
  qed
  show ?thesis
  proof (rule that [of ts])
    show "MCPTools e st r = Some (Inr ts)" using res ts by simp
    show "sorted (map ti_Name ts)" by (simp add: us(2))
    show "\<And>t. t \<in> set ts \<Longrightarrow> tool_of e st r (rg_mcpTools r) t" using ok us(2) by simp
    show "\<exists>t\<in>set ts. group_of (ti_Method t) = n" if "IsMCPOnly n r" "n \<in> fst ` set (rg_groups r)" for n
      using a(3) that by (fastforce simp: filter_empty_conv)
  qed (use at lst a(2) d in auto)
qed

section \<open>What a call does\<close>



section \<open>Instances\<close>

definition plain_tool :: mcp_tool where
  "plain_tool = \<lparr>mt_Name = [], mt_Title = [], mt_Description = [], mt_ReadOnly = False, mt_Destructive = False,
     mt_Idempotent = False, mt_OpenWorld = False\<rparr>"

definition no_options :: mcp_options where
  "no_options = \<lparr>mo_ServerName = [], mo_ServerTitle = [], mo_ServerVersion = [], mo_Instructions = []\<rparr>"

definition tool_registry :: "(string, int) registry" where
  "tool_registry = (case EnableMCP ''Todos'' [''CreateTodo''] todo_registry of Inr r \<Rightarrow> r | Inl e \<Rightarrow> NewRegistry)"

definition tool_adapter :: adapter where
  "tool_adapter = (case NewAdapter todo_env (\<lambda>w. plain_tool) tool_registry no_options of
     Some (Inr a) \<Rightarrow> a | _ \<Rightarrow> \<lparr>ad_opts = no_options, ad_tools = [], ad_order = []\<rparr>)"

definition todo_tool :: mcp_tool_info where
  "todo_tool = hd (listTools tool_adapter)"

text \<open>A request whose arguments have an \<open>id\<close>, and whose handler returns 7 and queues a trigger.\<close>

definition mcp0 :: "int mcp_env" where
  "mcp0 = \<lparr>me_request = (\<lambda>b. Some \<lparr>rr_ID = ''1'', rr_Method = ''tools/call'', rr_Params = b\<rparr>), me_version = (\<lambda>p. []),
     me_call = (\<lambda>p. Some (p, ''{}'')), me_object = (\<lambda>a. Some [(''id'', ''4'')]), me_resolved = True, me_provider = None,
     me_chain = (\<lambda>w ps. if ps = ''[4,null]'' then (Returned (Plain 7), [''todos'']) else (Panicked, [])), me_nil = (\<lambda>v. False),
     me_encode = (\<lambda>p. Some (Inr ''7'')), me_quoted = (\<lambda>s. s)\<rparr>"

lemma mcp0_sel [simp]:
  "me_request mcp0 b = Some \<lparr>rr_ID = ''1'', rr_Method = ''tools/call'', rr_Params = b\<rparr>" "me_call mcp0 p = Some (p, ''{}'')"
  "me_object mcp0 x = Some [(''id'', ''4'')]" "me_resolved mcp0" "me_provider mcp0 = None"
  "me_chain mcp0 wm ''[4,null]'' = (Returned (Plain 7), [''todos''])" "me_nil mcp0 v = False" "me_encode mcp0 d = Some (Inr ''7'')"
  by (simp_all add: mcp0_def)

lemma tool_registered: "EnableMCP ''Todos'' [''CreateTodo''] todo_registry = Inr tool_registry"
proof -
  have "\<not> (case EnableMCP ''Todos'' [''CreateTodo''] todo_registry of Inl _ \<Rightarrow> True | Inr _ \<Rightarrow> False)" by code_simp
  then show ?thesis by (simp add: tool_registry_def split: sum.splits)
qed

lemma tool_reachable: "(reg_step te0)\<^sup>*\<^sup>* NewRegistry tool_registry"
  using todo_reachable rs_enable_mcp [OF tool_registered] by (rule rtranclp.rtrancl_into_rtrancl)

lemma tool_adapter_eval:
  "map_option (map_sum (\<lambda>p. ()) (\<lambda>a. map (\<lambda>t. (ti_Name t, ti_SingleStruct t, sa_Required (sc_attrs (ti_InputSchema t)),
       map (\<lambda>p. (mp_Name p, mp_Required p)) (ti_Params t))) (listTools a)))
     (NewAdapter todo_env (\<lambda>w. plain_tool) tool_registry no_options) =
   Some (Inr [(''todos_create_todo'', False, [''id''], [(''id'', True), (''req'', False)])])"
  by code_simp

lemma tool_adapter_built: "NewAdapter todo_env (\<lambda>w. plain_tool) tool_registry no_options = Some (Inr tool_adapter)"
  using tool_adapter_eval by (auto simp: tool_adapter_def split: option.splits sum.splits)

lemma todo_tool_facts:
  "listTools tool_adapter = [todo_tool] \<and> ti_Name todo_tool = ''todos_create_todo'' \<and> \<not> ti_SingleStruct todo_tool \<and>
   sa_Required (sc_attrs (ti_InputSchema todo_tool)) = [''id''] \<and>
   (\<exists>p q. ti_Params todo_tool = [p, q] \<and> mp_Name p = ''id'' \<and> mp_Required p \<and> mp_Name q = ''req'' \<and> \<not> mp_Required q)"
proof -
  have "map (\<lambda>t. (ti_Name t, ti_SingleStruct t, sa_Required (sc_attrs (ti_InputSchema t)),
      map (\<lambda>p. (mp_Name p, mp_Required p)) (ti_Params t))) (listTools tool_adapter) =
      [(''todos_create_todo'', False, [''id''], [(''id'', True), (''req'', False)])]"
    using tool_adapter_eval tool_adapter_built by simp
  then obtain t where t: "listTools tool_adapter = [t]" "ti_Name t = ''todos_create_todo''" "\<not> ti_SingleStruct t"
      "sa_Required (sc_attrs (ti_InputSchema t)) = [''id'']"
      "map (\<lambda>p. (mp_Name p, mp_Required p)) (ti_Params t) = [(''id'', True), (''req'', False)]"
    by (auto simp: map_eq_Cons_conv)
  moreover have "todo_tool = t" using t(1) by (simp add: todo_tool_def)
  ultimately show ?thesis by (auto simp: map_eq_Cons_conv)
qed

lemma todo_tool_bound: "bindArguments mcp0 todo_tool ''{}'' = Inr ''[4,null]''"
  using todo_tool_facts by (auto simp: bindArguments_def arg_object_def absent_def)



text \<open>
  A group of its own for MCP whose struct is an instance of a generic type: its tool is enabled, but the lookup by
  wire method cuts the name at the first dot and misses the group, so the tool is dropped and the adapter refuses to
  start because the group had no tools.
\<close>

definition generic_registry :: "(string, int) registry" where
  "generic_registry = (case RegisterMCP te0 (rest_struct ''Crud[x.User]'') [] NewRegistry of
     Inr r \<Rightarrow> (case EnableMCP ''Crud[x.User]'' [''List''] r of Inr r' \<Rightarrow> r' | Inl e \<Rightarrow> NewRegistry) | Inl e \<Rightarrow> NewRegistry)"

lemma mcp_generic_group_refused:
  "rg_mcpTools generic_registry = [''Crud[x.User].List''] \<and>
   NewAdapter todo_env (\<lambda>w. plain_tool) generic_registry no_options = Some (Inl (ToollessGroups [''Crud[x.User]'']))"
proof
  show "rg_mcpTools generic_registry = [''Crud[x.User].List'']" by code_simp
  show "NewAdapter todo_env (\<lambda>w. plain_tool) generic_registry no_options = Some (Inl (ToollessGroups [''Crud[x.User]'']))"
    by code_simp
qed

end
