(* ===== verification/Aprot_GoNames.thy ===== *)
theory Aprot_GoNames
  imports Aprot_GoTypes Aprot_Http
begin

text \<open>
  The identifiers of a generated Go client (\<open>generate_go.go\<close>): names made from Go type names, group
  names, enum values and error codes, their collisions, the local names of imports and the names of
  parameters. Names are ASCII.
\<close>

section \<open>Identifiers\<close>

definition go_keywords :: "string list" where
  "go_keywords =
     [''break'', ''case'', ''chan'', ''const'', ''continue'', ''default'', ''defer'', ''else'', ''fallthrough'', ''for'',
      ''func'', ''go'', ''goto'', ''if'', ''import'', ''interface'', ''map'', ''package'', ''range'', ''return'',
      ''select'', ''struct'', ''switch'', ''type'', ''var'']"

text \<open>\<open>token.IsIdentifier\<close>.\<close>

definition IsIdentifier :: "string \<Rightarrow> bool" where
  "IsIdentifier s \<longleftrightarrow> s \<noteq> [] \<and> s \<notin> set go_keywords \<and> \<not> is_digit (hd s) \<and> list_all isIdentChar s"

definition goReservedParamNames :: "string list" where
  "goReservedParamNames =
     [''ctx'', ''h'', ''c'', ''opts'', ''params'', ''x'', ''err'',
      ''any'', ''bool'', ''byte'', ''comparable'', ''complex64'', ''complex128'',
      ''error'', ''float32'', ''float64'', ''int'', ''int8'', ''int16'',
      ''int32'', ''int64'', ''rune'', ''string'', ''uint'', ''uint8'',
      ''uint16'', ''uint32'', ''uint64'', ''uintptr'', ''true'', ''false'',
      ''iota'', ''nil'', ''append'', ''cap'', ''clear'', ''close'',
      ''complex'', ''copy'', ''delete'', ''imag'', ''len'', ''make'',
      ''max'', ''min'', ''new'', ''panic'', ''print'', ''println'',
      ''real'', ''recover'']"

definition goPromotedClientMembers :: "string list" where
  "goPromotedClientMembers = [''Client'', ''Close'', ''Done'', ''Err'', ''LastRejection'', ''RefreshAuth'', ''State'']"

text \<open>The loop of \<open>goExportedIdent\<close>; the argument tells whether the next character starts a word.\<close>

fun exported_words :: "bool \<Rightarrow> string \<Rightarrow> string" where
  "exported_words upper [] = []"
| "exported_words upper (c # s) =
     (if isIdentChar c then (if upper then to_upper c else c) # exported_words False s else exported_words True s)"

definition goExportedIdent :: "string \<Rightarrow> string" where
  "goExportedIdent s =
     (let out = exported_words True s
      in if out = [] then ''X'' else if \<not> IsUpper (hd out) then CHR ''X'' # out else out)"

definition goEnumMemberIdent :: "string \<Rightarrow> nat \<Rightarrow> string" where
  "goEnumMemberIdent name i =
     (if \<not> list_ex (\<lambda>c. is_letter c \<or> is_digit c) name then ''Value'' @ nat_str i
      else let ident = goExportedIdent name
           in if prefix ''X'' ident \<and> \<not> prefix ''X'' name \<and> \<not> prefix ''x'' name then tl ident else ident)"

definition major_version :: "string \<Rightarrow> bool" where
  "major_version s \<longleftrightarrow> prefix ''v'' s \<and> tl s \<noteq> [] \<and> list_all is_digit (tl s)"

definition goPkgName :: "string \<Rightarrow> string" where
  "goPkgName pkgPath =
     (let parts = split_on CHR ''/'' pkgPath;
          name = (if major_version (last parts) \<and> length parts > 1 then parts ! (length parts - 2) else last parts);
          name' = (if prefix ''go-'' name then drop 3 name else name);
          out = map ToLower (filter isIdentChar name')
      in if out = [] \<or> \<not> is_letter (hd out) then ''pkg'' @ out else out)"

subsection \<open>Names of generic types\<close>

fun replace_all :: "string \<Rightarrow> string \<Rightarrow> nat \<Rightarrow> string \<Rightarrow> string" where
  "replace_all old new skip [] = []"
| "replace_all old new (Suc k) (c # s) = replace_all old new k s"
| "replace_all old new 0 (c # s) =
     (if prefix old (c # s) then new @ replace_all old new (length old - 1) s else c # replace_all old new 0 s)"

text \<open>\<open>genericArrayRe\<close>: a number in brackets.\<close>

function array_words :: "string \<Rightarrow> string" where
  "array_words [] = []"
| "array_words (c # s) =
     (let digits = takeWhile is_digit s; rest = dropWhile is_digit s
      in if c = CHR ''['' \<and> digits \<noteq> [] \<and> prefix '']'' rest then '' Array'' @ digits @ '' '' @ array_words (tl rest)
         else c # array_words s)"
  by pat_completeness auto
termination
proof (relation "measure length", goal_cases)
  case (2 c s digits rest)
  have "length rest \<le> length s" using 2(2) by (simp add: length_dropWhile_le)
  then show ?case by simp
qed auto

text \<open>\<open>genericMapRe\<close>: the word \<open>map\<close> before a bracket; the argument tells whether the last character was part of a word.\<close>

fun map_words :: "bool \<Rightarrow> nat \<Rightarrow> string \<Rightarrow> string" where
  "map_words inWord skip [] = []"
| "map_words inWord (Suc k) (c # s) = map_words False k s"
| "map_words inWord 0 (c # s) =
     (if \<not> inWord \<and> prefix ''map['' (c # s) then '' Map '' @ map_words False 3 s else c # map_words (isIdentChar c) 0 s)"

text \<open>\<open>genericQualRe\<close>: a qualified identifier with an optional path; the longest path is tried first.\<close>

definition ident_at :: "string \<Rightarrow> (string \<times> string) option" where
  "ident_at s =
     (let w = takeWhile isIdentChar s in if w \<noteq> [] \<and> \<not> is_digit (hd w) then Some (w, dropWhile isIdentChar s) else None)"

definition qual_from :: "string \<Rightarrow> (string \<times> string \<times> string) option" where
  "qual_from s =
     (case ident_at s of
        Some (p, CHR ''.'' # r) \<Rightarrow> (case ident_at r of Some (n, rest) \<Rightarrow> Some (p, n, rest) | None \<Rightarrow> None)
      | _ \<Rightarrow> None)"

definition path_char :: "char \<Rightarrow> bool" where
  "path_char c \<longleftrightarrow> c \<notin> set '' []()*,'' \<and> byte c \<notin> {9, 10, 12, 13}"

definition path_cuts :: "string \<Rightarrow> nat list" where
  "path_cuts s = rev (filter (\<lambda>k. s ! (k - 1) = CHR ''/'') [1..<Suc (length (takeWhile path_char s))]) @ [0]"

fun first_match :: "nat list \<Rightarrow> string \<Rightarrow> (string \<times> string \<times> string) option" where
  "first_match [] s = None"
| "first_match (k # ks) s = (case qual_from (drop k s) of Some m \<Rightarrow> Some m | None \<Rightarrow> first_match ks s)"

lemma ident_at_length: "ident_at s = Some (w, r) \<Longrightarrow> length r < length s"
proof -
  assume h: "ident_at s = Some (w, r)"
  then have "w = takeWhile isIdentChar s" "w \<noteq> []" "r = dropWhile isIdentChar s" by (auto simp: ident_at_def Let_def split: if_splits)
  then show ?thesis using takeWhile_dropWhile_id [of isIdentChar s] by (metis length_append length_greater_0_conv less_add_same_cancel2)
qed

lemma qual_from_length: "qual_from s = Some (p, n, r) \<Longrightarrow> length r < length s"
  by (auto simp: qual_from_def dest!: ident_at_length split: option.splits list.splits char.splits bool.splits prod.splits)

lemma first_match_length: "first_match ks s = Some (p, n, r) \<Longrightarrow> length r < length s"
  by (induction ks) (force dest!: qual_from_length split: option.splits)+

function qual_words :: "bool \<Rightarrow> string \<Rightarrow> string" where
  "qual_words withPkg [] = []"
| "qual_words withPkg (c # s) =
     (case first_match (path_cuts (c # s)) (c # s) of
        Some (p, n, rest) \<Rightarrow> (if withPkg then '' '' @ p @ '' '' @ n @ '' '' else '' '' @ n @ '' '') @ qual_words withPkg rest
      | None \<Rightarrow> c # qual_words withPkg s)"
  by pat_completeness auto
termination
  by (relation "measure (length \<circ> snd)") (auto dest!: first_match_length)

definition generic_words :: "bool \<Rightarrow> string \<Rightarrow> string" where
  "generic_words withPkg args =
     qual_words withPkg (replace_all ''func('' '' Func '' 0 (replace_all ''chan '' '' Chan '' 0 (replace_all ''*'' '' Ptr '' 0
       (map_words False 0 (replace_all ''[]'' '' Slice '' 0 (array_words args))))))"

definition goTypeNameCandidate :: "rtype \<Rightarrow> nat \<Rightarrow> string" where
  "goTypeNameCandidate t level =
     (let name = TypeName t;
          name1 = (if CHR ''['' \<in> set name \<and> suffix '']'' name
                   then takeWhile (\<lambda>c. c \<noteq> CHR ''['') name @ '' '' @
                     generic_words (level \<ge> 1) (butlast (tl (dropWhile (\<lambda>c. c \<noteq> CHR ''['') name)))
                   else name);
          name2 = goExportedIdent name1
      in if level \<ge> 2 then goExportedIdent (goPkgName (PkgPath t)) @ name2 else name2)"

section \<open>Free names\<close>

text \<open>The loops that append a number or an underscore until a name is free.\<close>

lemma suffix_finite: "finite {m. base @ nat_str m \<in> set bad}"
proof -
  have "inj (\<lambda>m. base @ nat_str m)"
  proof (rule injI)
    fix a b assume "base @ nat_str a = base @ nat_str b"
    then show "a = b" using parse_digits_nat_str [of a] parse_digits_nat_str [of b] by simp
  qed
  then show ?thesis using finite_vimageI [of "set bad" "\<lambda>m. base @ nat_str m"] by (simp add: vimage_def)
qed

function next_suffix :: "string list \<Rightarrow> string \<Rightarrow> nat \<Rightarrow> string" where
  "next_suffix bad base n =
     (if base @ nat_str n \<in> set bad then next_suffix bad base (Suc n) else base @ nat_str n)"
  by pat_completeness auto
termination
proof (relation "measure (\<lambda>(bad, base, n). card {m. n \<le> m \<and> base @ nat_str m \<in> set bad})", goal_cases)
  case (2 bad base n)
  have "n \<in> {m. n \<le> m \<and> base @ nat_str m \<in> set bad}" "n \<notin> {m. Suc n \<le> m \<and> base @ nat_str m \<in> set bad}" using 2 by auto
  moreover have "{m. Suc n \<le> m \<and> base @ nat_str m \<in> set bad} \<subseteq> {m. n \<le> m \<and> base @ nat_str m \<in> set bad}" by auto
  ultimately have "{m. Suc n \<le> m \<and> base @ nat_str m \<in> set bad} \<subset> {m. n \<le> m \<and> base @ nat_str m \<in> set bad}" by blast
  moreover have "finite {m. n \<le> m \<and> base @ nat_str m \<in> set bad}"
    using suffix_finite [of base bad] by (rule rev_finite_subset) auto
  ultimately show ?case by (simp add: psubset_card_mono)
qed simp

declare next_suffix.simps [simp del]

definition fresh_name :: "string list \<Rightarrow> string \<Rightarrow> string" where
  "fresh_name bad base = (if base \<in> set bad then next_suffix bad base 2 else base)"

function fresh_underscore :: "string list \<Rightarrow> string \<Rightarrow> string" where
  "fresh_underscore bad name = (if name \<in> set bad then fresh_underscore bad (name @ ''_'') else name)"
  by pat_completeness auto
termination
proof (relation "measure (\<lambda>(bad, name). card {x \<in> set bad. length name \<le> length x})", goal_cases)
  case (2 bad name)
  have "name \<in> {x \<in> set bad. length name \<le> length x}" "name \<notin> {x \<in> set bad. length (name @ ''_'') \<le> length x}" using 2 by auto
  moreover have "{x \<in> set bad. length (name @ ''_'') \<le> length x} \<subseteq> {x \<in> set bad. length name \<le> length x}" by auto
  ultimately have "{x \<in> set bad. length (name @ ''_'') \<le> length x} \<subset> {x \<in> set bad. length name \<le> length x}" by blast
  then show ?case by (simp add: psubset_card_mono)
qed simp

declare fresh_underscore.simps [simp del]

lemma next_suffix_fresh: "next_suffix bad base n \<notin> set bad"
  by (induction bad base n rule: next_suffix.induct) (simp add: next_suffix.simps)

lemma fresh_name_fresh: "fresh_name bad base \<notin> set bad"
  by (simp add: fresh_name_def next_suffix_fresh)

lemma fresh_underscore_fresh: "fresh_underscore bad name \<notin> set bad"
  by (induction bad name rule: fresh_underscore.induct) (simp add: fresh_underscore.simps)

lemma next_suffix_form: "\<exists>m. next_suffix bad base n = base @ nat_str m"
  by (induction bad base n rule: next_suffix.induct) (simp add: next_suffix.simps)

lemma fresh_underscore_form: "\<exists>k. fresh_underscore bad name = name @ replicate k CHR ''_''"
proof (induction bad name rule: fresh_underscore.induct)
  case (1 bad name)
  show ?case
  proof (cases "name \<in> set bad")
    case True
    then obtain k where "fresh_underscore bad (name @ ''_'') = (name @ ''_'') @ replicate k CHR ''_''" using 1 by blast
    then have "fresh_underscore bad name = name @ replicate (Suc k) CHR ''_''" using True by (simp add: fresh_underscore.simps [of bad name])
    then show ?thesis by blast
  next
    case False
    then have "fresh_underscore bad name = name @ replicate 0 CHR ''_''" by (simp add: fresh_underscore.simps [of bad name])
    then show ?thesis by blast
  qed
qed

section \<open>Claims\<close>

text \<open>
  Names that must be unique are claimed one by one; a second claim of a name is an error and leaves the
  first. An entry has the name and what it stands for.
\<close>

type_synonym claims = "(string \<times> string) list"

fun claim_names :: "claims \<Rightarrow> claims \<Rightarrow> claims \<times> (string \<times> string \<times> string) list" where
  "claim_names prev [] = (prev, [])"
| "claim_names prev ((n, what) # cs) =
     (case map_of prev n of
        Some p \<Rightarrow> (case claim_names prev cs of (res, errs) \<Rightarrow> (res, (what, p, n) # errs))
      | None \<Rightarrow> claim_names (prev @ [(n, what)]) cs)"

lemma claim_names_ok:
  "claim_names prev cs = (res, []) \<Longrightarrow> res = prev @ cs \<and> (distinct (map fst prev) \<longrightarrow> distinct (map fst res))"
proof (induction prev cs arbitrary: res rule: claim_names.induct)
  case (2 prev n what cs)
  show ?case
  proof (cases "map_of prev n")
    case None
    then have "n \<notin> fst ` set prev" by (simp add: map_of_eq_None_iff)
    then have d: "distinct (map fst (prev @ [(n, what)])) \<longleftrightarrow> distinct (map fst prev)" by simp
    have "claim_names (prev @ [(n, what)]) cs = (res, [])" using 2(3) None by simp
    from 2(1) [OF None this] d show ?thesis by (metis append.assoc append_Cons append_Nil)
  next
    case (Some p)
    then show ?thesis using 2(3) by (simp split: prod.splits)
  qed
qed simp

section \<open>Names of types and constants\<close>

text \<open>
  One round of the loop that separates types of one name: every type whose name is shared or belongs to
  the generated code itself moves up a level.
\<close>

definition bump_levels :: "string list \<Rightarrow> (rtype \<times> nat) list \<Rightarrow> (rtype \<times> nat) list" where
  "bump_levels fixed xs =
     map (\<lambda>(t, l).
       let n = goTypeNameCandidate t l
       in if (2 \<le> length (filter (\<lambda>(u, k). goTypeNameCandidate u k = n) xs) \<or> n \<in> set fixed) \<and> l < 2 then (t, Suc l) else (t, l)) xs"

fun assign_levels :: "nat \<Rightarrow> string list \<Rightarrow> (rtype \<times> nat) list \<Rightarrow> (rtype \<times> nat) list" where
  "assign_levels 0 fixed xs = xs"
| "assign_levels (Suc k) fixed xs =
     (let ys = bump_levels fixed xs in if ys = xs then xs else assign_levels k fixed ys)"

text \<open>Whatever still collides gets a number, in a fixed order.\<close>

fun number_names :: "string list \<Rightarrow> (rtype \<times> nat) list \<Rightarrow> (rtype \<times> string) list" where
  "number_names bad [] = []"
| "number_names bad ((t, l) # xs) =
     (let n = fresh_name bad (goTypeNameCandidate t l) in (t, n) # number_names (n # bad) xs)"

record go_names =
  gn_types :: "(rtype \<times> string) list"
  gn_errs :: "(string \<times> string \<times> string) list"
  gn_topLevel :: "string list"

definition fixed_names :: "(string \<times> string) list \<Rightarrow> claims" where
  "fixed_names groups =
     fold (\<lambda>(typeName, groupName). AList.update typeName (''the client type of handler group '' @ groupName)) groups
       [(''Client'', ''the generated Client type''), (''New'', ''the generated New function'')]"

definition enum_claims :: "(rtype \<times> string) list \<Rightarrow> rtype \<times> enum_info option \<Rightarrow> claims" where
  "enum_claims names x =
     (case x of
        (t, None) \<Rightarrow> []
      | (t, Some info) \<Rightarrow>
          map (\<lambda>(i, v). (the (map_of names t) @ goEnumMemberIdent (fst v) i, ''enum value '' @ e_Name info @ ''.'' @ fst v))
            (enumerate 0 (e_Values info)))"

definition code_claims :: "(string \<times> int) list \<Rightarrow> claims" where
  "code_claims codes = map (\<lambda>(n, c). (''ErrCode'' @ goExportedIdent n, ''error code '' @ n)) codes"

text \<open>
  \<open>assignNames\<close>. \<open>str\<close> is \<open>reflect.Type.String\<close>, \<open>groups\<close> has the name of each group's client type
  with that of the group, \<open>order\<close> the types in the order of their discovery with their enum.
\<close>

definition assignNames ::
  "(rtype \<Rightarrow> string) \<Rightarrow> (string \<times> string) list \<Rightarrow> (rtype \<times> enum_info option) list \<Rightarrow> (string \<times> int) list \<Rightarrow> go_names" where
  "assignNames str groups order codes =
     (let fixed = fixed_names groups;
          levels = assign_levels 4 (map fst fixed) (map (\<lambda>(t, i). (t, 0)) order);
          sorted = sort_key (\<lambda>(t, l). [goTypeNameCandidate t l, PkgPath t, str t]) levels;
          types = number_names (map fst fixed) sorted;
          taken = fixed @ map (\<lambda>(t, n). (n, str t)) types
      in case claim_names taken (concat (map (enum_claims types) order) @ code_claims codes) of
           (res, errs) \<Rightarrow> \<lparr>gn_types = types, gn_errs = errs, gn_topLevel = map fst res\<rparr>)"

lemma bump_levels_types: "map fst (bump_levels fixed xs) = map fst xs"
  by (induction xs) (auto simp: bump_levels_def Let_def)

lemma assign_levels_types: "map fst (assign_levels k fixed xs) = map fst xs"
  by (induction k fixed xs rule: assign_levels.induct) (simp_all add: bump_levels_types Let_def)

lemma number_names_fresh:
  "set (map snd (number_names bad xs)) \<inter> set bad = {} \<and> distinct (map snd (number_names bad xs)) \<and>
     map fst (number_names bad xs) = map fst xs"
proof (induction bad xs rule: number_names.induct)
  case (2 bad t l xs)
  show ?case using 2 [OF refl] fresh_name_fresh [of bad "goTypeNameCandidate t l"] by (auto simp: Let_def)
qed simp

lemma fixed_names_distinct: "distinct (map fst (fixed_names groups))"
proof -
  have "distinct (map fst m) \<Longrightarrow> distinct (map fst (fold (\<lambda>(t, g). AList.update t (f g)) groups m))" for m :: claims and f
    by (induction groups arbitrary: m) (auto simp: distinct_update)
  then show ?thesis by (simp add: fixed_names_def)
qed

section \<open>Members of the client\<close>

definition go_field :: "string \<Rightarrow> string" where
  "go_field g = goExportedIdent g"

definition go_client_type :: "string \<Rightarrow> string" where
  "go_client_type g = go_field g @ ''Client''"

definition go_on :: "string \<Rightarrow> string" where
  "go_on ev = ''On'' @ goExportedIdent ev"

text \<open>The claims of \<open>renderBody\<close> for the fields and methods of the client, and of \<open>renderGroup\<close> for the methods of a group.\<close>

definition member_claims :: "string list \<Rightarrow> string list \<Rightarrow> claims" where
  "member_claims groups events =
     map (\<lambda>g. (go_field g, ''handler group '' @ g)) groups @ map (\<lambda>ev. (go_on ev, ''push event '' @ ev)) events"

definition member_errs :: "string list \<Rightarrow> string list \<Rightarrow> (string \<times> string \<times> string) list" where
  "member_errs groups events =
     snd (claim_names (map (\<lambda>m. (m, ''the embedded *client.Client'')) goPromotedClientMembers) (member_claims groups events))"

definition method_claims :: "(string \<times> bool) list \<Rightarrow> claims" where
  "method_claims ms =
     concat (map (\<lambda>(name, subscribable). (name, name) # (if subscribable then [(''Subscribe'' @ name, name)] else [])) ms)"

definition method_errs :: "(string \<times> bool) list \<Rightarrow> (string \<times> string \<times> string) list" where
  "method_errs ms = snd (claim_names [] (method_claims ms))"

section \<open>Imports\<close>

text \<open>\<open>real\<close> has the package names read from imported types.\<close>

definition pkgName :: "(string, string) gomap \<Rightarrow> string \<Rightarrow> string" where
  "pkgName real p = (case map_of real p of Some r \<Rightarrow> r | None \<Rightarrow> goPkgName p)"

fun import_names :: "(string \<Rightarrow> string) \<Rightarrow> string list \<Rightarrow> string list \<Rightarrow> (string \<times> string) list" where
  "import_names pkg used [] = []"
| "import_names pkg used (p # ps) =
     (let local = fresh_name (used @ go_keywords @ goReservedParamNames) (pkg p)
      in (p, local) # import_names pkg (local # used) ps)"

definition assignImportNames :: "(string, string) gomap \<Rightarrow> string list \<Rightarrow> (string \<times> string) list" where
  "assignImportNames real paths = import_names (pkgName real) [] (sort paths)"

definition goClientPkgPath :: string where
  "goClientPkgPath = ''github.com/marrasen/aprot/client''"

definition pkgNameIsGuess :: "(string \<Rightarrow> bool) \<Rightarrow> (string, string) gomap \<Rightarrow> string \<Rightarrow> bool" where
  "pkgNameIsGuess stdlib real p \<longleftrightarrow> p \<noteq> goClientPkgPath \<and> \<not> stdlib p \<and> last (split_on CHR ''/'' p) \<noteq> pkgName real p"

definition import_line ::
  "(string \<Rightarrow> string) \<Rightarrow> (string \<Rightarrow> bool) \<Rightarrow> (string, string) gomap \<Rightarrow> (string \<times> string) list \<Rightarrow> string \<Rightarrow> string" where
  "import_line quote stdlib real names p =
     (let local = (case map_of names p of Some l \<Rightarrow> l | None \<Rightarrow> [])
      in if local \<noteq> pkgName real p \<or> pkgNameIsGuess stdlib real p then local @ '' '' @ quote p else quote p)"

definition renderImports ::
  "(string \<Rightarrow> string) \<Rightarrow> (string \<Rightarrow> bool) \<Rightarrow> (string, string) gomap \<Rightarrow> (string \<times> string) list \<Rightarrow> string list \<Rightarrow> string list" where
  "renderImports quote stdlib real names used =
     (let std = sort (map (import_line quote stdlib real names) (filter stdlib used));
          other = sort (map (import_line quote stdlib real names) (filter (\<lambda>p. \<not> stdlib p) used))
      in if std @ other = [] then []
         else [''import (''] @ std @ (if std \<noteq> [] \<and> other \<noteq> [] then [[]] else []) @ other @ ['')'', []])"

section \<open>Parameters\<close>

definition param_base :: "string list \<Rightarrow> nat \<Rightarrow> string" where
  "param_base srcNames i =
     (let name = (if i < length srcNames then srcNames ! i else [])
      in if name = [] \<or> name = ''_'' \<or> name = ''arg'' \<or> \<not> IsIdentifier name then ''arg'' @ nat_str i else name)"

text \<open>The names \<open>buildParams\<close> gives \<open>n\<close> parameters; \<open>bad\<close> are the names that are taken.\<close>

fun param_names :: "string list \<Rightarrow> string list \<Rightarrow> nat \<Rightarrow> nat \<Rightarrow> string list" where
  "param_names bad src i 0 = []"
| "param_names bad src i (Suc n) =
     (let name = fresh_underscore bad (param_base src i) in name # param_names (name # bad) src (Suc i) n)"

definition buildParams :: "(string \<times> string) list \<Rightarrow> string list \<Rightarrow> string list \<Rightarrow> nat \<Rightarrow> string list" where
  "buildParams imports topLevel src n = param_names (goReservedParamNames @ map snd imports @ topLevel) src 0 n"

text \<open>\<open>packageName\<close>; \<open>base\<close> is the last element of the absolute output directory, empty without one.\<close>

definition packageName :: "string \<Rightarrow> string \<Rightarrow> string option" where
  "packageName name base =
     (let n = (if name = [] then (if IsIdentifier base then base else ''api'') else name)
      in if \<not> IsIdentifier n \<or> n = ''_'' then None else Some n)"

section \<open>No identifier is declared twice\<close>

lemma goExportedIdent_nonempty [simp]: "goExportedIdent s \<noteq> []"
  by (simp add: goExportedIdent_def Let_def)

lemma fixed_names_groups:
  "distinct (map fst groups) \<Longrightarrow> set (map fst groups) \<inter> {''Client'', ''New''} = {} \<Longrightarrow>
     map fst (fixed_names groups) = [''Client'', ''New''] @ map fst groups"
proof -
  have upd: "k \<notin> fst ` set al \<Longrightarrow> AList.update k v al = al @ [(k, v)]" for k :: string and v and al :: claims
    by (induction al) auto
  have "distinct (map fst groups) \<Longrightarrow> set (map fst groups) \<inter> fst ` set m = {} \<Longrightarrow>
      map fst (fold (\<lambda>(t, g). AList.update t (f g)) groups m) = map fst m @ map fst groups" for m :: claims and f
  proof (induction groups arbitrary: m)
    case (Cons x groups)
    then have "AList.update (fst x) (f (snd x)) m = m @ [(fst x, f (snd x))]" using upd by simp
    then show ?case using Cons.IH [of "m @ [(fst x, f (snd x))]"] Cons.prems by (auto simp: case_prod_beta)
  qed simp
  then show "distinct (map fst groups) \<Longrightarrow> set (map fst groups) \<inter> {''Client'', ''New''} = {} \<Longrightarrow>
      map fst (fixed_names groups) = [''Client'', ''New''] @ map fst groups"
    by (simp add: fixed_names_def)
qed

lemma client_type_free: "go_client_type g \<noteq> ''Client'' \<and> go_client_type g \<noteq> ''New''"
proof -
  have "length (go_client_type g) > 6" by (simp add: go_client_type_def go_field_def)
  then show ?thesis by auto
qed

text \<open>
  Property C33. When the generator accepts a registry, no identifier of the generated package is declared twice: the client and its
  constructor, the client types of the groups, the copied types and the constants of enums and error codes
  all have different names, and exactly these are the names that parameters avoid.
\<close>

theorem go_package_names_distinct:
  assumes "member_errs groups events = []"
    "assignNames str (map (\<lambda>g. (go_client_type g, g)) groups) order codes = res" "gn_errs res = []"
  shows "distinct ([''Client'', ''New''] @ map go_client_type groups @ map snd (gn_types res) @
      map fst (concat (map (enum_claims (gn_types res)) order) @ code_claims codes)) \<and>
    gn_topLevel res = [''Client'', ''New''] @ map go_client_type groups @ map snd (gn_types res) @
      map fst (concat (map (enum_claims (gn_types res)) order) @ code_claims codes) \<and>
    set (map fst (gn_types res)) = set (map fst order) \<and> length (gn_types res) = length order"
proof -
  obtain done1 where c1: "claim_names (map (\<lambda>m. (m, ''the embedded *client.Client'')) goPromotedClientMembers) (member_claims groups events) = (done1, [])"
    using assms(1) unfolding member_errs_def by (metis prod.collapse)
  have "distinct (map fst (map (\<lambda>m. (m, ''the embedded *client.Client'')) goPromotedClientMembers))"
    by (simp add: goPromotedClientMembers_def)
  then have "distinct (map fst (map (\<lambda>m. (m, ''the embedded *client.Client'')) goPromotedClientMembers @ member_claims groups events))"
    using claim_names_ok [OF c1] by metis
  then have "distinct (map fst (member_claims groups events))" by (simp only: map_append distinct_append)
  then have "distinct (map go_field groups)" by (simp add: member_claims_def comp_def)
  then have dg: "distinct (map go_client_type groups)" by (simp add: distinct_map inj_on_def go_client_type_def)
  define fixed where "fixed = fixed_names (map (\<lambda>g. (go_client_type g, g)) groups)"
  have "''Client'' \<notin> go_client_type ` set groups \<and> ''New'' \<notin> go_client_type ` set groups" using client_type_free by (metis imageE)
  then have fx: "map fst fixed = [''Client'', ''New''] @ map go_client_type groups" "distinct (map fst fixed)"
    using fixed_names_groups [of "map (\<lambda>g. (go_client_type g, g)) groups"] dg fixed_names_distinct
    by (simp_all add: fixed_def comp_def)
  define levels where "levels = assign_levels 4 (map fst fixed) (map (\<lambda>(t, i). (t, 0)) order)"
  define srt where "srt = sort_key (\<lambda>(t, l). [goTypeNameCandidate t l, PkgPath t, str t]) levels"
  define types where "types = number_names (map fst fixed) srt"
  define cs where "cs = concat (map (enum_claims types) order) @ code_claims codes"
  have types: "gn_types res = types" "gn_errs res = snd (claim_names (fixed @ map (\<lambda>(t, n). (n, str t)) types) cs)"
    "gn_topLevel res = map fst (fst (claim_names (fixed @ map (\<lambda>(t, n). (n, str t)) types) cs))"
    using assms(2) unfolding assignNames_def Let_def fixed_def levels_def srt_def types_def cs_def
    by (auto split: prod.splits)
  obtain res2 where c2: "claim_names (fixed @ map (\<lambda>(t, n). (n, str t)) types) cs = (res2, [])"
    using types(2) assms(3) by (metis prod.collapse)
  have keys: "map fst (fixed @ map (\<lambda>(t, n). (n, str t)) types) = map fst fixed @ map snd types"
    by (simp add: comp_def case_prod_beta)
  have "distinct (map fst (fixed @ map (\<lambda>(t, n). (n, str t)) types))"
    unfolding keys using number_names_fresh [of "map fst fixed" srt] fx(2) by (auto simp: types_def)
  then have done2: "res2 = (fixed @ map (\<lambda>(t, n). (n, str t)) types) @ cs" "distinct (map fst res2)"
    using claim_names_ok [OF c2] by blast+
  have top: "map fst res2 = [''Client'', ''New''] @ map go_client_type groups @ map snd types @ map fst cs"
    unfolding done2(1) map_append [of fst _ cs] keys fx(1) by simp
  have "map fst types = map fst srt" using number_names_fresh [of "map fst fixed" srt] by (simp add: types_def)
  then have "set (map fst types) = set (map fst order)" "length types = length order"
  proof -
    assume m: "map fst types = map fst srt"
    have lv: "map fst levels = map fst order" by (simp add: levels_def assign_levels_types comp_def case_prod_beta)
    have "set (map fst types) = fst ` set levels" using m by (simp add: srt_def)
    then show "set (map fst types) = set (map fst order)" using arg_cong [OF lv, of set] by simp
    have "length types = length levels" using arg_cong [OF m, of length] by (simp add: srt_def)
    then show "length types = length order" using arg_cong [OF lv, of length] by simp
  qed
  then show ?thesis using done2(2) types(1,3) top c2 by (simp add: cs_def)
qed

text \<open>An enum with two values, two types of one name, a group, an event and an error code.\<close>

definition state_info :: enum_info where
  "state_info = \<lparr>e_Name = ''State'', e_IsString = True, e_Values = [(''in-progress'', EStr ''in-progress''), (''done'', EStr ''done'')]\<rparr>"

definition note_types :: "(rtype \<times> enum_info option) list" where
  "note_types =
     [(RString (''m/api'', ''State''), Some state_info), (RStruct (''m/api'', ''Item''), None),
      (RStruct (''m/api'', ''Note''), None), (RStruct (''m/other'', ''Note''), None)]"

definition note_names :: go_names where
  "note_names = assignNames TypeName (map (\<lambda>g. (go_client_type g, g)) [''Notes'']) note_types [(''NotFound'', 404)]"

lemma note_candidates:
  "goTypeNameCandidate (RString (''m/api'', ''State'')) 0 = ''State''" "goTypeNameCandidate (RStruct (''m/api'', ''Item'')) 0 = ''Item''"
  "goTypeNameCandidate (RStruct (''m/api'', ''Note'')) 0 = ''Note''" "goTypeNameCandidate (RStruct (''m/other'', ''Note'')) 0 = ''Note''"
  "goTypeNameCandidate (RStruct (''m/api'', ''Note'')) 1 = ''Note''" "goTypeNameCandidate (RStruct (''m/other'', ''Note'')) 1 = ''Note''"
  "goTypeNameCandidate (RStruct (''m/api'', ''Note'')) 2 = ''ApiNote''" "goTypeNameCandidate (RStruct (''m/other'', ''Note'')) 2 = ''OtherNote''"
  by code_simp+

lemma note_fixed: "map fst (fixed_names (map (\<lambda>g. (go_client_type g, g)) [''Notes''])) = [''Client'', ''New'', ''NotesClient'']"
  by code_simp

lemma note_levels:
  "assign_levels 4 [''Client'', ''New'', ''NotesClient''] (map (\<lambda>(t, i). (t, 0)) note_types) =
     [(RString (''m/api'', ''State''), 0), (RStruct (''m/api'', ''Item''), 0), (RStruct (''m/api'', ''Note''), 2), (RStruct (''m/other'', ''Note''), 2)]"
  using note_candidates by (simp add: eval_nat_numeral note_types_def bump_levels_def Let_def)

lemma note_sorted:
  "sort_key (\<lambda>(t, l). [goTypeNameCandidate t l, PkgPath t, TypeName t])
     [(RString (''m/api'', ''State''), 0), (RStruct (''m/api'', ''Item''), 0), (RStruct (''m/api'', ''Note''), 2), (RStruct (''m/other'', ''Note''), 2)] =
     [(RStruct (''m/api'', ''Note''), 2), (RStruct (''m/api'', ''Item''), 0), (RStruct (''m/other'', ''Note''), 2), (RString (''m/api'', ''State''), 0)]"
  by (simp add: note_candidates less_char_def)

lemma note_numbered:
  "number_names [''Client'', ''New'', ''NotesClient'']
     [(RStruct (''m/api'', ''Note''), 2), (RStruct (''m/api'', ''Item''), 0), (RStruct (''m/other'', ''Note''), 2), (RString (''m/api'', ''State''), 0)] =
     [(RStruct (''m/api'', ''Note''), ''ApiNote''), (RStruct (''m/api'', ''Item''), ''Item''),
      (RStruct (''m/other'', ''Note''), ''OtherNote''), (RString (''m/api'', ''State''), ''State'')]"
  by (simp add: note_candidates fresh_name_def Let_def)

lemma note_gn_types:
  "gn_types note_names =
     [(RStruct (''m/api'', ''Note''), ''ApiNote''), (RStruct (''m/api'', ''Item''), ''Item''),
      (RStruct (''m/other'', ''Note''), ''OtherNote''), (RString (''m/api'', ''State''), ''State'')]"
  unfolding note_names_def assignNames_def Let_def note_fixed note_levels note_sorted note_numbered
  by (simp split: prod.splits)

lemma note_topLevel:
  "gn_errs note_names = [] \<and> gn_topLevel note_names =
     [''Client'', ''New'', ''NotesClient'', ''ApiNote'', ''Item'', ''OtherNote'', ''State'', ''StateInProgress'', ''StateDone'', ''ErrCodeNotFound'']"
  unfolding note_names_def assignNames_def Let_def note_fixed note_levels note_sorted note_numbered
  by code_simp

theorem go_package_names_distinct_witness: "distinct (gn_topLevel note_names) \<and> length (gn_types note_names) = 4"
proof -
  have "member_errs [''Notes''] [''Changed''] = []" by code_simp
  from go_package_names_distinct [OF this note_names_def [symmetric]] note_topLevel
  show ?thesis by (simp add: note_types_def)
qed

section \<open>Parameters are fresh\<close>

lemma keyword_last: "s \<in> set go_keywords \<Longrightarrow> last s \<noteq> CHR ''_''"
proof -
  have "list_all (\<lambda>s. last s \<noteq> CHR ''_'') go_keywords" by code_simp
  then show "s \<in> set go_keywords \<Longrightarrow> last s \<noteq> CHR ''_''" by (simp add: list_all_iff)
qed

lemma IsIdentifier_underscores: "IsIdentifier s \<Longrightarrow> IsIdentifier (s @ replicate k CHR ''_'')"
proof (cases k)
  case (Suc j)
  assume h: "IsIdentifier s"
  have "last (s @ replicate k CHR ''_'') = CHR ''_''" using Suc by simp
  then have "s @ replicate k CHR ''_'' \<notin> set go_keywords" using keyword_last by metis
  then show ?thesis using h by (auto simp: IsIdentifier_def list_all_iff isIdentChar_def)
qed simp

lemma nat_str_idents: "list_all isIdentChar (nat_str n)"
proof (induction n rule: nat_str.induct)
  case (1 n)
  have d: "isIdentChar (digit_char k)" if "k < 10" for k
  proof -
    have "list_all (\<lambda>k. isIdentChar (digit_char k)) [0..<10]" by code_simp
    then show ?thesis using that by (simp add: list_all_iff)
  qed
  show ?case using 1 d by (simp add: nat_str.simps [of n])
qed

lemma param_base_identifier: "IsIdentifier (param_base src i)"
proof -
  have "list_all (\<lambda>s. \<not> prefix ''ar'' s) go_keywords" by code_simp
  then have "''arg'' @ nat_str i \<notin> set go_keywords" by (auto simp: list_all_iff)
  moreover have "\<not> is_digit CHR ''a''" "isIdentChar CHR ''a''" "isIdentChar CHR ''r''" "isIdentChar CHR ''g''" by code_simp+
  ultimately have "IsIdentifier (''arg'' @ nat_str i)" using nat_str_idents [of i] by (simp add: IsIdentifier_def)
  then show ?thesis by (simp add: param_base_def Let_def)
qed

lemma param_names_ok:
  "length (param_names bad src i n) = n \<and> distinct (param_names bad src i n) \<and> set (param_names bad src i n) \<inter> set bad = {} \<and>
     list_all IsIdentifier (param_names bad src i n)"
proof (induction bad src i n rule: param_names.induct)
  case (2 bad src i n)
  obtain k where "fresh_underscore bad (param_base src i) = param_base src i @ replicate k CHR ''_''"
    using fresh_underscore_form by blast
  then have "IsIdentifier (fresh_underscore bad (param_base src i))"
    using IsIdentifier_underscores [OF param_base_identifier] by simp
  then show ?case using 2 [OF refl] fresh_underscore_fresh [of bad "param_base src i"] by (auto simp: Let_def)
qed simp

text \<open>
  The parameters of a generated method are different valid identifiers, whatever the names in the
  source, and none shadows a predeclared identifier, an import, an identifier of the package or a name the body uses.
\<close>

theorem go_params_fresh:
  "length (buildParams imports topLevel src n) = n \<and> distinct (buildParams imports topLevel src n) \<and>
   list_all IsIdentifier (buildParams imports topLevel src n) \<and>
   set (buildParams imports topLevel src n) \<inter> (set goReservedParamNames \<union> snd ` set imports \<union> set topLevel) = {}"
  using param_names_ok [of "goReservedParamNames @ map snd imports @ topLevel" src 0 n] by (auto simp: buildParams_def)

lemma import_names_ok:
  "map fst (import_names pkg used ps) = ps \<and> distinct (map snd (import_names pkg used ps)) \<and>
     set (map snd (import_names pkg used ps)) \<inter> (set used \<union> set go_keywords \<union> set goReservedParamNames) = {}"
proof (induction pkg used ps rule: import_names.induct)
  case (2 pkg used p ps)
  show ?case using 2 [OF refl] fresh_name_fresh [of "used @ go_keywords @ goReservedParamNames" "pkg p"] by (auto simp: Let_def)
qed simp

lemma import_names_distinct:
  "map fst (assignImportNames real paths) = sort paths \<and> distinct (map snd (assignImportNames real paths)) \<and>
   set (map snd (assignImportNames real paths)) \<inter> (set go_keywords \<union> set goReservedParamNames) = {}"
  using import_names_ok [of "pkgName real" "[]" "sort paths"] by (simp add: assignImportNames_def)

end
