(* ===== verification/Aprot_GoClient.thy ===== *)
theory Aprot_GoClient
  imports Aprot_GoNames Aprot_Generate
begin

text \<open>
  The generated Go client (\<open>generate_go.go\<close>): how a server type becomes a type expression of the client, the
  fields of the copied structs, and the two passes over all of it, one to discover the types that have
  to be declared and the packages to import, and one to print with their final names.

  Expressions are trees; \<open>expr_text\<close> prints them. The effects of a walk (a type found, an import used,
  a problem) are recorded in order and folded into the state of the generator afterwards. Names are
  ASCII. Which packages belong to the standard library, what the enum members of a type with its own
  marshaler encode to (with a problem, or the strings), comments, and the texts \<open>reflect\<close> prints for types
  are parameters.
\<close>

section \<open>Expressions\<close>

record go_env =
  ye_gen :: gen_env
  ye_stdlib :: "string \<Rightarrow> bool"
  ye_importTypes :: "string list"
  ye_string :: "rtype \<Rightarrow> string"
  ye_marshaled :: "rtype \<Rightarrow> enum_info \<Rightarrow> string option \<times> string list option"
  ye_doc :: "rtype \<Rightarrow> string \<Rightarrow> string"

datatype gexpr =
    GAny
  | GBasic string
  | GQual string string
  | GNamed rtype
  | GPtrTo gexpr
  | GSliceOf gexpr
  | GArrayOf nat gexpr
  | GMapOf gexpr gexpr
  | GStructOf "(string \<times> gexpr \<times> string) list"

datatype go_event =
    Found rtype "enum_info option" "string list option"
  | Uses string
  | RealName string string
  | Problem string
  | ImportProblem rtype string

type_synonym 'a walk = "('a \<times> go_event list) option"

definition wret :: "'a \<Rightarrow> 'a walk" where
  "wret x = Some (x, [])"

definition wtell :: "go_event list \<Rightarrow> 'a \<Rightarrow> 'a walk" where
  "wtell l x = Some (x, l)"

definition wbind :: "'a walk \<Rightarrow> ('a \<Rightarrow> 'b walk) \<Rightarrow> 'b walk" where
  "wbind m f = (case m of None \<Rightarrow> None | Some (x, l) \<Rightarrow> map_option (\<lambda>(y, l'). (y, l @ l')) (f x))"

definition wmap1 :: "('a \<Rightarrow> 'b) \<Rightarrow> 'a walk \<Rightarrow> 'b walk" where
  "wmap1 f m = map_option (\<lambda>(x, l). (f x, l)) m"

fun wlist :: "'a walk list \<Rightarrow> 'a list walk" where
  "wlist [] = wret []"
| "wlist (m # ms) = wbind m (\<lambda>x. wmap1 (\<lambda>xs. x # xs) (wlist ms))"

text \<open>
  The text of an expression, given the names of the declared types and of the imports. A field of a
  struct has what is written before its type and after it.
\<close>

definition newline :: string where
  "newline = [CHR 0x0A]"

primrec expr_text :: "(rtype \<Rightarrow> string) \<Rightarrow> (string \<Rightarrow> string) \<Rightarrow> gexpr \<Rightarrow> string" where
  "expr_text nm imp GAny = ''any''"
| "expr_text nm imp (GBasic s) = s"
| "expr_text nm imp (GQual p n) = imp p @ ''.'' @ n"
| "expr_text nm imp (GNamed t) = nm t"
| "expr_text nm imp (GPtrTo x) = ''*'' @ expr_text nm imp x"
| "expr_text nm imp (GSliceOf x) = ''[]'' @ expr_text nm imp x"
| "expr_text nm imp (GArrayOf n x) = ''['' @ nat_str n @ '']'' @ expr_text nm imp x"
| "expr_text nm imp (GMapOf k x) = ''map['' @ expr_text nm imp k @ '']'' @ expr_text nm imp x"
| "expr_text nm imp (GStructOf fs) =
     ''struct {'' @ newline @ concat (map (\<lambda>(before, x, after). before @ x @ after)
       (map (map_prod id (map_prod (expr_text nm imp) id)) fs)) @ ''}''"

text \<open>\<open>writeDoc\<close>.\<close>

definition writeDoc :: "string \<Rightarrow> string" where
  "writeDoc doc0 =
     (let doc = TrimSpace doc0
      in if doc = [] then []
         else concat (map (\<lambda>line. let l = rev (dropWhile (\<lambda>c. c = CHR '' '' \<or> c = CHR 0x09) (rev line))
                           in (if l = [] then ''//'' else ''// '' @ l) @ newline) (split_on (CHR 0x0A) doc)))"

section \<open>Marshalers and nullable types\<close>

datatype wire_shape = ShapeString | ShapeBool | ShapeRaw

definition marshalShape :: "gen_env \<Rightarrow> rtype \<Rightarrow> wire_shape option" where
  "marshalShape e t =
     (if \<not> (ge_json_marshaler e t \<or> ge_json_marshaler e (RPtr t))
      then (if ge_text_marshaler e t \<or> ge_text_marshaler e (RPtr t) then Some ShapeString else None)
      else case ge_zero e t of
             Some (JStr s) \<Rightarrow> Some ShapeString
           | Some (JBool b) \<Rightarrow> Some ShapeBool
           | _ \<Rightarrow> Some ShapeRaw)"

text \<open>The arguments of \<open>sql.Null[T]\<close> that the server flattens: predeclared types and \<open>time.Time\<close>.\<close>

definition sqlNullFlattened :: "rtype \<Rightarrow> bool" where
  "sqlNullFlattened t \<longleftrightarrow>
     (case t of
        RString n \<Rightarrow> fst n = []
      | RInt n b \<Rightarrow> fst n = [] \<and> b \<in> {0, 16, 32, 64}
      | RFloat n b \<Rightarrow> fst n = [] \<and> b = 64
      | RBool n \<Rightarrow> fst n = []
      | RStruct n \<Rightarrow> n = (''time'', ''Time'')
      | _ \<Rightarrow> False)"

definition concrete_nulls :: "(string \<times> gexpr) list" where
  "concrete_nulls = [(''NullString'', GBasic ''string''), (''NullInt64'', GBasic ''int64''), (''NullInt32'', GBasic ''int32''),
     (''NullInt16'', GBasic ''int16''), (''NullFloat64'', GBasic ''float64''), (''NullBool'', GBasic ''bool''),
     (''NullByte'', GBasic ''byte''), (''NullTime'', GQual ''time'' ''Time'')]"

definition null_arg :: "rtype \<Rightarrow> rtype option" where
  "null_arg t = (case t of RNull i u \<Rightarrow> Some u | _ \<Rightarrow> None)"

definition isSQLNullFlattened :: "rtype \<Rightarrow> bool" where
  "isSQLNullFlattened t \<longleftrightarrow> PkgPath t = ''database/sql'' \<and>
     (map_of concrete_nulls (TypeName t) \<noteq> None \<or> (case null_arg t of Some u \<Rightarrow> sqlNullFlattened u | None \<Rightarrow> False))"

section \<open>Which expression a type gets\<close>

text \<open>
  The branches of \<open>typeExpr\<close>, with the types it goes on with; \<open>YUnder\<close> is \<open>underlyingExpr\<close> of the type
  itself. \<open>YImport\<close> has the problems of importing the type.
\<close>

datatype go_shape =
    YAny
  | YLeaf gexpr
  | YPtrLeaf gexpr
  | YPtr rtype
  | YUnder
  | YNamed "enum_info option" "string list option"
  | YImport string string
  | YFail string

definition null_shape :: "rtype \<Rightarrow> go_shape option" where
  "null_shape t =
     (if PkgPath t \<noteq> ''database/sql'' then None
      else case map_of concrete_nulls (TypeName t) of
             Some x \<Rightarrow> Some (YPtrLeaf x)
           | None \<Rightarrow> (case null_arg t of Some u \<Rightarrow> Some (if sqlNullFlattened u then YPtr u else YUnder) | None \<Rightarrow> None))"

definition shape_expr :: "wire_shape \<Rightarrow> gexpr" where
  "shape_expr s =
     (case s of ShapeString \<Rightarrow> GBasic ''string'' | ShapeBool \<Rightarrow> GBasic ''bool'' | ShapeRaw \<Rightarrow> GQual ''encoding/json/jsontext'' ''Value'')"

definition encodable :: "rtype \<Rightarrow> bool" where
  "encodable t \<longleftrightarrow> (case t of ROther n k \<Rightarrow> k \<notin> {''func'', ''chan'', ''unsafe.Pointer'', ''complex64'', ''complex128''} | _ \<Rightarrow> True)"

definition exported_name :: "string \<Rightarrow> bool" where
  "exported_name s \<longleftrightarrow> s \<noteq> [] \<and> IsUpper (hd s)"

definition own_shape :: "go_env \<Rightarrow> rtype \<Rightarrow> go_shape" where
  "own_shape e t =
     (let enum = ge_enum (ye_gen e) t
      in case marshalShape (ye_gen e) t of
           Some sh \<Rightarrow>
             (case (enum, if sh = ShapeString then (case enum of Some i \<Rightarrow> snd (ye_marshaled e t i) | None \<Rightarrow> None) else None) of
                (Some i, Some values) \<Rightarrow> YNamed (Some i) (Some values)
              | _ \<Rightarrow> YLeaf (shape_expr sh))
         | None \<Rightarrow>
             if enum \<noteq> None then YNamed enum None
             else if \<not> encodable t then YAny
             else YNamed None None)"

definition named_shape :: "go_env \<Rightarrow> rtype \<Rightarrow> go_shape" where
  "named_shape e t =
     (let pkg = PkgPath t; name = TypeName t; generic = (CHR ''['' \<in> set name)
      in if is_iface t then YAny
         else if name = [] \<or> pkg = [] then YUnder
         else if ye_stdlib e pkg then
           (if \<not> generic \<and> exported_name name then YLeaf (GQual pkg name)
            else case marshalShape (ye_gen e) t of Some sh \<Rightarrow> YLeaf (shape_expr sh) | None \<Rightarrow> YUnder)
         else if pkg \<in> set (ye_importTypes e) then
           (if generic then YFail (''cannot import generic type '' @ name)
            else if \<not> exported_name name then YFail (''cannot import unexported type '' @ name)
            else YImport pkg name)
         else own_shape e t)"

definition type_shape :: "go_env \<Rightarrow> rtype \<Rightarrow> go_shape" where
  "type_shape e t =
     (if t = blobType then YLeaf (GQual goClientPkgPath ''Blob'')
      else case t of
             RPtr u \<Rightarrow> (case (isSQLNullFlattened u, null_shape u) of (True, Some sh) \<Rightarrow> sh | _ \<Rightarrow> YPtr u)
           | _ \<Rightarrow> (case null_shape t of Some sh \<Rightarrow> sh | None \<Rightarrow> named_shape e t))"

text \<open>A named type of a package that is neither standard nor imported.\<close>

definition own_type :: "go_env \<Rightarrow> rtype \<Rightarrow> bool" where
  "own_type e t \<longleftrightarrow> TypeName t \<noteq> [] \<and> PkgPath t \<noteq> [] \<and> \<not> ye_stdlib e (PkgPath t) \<and> PkgPath t \<notin> set (ye_importTypes e)"

text \<open>The problem of encoding the members of an enum with its own marshaler.\<close>

definition enum_problems :: "go_env \<Rightarrow> rtype \<Rightarrow> go_event list" where
  "enum_problems e t =
     (case (if own_type e t then ge_enum (ye_gen e) t else None, marshalShape (ye_gen e) t) of
        (Some i, Some ShapeString) \<Rightarrow> (case fst (ye_marshaled e t i) of Some p \<Rightarrow> [Problem p] | None \<Rightarrow> [])
      | _ \<Rightarrow> [])"

text \<open>The events of an expression without parts.\<close>

definition leaf_walk :: "gexpr \<Rightarrow> gexpr walk" where
  "leaf_walk x = (case x of GQual p n \<Rightarrow> wtell [Uses p] x | _ \<Rightarrow> wret x)"

text \<open>\<open>findSQLNull\<close>: the path to a nullable type inside an imported one; the number bounds the nesting.\<close>

fun first_path :: "('a \<Rightarrow> 's \<Rightarrow> ('b option \<times> 's) option) \<Rightarrow> 'a list \<Rightarrow> 's \<Rightarrow> ('b option \<times> 's) option" where
  "first_path f [] s = Some (None, s)"
| "first_path f (x # xs) s =
     (case f x s of None \<Rightarrow> None | Some (Some p, s') \<Rightarrow> Some (Some p, s') | Some (None, s') \<Rightarrow> first_path f xs s')"

fun unptrs :: "rtype \<Rightarrow> rtype" where
  "unptrs (RPtr t) = unptrs t"
| "unptrs t = t"

fun findSQLNull :: "gen_env \<Rightarrow> nat \<Rightarrow> rtype \<Rightarrow> string list \<Rightarrow> rtype list \<Rightarrow> (string list option \<times> rtype list) option" where
  "findSQLNull e 0 t0 path seen = None"
| "findSQLNull e (Suc k) t0 path seen =
     (let t = unptrs t0
      in if PkgPath t = ''database/sql'' \<and> prefix ''Null'' (TypeName t) then Some (Some (path @ [TypeName t]), seen)
         else if t \<in> set seen then Some (None, seen)
         else if ge_json_marshaler e t \<or> ge_json_marshaler e (RPtr t) then Some (None, t # seen)
         else if is_struct_kind t then
           first_path (\<lambda>f s. if shouldSkipField f \<or> (\<not> rf_exported f \<and> \<not> rf_anonymous f) then Some (None, s)
                             else findSQLNull e k (rf_type f) (path @ [rf_name f]) s) (fields_of e t) (t # seen)
         else case elem_type t of Some u \<Rightarrow> findSQLNull e k u (path @ [''[]'']) (t # seen) | None \<Rightarrow> Some (None, t # seen))"

definition import_walk :: "go_env \<Rightarrow> nat \<Rightarrow> rtype \<Rightarrow> string \<Rightarrow> string \<Rightarrow> gexpr walk" where
  "import_walk e k t pkg name =
     (case findSQLNull (ye_gen e) k t [] [] of
        None \<Rightarrow> None
      | Some (found, seen) \<Rightarrow>
          let real = takeWhile (\<lambda>c. c \<noteq> CHR ''.'') (ye_string e t)
          in wtell ((case found of Some p \<Rightarrow> [ImportProblem t (name @ '' holds a nullable value at '' @ join ''.'' (butlast p))] | None \<Rightarrow> []) @
                    (if CHR ''.'' \<in> set (ye_string e t) \<and> IsIdentifier real then [RealName pkg real] else []) @ [Uses pkg])
               (GQual pkg name))"

section \<open>Fields\<close>

record wire_member =
  gf_goName :: string
  gf_jsonKey :: string
  gf_expr :: gexpr
  gf_tag :: string
  gf_doc :: string
  gf_embedded :: "rtype option"
  gf_ptr :: bool

definition goBasicKind :: "rtype \<Rightarrow> string" where
  "goBasicKind t =
     (case t of
        RInt n b \<Rightarrow> ''int'' @ (if b = 0 then [] else nat_str b)
      | RUint n b \<Rightarrow> if b = 8 then ''byte'' else ''uint'' @ (if b = 0 then [] else nat_str b)
      | RFloat n b \<Rightarrow> ''float'' @ nat_str b
      | RString n \<Rightarrow> ''string''
      | RBool n \<Rightarrow> ''bool''
      | _ \<Rightarrow> kind_string t)"

definition stripTypeTagOptions :: "string \<Rightarrow> string" where
  "stripTypeTagOptions tag =
     (let parts = split_on CHR '','' tag
      in join '','' (hd parts # filter (\<lambda>p. p \<noteq> ''string'' \<and> \<not> prefix ''format:'' p) (tl parts)))"

definition goStructTag :: "(string \<Rightarrow> string) \<Rightarrow> string \<Rightarrow> string \<Rightarrow> string" where
  "goStructTag quote key value =
     (let tag = key @ '':'' @ quote value in if CHR ''`'' \<in> set tag then quote tag else ''`'' @ tag @ ''`'')"

definition hasExportedField :: "gen_env \<Rightarrow> rtype \<Rightarrow> bool" where
  "hasExportedField e t \<longleftrightarrow> list_ex rf_exported (fields_of e t)"

definition overrideOf :: "gen_env \<Rightarrow> rtype \<Rightarrow> rfield \<Rightarrow> rtype option" where
  "overrideOf e owner f = (case owner of RStruct n \<Rightarrow> ge_override e n (rf_name f) | _ \<Rightarrow> None)"

text \<open>The type whose expression a field gets.\<close>

definition fieldType :: "gen_env \<Rightarrow> rtype \<Rightarrow> rfield \<Rightarrow> rtype" where
  "fieldType e owner f =
     (case overrideOf e owner f of
        None \<Rightarrow> rf_type f
      | Some ov \<Rightarrow> (case ov of RPtr u \<Rightarrow> ov | RMap n a b \<Rightarrow> ov | RSlice n u \<Rightarrow> ov | RIface n \<Rightarrow> ov | _ \<Rightarrow> RPtr ov))"

definition serverIgnoresTagOptions :: "go_env \<Rightarrow> rtype \<Rightarrow> bool" where
  "serverIgnoresTagOptions e t0 \<longleftrightarrow>
     (let t = unptr t0
      in if isSQLNullFlattened t then True
         else if t = blobType \<or> \<not> own_type e t then False
         else marshalShape (ye_gen e) t \<noteq> None)"

text \<open>
  What an embedded struct is embedded as: the name that the expression of the type ends with, if the
  expression is a possibly qualified identifier. \<open>declares\<close> tells whether this is a type the client declares.
\<close>

definition declares :: "go_env \<Rightarrow> rtype \<Rightarrow> bool" where
  "declares e t \<longleftrightarrow> t = blobType \<or> PkgPath t = ''database/sql'' \<or> (case type_shape e t of YNamed i vs \<Rightarrow> True | _ \<Rightarrow> False)"

definition embed_name :: "go_env \<Rightarrow> (rtype \<Rightarrow> string) \<Rightarrow> rtype \<Rightarrow> string option" where
  "embed_name e nm t =
     (if declares e t then Some (nm t)
      else case type_shape e t of
             YAny \<Rightarrow> Some ''any''
           | YFail s \<Rightarrow> Some ''any''
           | YImport p n \<Rightarrow> Some n
           | YLeaf (GQual p n) \<Rightarrow> Some n
           | YLeaf (GBasic s) \<Rightarrow> Some s
           | _ \<Rightarrow> None)"

definition json_name :: "rfield \<Rightarrow> string" where
  "json_name f = hd (split_on CHR '','' (rf_json f))"

definition field_tag :: "go_env \<Rightarrow> string \<Rightarrow> string" where
  "field_tag e tag = (if tag = [] then [] else goStructTag (ge_quote (ye_gen e)) ''json'' tag)"

definition plain_tag :: "go_env \<Rightarrow> rtype \<Rightarrow> rfield \<Rightarrow> string" where
  "plain_tag e owner f =
     (if rf_json f \<noteq> [] \<and> serverIgnoresTagOptions e (effectiveFieldType (ye_gen e) owner f)
      then stripTypeTagOptions (rf_json f) else rf_json f)"

text \<open>The struct that a field embeds without a JSON name, and whether nothing of it is on the wire.\<close>

definition inlines :: "rfield \<Rightarrow> rtype option" where
  "inlines f = (if json_name f = [] then embeds f else None)"

definition nothing_on_wire :: "go_env \<Rightarrow> rtype \<Rightarrow> bool" where
  "nothing_on_wire e t \<longleftrightarrow> ye_stdlib e (PkgPath t) \<and> \<not> hasExportedField (ye_gen e) t"

definition plain_skipped :: "rfield \<Rightarrow> bool" where
  "plain_skipped f \<longleftrightarrow> \<not> rf_exported f \<and> embeds f = None"

section \<open>The walk over a type\<close>

definition field_line :: "wire_member \<Rightarrow> string \<times> gexpr \<times> string" where
  "field_line f =
     (writeDoc (gf_doc f) @ (case gf_embedded f of Some t \<Rightarrow> (if gf_ptr f then ''*'' else []) | None \<Rightarrow> gf_goName f @ '' ''),
      gf_expr f, (if gf_tag f = [] then [] else '' '' @ gf_tag f) @ newline)"

text \<open>The second field of a name is a problem and is left out.\<close>

fun keep_first :: "string list \<Rightarrow> wire_member list \<Rightarrow> wire_member list walk" where
  "keep_first seen [] = wret []"
| "keep_first seen (f # fs) =
     (if gf_goName f \<in> set seen
      then wbind (wtell [Problem (''two fields named '' @ gf_goName f)] ()) (\<lambda>_. keep_first seen fs)
      else wmap1 (\<lambda>gs. f # gs) (keep_first (gf_goName f # seen) fs))"

definition direct_names :: "wire_member list \<Rightarrow> string list" where
  "direct_names fs = map gf_goName (filter (\<lambda>f. gf_embedded f = None) fs)"

definition direct_keys :: "wire_member list \<Rightarrow> string list" where
  "direct_keys fs = map gf_jsonKey (filter (\<lambda>f. gf_embedded f = None) fs)"

definition is_string_shape :: "wire_shape option \<Rightarrow> bool" where
  "is_string_shape s \<longleftrightarrow> s = None \<or> s = Some ShapeString"

text \<open>
  The parts of the walk, given what they make of the types they meet: the body of the loop of
  \<open>structFields\<close>, \<open>structFields\<close>, \<open>structExpr\<close>, \<open>mapKeyExpr\<close> and \<open>underlyingExpr\<close>. \<open>nm\<close> are the names the
  declared types have in this pass.
\<close>

definition plain_field :: "go_env \<Rightarrow> (rtype \<Rightarrow> gexpr walk) \<Rightarrow> rtype \<Rightarrow> rfield \<Rightarrow> string \<Rightarrow> wire_member list walk" where
  "plain_field e expr owner f doc =
     (if plain_skipped f then wret []
      else wmap1 (\<lambda>x. [\<lparr>gf_goName = goExportedIdent (rf_name f),
                       gf_jsonKey = (if json_name f = [] then rf_name f else json_name f), gf_expr = x,
                       gf_tag = field_tag e (plain_tag e owner f), gf_doc = doc, gf_embedded = None, gf_ptr = False\<rparr>])
        (expr (fieldType (ye_gen e) owner f)))"

definition embedded_field :: "go_env \<Rightarrow> rtype \<Rightarrow> rfield \<Rightarrow> string \<Rightarrow> string \<Rightarrow> gexpr \<Rightarrow> wire_member" where
  "embedded_field e u f doc n x =
     \<lparr>gf_goName = n, gf_jsonKey = [], gf_expr = x, gf_tag = field_tag e (rf_json f), gf_doc = doc,
      gf_embedded = Some u, gf_ptr = is_ptr (rf_type f)\<rparr>"

definition embed_expr :: "(rtype \<Rightarrow> gexpr walk) \<Rightarrow> rtype \<Rightarrow> gexpr walk" where
  "embed_expr expr u =
     (if u = blobType \<or> PkgPath u = ''database/sql'' then wtell [Found u None None] (GNamed u) else expr u)"

definition field_decl ::
  "go_env \<Rightarrow> (rtype \<Rightarrow> string) \<Rightarrow> (rtype \<Rightarrow> gexpr walk) \<Rightarrow> rtype \<Rightarrow> rfield \<Rightarrow> wire_member list walk" where
  "field_decl e nm expr owner f =
     (let doc = (if TypeName owner \<noteq> [] then ye_doc e owner (rf_name f) else [])
      in if shouldSkipField f then wret []
         else case inlines f of
                None \<Rightarrow> plain_field e expr owner f doc
              | Some u \<Rightarrow>
                  if nothing_on_wire e u then wret []
                  else wbind (embed_expr expr u)
                    (\<lambda>x. case embed_name e nm u of
                           Some n \<Rightarrow> wret [embedded_field e u f doc n x]
                         | None \<Rightarrow> plain_field e expr owner f doc))"

definition structFields :: "go_env \<Rightarrow> (rtype \<Rightarrow> string) \<Rightarrow> (rtype \<Rightarrow> gexpr walk) \<Rightarrow> rtype \<Rightarrow> wire_member list walk" where
  "structFields e nm expr t = wmap1 concat (wlist (map (field_decl e nm expr t) (fields_of (ye_gen e) t)))"

text \<open>An embedded struct whose name a field of the struct already has: its fields take its place.\<close>

definition clashes :: "wire_member list \<Rightarrow> wire_member \<Rightarrow> bool" where
  "clashes every f \<longleftrightarrow> gf_embedded f \<noteq> None \<and> gf_goName f \<in> set (direct_names every)"

definition inline_clash ::
  "go_env \<Rightarrow> (rtype \<Rightarrow> string) \<Rightarrow> (rtype \<Rightarrow> gexpr walk) \<Rightarrow> wire_member list \<Rightarrow> wire_member \<Rightarrow> wire_member list walk" where
  "inline_clash e nm expr every f =
     (if \<not> clashes every f then wret [f]
      else if gf_ptr f then wtell [Problem (''embedded name '' @ gf_goName f @ '' clashes with a field'')] []
      else wmap1 (filter (\<lambda>inner. \<not> (gf_embedded inner = None \<and> gf_jsonKey inner \<in> set (direct_keys every))))
             (structFields e nm expr (the (gf_embedded f))))"

definition structExpr :: "go_env \<Rightarrow> (rtype \<Rightarrow> string) \<Rightarrow> (rtype \<Rightarrow> gexpr walk) \<Rightarrow> rtype \<Rightarrow> gexpr walk" where
  "structExpr e nm expr t =
     wbind (structFields e nm expr t) (\<lambda>every.
     wbind (wlist (map (inline_clash e nm expr every) every)) (\<lambda>out.
     wmap1 (\<lambda>fs. GStructOf (map field_line fs)) (keep_first [] (concat out))))"

definition mapKeyExpr :: "go_env \<Rightarrow> (rtype \<Rightarrow> gexpr walk) \<Rightarrow> rtype \<Rightarrow> gexpr walk" where
  "mapKeyExpr e expr t =
     (if own_type e t \<and> \<not> is_string_shape (marshalShape (ye_gen e) t) then wret (GBasic ''string'') else expr t)"

definition underlying_of :: "go_env \<Rightarrow> (rtype \<Rightarrow> string) \<Rightarrow> (rtype \<Rightarrow> gexpr walk) \<Rightarrow> rtype \<Rightarrow> gexpr walk" where
  "underlying_of e nm expr t =
     (case t of
        RPtr u \<Rightarrow> wmap1 GPtrTo (expr u)
      | RSlice n u \<Rightarrow> wmap1 GSliceOf (expr u)
      | RArray n l u \<Rightarrow> wmap1 (GArrayOf l) (expr u)
      | RMap n a u \<Rightarrow> wbind (mapKeyExpr e expr a) (\<lambda>x. wmap1 (GMapOf x) (expr u))
      | RStruct n \<Rightarrow> structExpr e nm expr t
      | RNull i u \<Rightarrow> structExpr e nm expr t
      | RIface n \<Rightarrow> wret GAny
      | ROther n kd \<Rightarrow> wret (if encodable t then GBasic kd else GAny)
      | _ \<Rightarrow> wret (GBasic (goBasicKind t)))"

text \<open>
  \<open>typeExpr\<close>. The number bounds the nesting of expressions; \<open>None\<close> is a walk that exceeds it.
\<close>

fun typeExpr :: "go_env \<Rightarrow> (rtype \<Rightarrow> string) \<Rightarrow> nat \<Rightarrow> rtype \<Rightarrow> gexpr walk" where
  "typeExpr e nm 0 t = None"
| "typeExpr e nm (Suc k) t =
     (case type_shape e t of
        YAny \<Rightarrow> wret GAny
      | YLeaf x \<Rightarrow> wbind (wtell (enum_problems e t) ()) (\<lambda>_. leaf_walk x)
      | YPtrLeaf x \<Rightarrow> wmap1 GPtrTo (leaf_walk x)
      | YPtr u \<Rightarrow> wmap1 GPtrTo (typeExpr e nm k u)
      | YUnder \<Rightarrow> underlying_of e nm (typeExpr e nm k) t
      | YNamed i vs \<Rightarrow> wtell (enum_problems e t @ [Found t i vs]) (GNamed t)
      | YImport p n \<Rightarrow> import_walk e k t p n
      | YFail msg \<Rightarrow> wtell [Problem msg] GAny)"

definition underlyingExpr :: "go_env \<Rightarrow> (rtype \<Rightarrow> string) \<Rightarrow> nat \<Rightarrow> rtype \<Rightarrow> gexpr walk" where
  "underlyingExpr e nm k t = underlying_of e nm (typeExpr e nm k) t"

section \<open>The two passes\<close>

record go_handler =
  gh_Name :: string
  gh_Kind :: handler_kind
  gh_Void :: bool
  gh_Params :: "(rtype \<times> bool) list"
  gh_Out :: rtype
  gh_Key :: "rtype option"

record go_group =
  gr_Name :: string
  gr_socket :: bool
  gr_Handlers :: "go_handler list"
  gr_Events :: "(string \<times> rtype) list"
  gr_Enums :: "rtype list"

record go_registry =
  gy_Groups :: "go_group list"
  gy_SharedEnums :: "rtype list"
  gy_ErrorCodes :: "(string \<times> int) list"

definition goClientGroups :: "go_registry \<Rightarrow> go_group list" where
  "goClientGroups r = sort_key gr_Name (filter gr_socket (gy_Groups r))"

definition pushEvents :: "go_registry \<Rightarrow> (string \<times> rtype) list" where
  "pushEvents r = sort_key fst (concat (map gr_Events (goClientGroups r)))"

text \<open>The types that rendering a method asks for, in order: parameters, then the key and the item or the result.\<close>

definition handler_roots :: "go_handler \<Rightarrow> rtype list" where
  "handler_roots h =
     map fst (gh_Params h) @
     (if gh_Kind h = HandlerKindStream2 then (case gh_Key h of Some kt \<Rightarrow> [kt] | None \<Rightarrow> []) @ [gh_Out h]
      else if gh_Kind h = HandlerKindStream then [gh_Out h]
      else if gh_Void h then [] else [gh_Out h])"

definition body_roots :: "go_registry \<Rightarrow> rtype list" where
  "body_roots r =
     map snd (pushEvents r) @
     concat (map (\<lambda>g. concat (map handler_roots (sort_key gh_Name (gr_Handlers g)))) (goClientGroups r)) @
     concat (map gr_Enums (goClientGroups r)) @ gy_SharedEnums r"

text \<open>The types to declare, in the order of their discovery, each with its enum.\<close>

type_synonym go_order = "(rtype \<times> enum_info option \<times> string list option) list"

fun add_found :: "go_event list \<Rightarrow> go_order \<Rightarrow> go_order" where
  "add_found [] order = order"
| "add_found (Found t i vs # evs) order = add_found evs (if t \<in> fst ` set order then order else order @ [(t, i, vs)])"
| "add_found (ev # evs) order = add_found evs order"

text \<open>What \<open>renderNamed\<close> asks for.\<close>

definition named_walk :: "go_env \<Rightarrow> (rtype \<Rightarrow> string) \<Rightarrow> nat \<Rightarrow> rtype \<times> enum_info option \<times> string list option \<Rightarrow> gexpr walk" where
  "named_walk e nm k x =
     (case x of (t, Some i, vs) \<Rightarrow> wret (GBasic (if vs = None then goBasicKind t else ''string'')) | (t, None, vs) \<Rightarrow> underlyingExpr e nm k t)"

text \<open>The loop of the first pass over the types found so far; the first number bounds its rounds.\<close>

fun drain :: "go_env \<Rightarrow> (rtype \<Rightarrow> string) \<Rightarrow> nat \<Rightarrow> nat \<Rightarrow> nat \<Rightarrow> go_order \<Rightarrow> go_event list \<Rightarrow> (go_order \<times> go_event list) option" where
  "drain e nm k 0 i order evs = None"
| "drain e nm k (Suc n) i order evs =
     (if i < length order then
        (case named_walk e nm k (order ! i) of
           None \<Rightarrow> None
         | Some (x, l) \<Rightarrow> drain e nm k n (Suc i) (add_found l order) (evs @ l))
      else Some (order, evs))"

definition first_pass :: "go_env \<Rightarrow> nat \<Rightarrow> nat \<Rightarrow> go_registry \<Rightarrow> (go_order \<times> go_event list) option" where
  "first_pass e k n r =
     (let nm = (\<lambda>t. goTypeNameCandidate t 0)
      in case wlist (map (typeExpr e nm k) (body_roots r)) of
           None \<Rightarrow> None
         | Some (xs, l) \<Rightarrow> drain e nm k n 0 (add_found l []) l)"

text \<open>The second pass: the expressions of the body and of the declarations, under the final names.\<close>

definition second_pass :: "go_env \<Rightarrow> (rtype \<Rightarrow> string) \<Rightarrow> nat \<Rightarrow> go_registry \<Rightarrow> go_order \<Rightarrow> gexpr list walk" where
  "second_pass e nm k r order =
     wbind (wlist (map (typeExpr e nm k) (body_roots r))) (\<lambda>xs.
     wmap1 (\<lambda>ys. xs @ ys) (wlist (map (named_walk e nm k) (sort_key (\<lambda>x. nm (fst x)) order))))"

section \<open>Generate\<close>

text \<open>An imported type is checked once; \<open>seen\<close> are those that were.\<close>

fun problems_of :: "rtype list \<Rightarrow> go_event list \<Rightarrow> string list" where
  "problems_of seen [] = []"
| "problems_of seen (Problem p # evs) = p # problems_of seen evs"
| "problems_of seen (ImportProblem t p # evs) =
     (if t \<in> set seen then problems_of seen evs else p # problems_of (t # seen) evs)"
| "problems_of seen (ev # evs) = problems_of seen evs"

fun uses_of :: "go_event list \<Rightarrow> string list" where
  "uses_of [] = []"
| "uses_of (Uses p # evs) = List.insert p (uses_of evs)"
| "uses_of (ev # evs) = uses_of evs"

fun real_names :: "go_event list \<Rightarrow> (string, string) gomap \<Rightarrow> (string, string) gomap" where
  "real_names [] m = m"
| "real_names (RealName p n # evs) m = real_names evs (AList.update p n m)"
| "real_names (ev # evs) m = real_names evs m"

fun found_of :: "go_event list \<Rightarrow> rtype list" where
  "found_of [] = []"
| "found_of (Found t i vs # evs) = t # found_of evs"
| "found_of (ev # evs) = found_of evs"

text \<open>The types that \<open>namedRef\<close> meets for the first time while rendering, an internal error.\<close>

definition undeclared :: "go_order \<Rightarrow> go_event list \<Rightarrow> rtype list" where
  "undeclared order evs = filter (\<lambda>t. t \<notin> fst ` set order) (found_of evs)"

record go_options =
  yo_PackageName :: string
  yo_OutputBase :: string

definition aprotPkgPath :: string where
  "aprotPkgPath = ''github.com/marrasen/aprot''"

text \<open>The packages that the body itself uses: the runtime client, and \<open>context\<close> for methods.\<close>

definition body_uses :: "go_registry \<Rightarrow> string list" where
  "body_uses r = goClientPkgPath # (if concat (map gr_Handlers (goClientGroups r)) = [] then [] else [''context''])"

definition subscribable :: "go_handler \<Rightarrow> bool" where
  "subscribable h \<longleftrightarrow> gh_Kind h = HandlerKindUnary \<and> \<not> gh_Void h"

definition claim_errs :: "go_registry \<Rightarrow> (string \<times> string \<times> string) list" where
  "claim_errs r =
     member_errs (map gr_Name (goClientGroups r)) (map fst (pushEvents r)) @
     concat (map (\<lambda>g. method_errs (map (\<lambda>h. (gh_Name h, subscribable h)) (sort_key gh_Name (gr_Handlers g)))) (goClientGroups r))"

record go_client =
  gc_Package :: string
  gc_Imports :: "(string \<times> string) list"
  gc_Used :: "string list"
  gc_Names :: go_names
  gc_Exprs :: "gexpr list"

text \<open>A failure joins the problems of a pass and the names that are claimed twice; their relative order is not kept.\<close>

datatype go_failure =
    BadPackageName
  | ServerPackage
  | Problems "string list" "(string \<times> string \<times> string) list"

definition name_in :: "go_names \<Rightarrow> rtype \<Rightarrow> string" where
  "name_in ns t = (case map_of (gn_types ns) t of Some n \<Rightarrow> n | None \<Rightarrow> goTypeNameCandidate t 0)"

definition GoGenerate :: "go_env \<Rightarrow> go_options \<Rightarrow> nat \<Rightarrow> nat \<Rightarrow> go_registry \<Rightarrow> (go_failure + go_client) option" where
  "GoGenerate e op k n r =
     (case packageName (yo_PackageName op) (yo_OutputBase op) of
        None \<Rightarrow> Some (Inl BadPackageName)
      | Some pkg \<Rightarrow>
          if aprotPkgPath \<in> set (ye_importTypes e) then Some (Inl ServerPackage)
          else case first_pass e k n r of
                 None \<Rightarrow> None
               | Some (order, evs) \<Rightarrow>
                   if problems_of [] evs \<noteq> [] \<or> claim_errs r \<noteq> [] then
                     Some (Inl (Problems (problems_of [] evs) (claim_errs r)))
                   else
                     let ns = assignNames (ye_string e) (map (\<lambda>g. (go_client_type (gr_Name g), gr_Name g)) (goClientGroups r))
                            (map (\<lambda>(t, i, vs). (t, i)) order) (gy_ErrorCodes r)
                     in if gn_errs ns \<noteq> [] then Some (Inl (Problems [] (gn_errs ns)))
                        else case second_pass e (name_in ns) k r order of
                               None \<Rightarrow> None
                             | Some (xs, evs2) \<Rightarrow>
                                 let errs = problems_of [] evs2 @ map (\<lambda>t. ''internal error: type '' @ ye_string e t @ '' discovered while rendering'')
                                              (undeclared order evs2)
                                 in if errs \<noteq> [] then Some (Inl (Problems errs []))
                                 else Some (Inr \<lparr>gc_Package = pkg,
                                        gc_Imports = assignImportNames (real_names evs []) (remdups (body_uses r @ uses_of evs)),
                                        gc_Used = remdups (body_uses r @ uses_of evs2), gc_Names = ns, gc_Exprs = xs\<rparr>))"

section \<open>Walks\<close>

lemma wbind_Some: "wbind m f = Some (y, l) \<longleftrightarrow> (\<exists>x l1 l2. m = Some (x, l1) \<and> f x = Some (y, l2) \<and> l = l1 @ l2)"
  by (auto simp: wbind_def split: option.splits)

lemma wmap1_Some: "wmap1 f m = Some (y, l) \<longleftrightarrow> (\<exists>x. m = Some (x, l) \<and> y = f x)"
  by (auto simp: wmap1_def)

lemma wret_Some [simp]: "wret x = Some (y, l) \<longleftrightarrow> y = x \<and> l = []"
  by (auto simp: wret_def)

lemma wtell_Some [simp]: "wtell l x = Some (y, l') \<longleftrightarrow> y = x \<and> l' = l"
  by (auto simp: wtell_def)

lemmas walk_Some = wbind_Some wmap1_Some

text \<open>What a walk found and used.\<close>

definition event_keys :: "go_event list \<Rightarrow> (rtype + string) set" where
  "event_keys l = Inl ` set (found_of l) \<union> Inr ` set (uses_of l)"

lemma found_of_append [simp]: "found_of (a @ b) = found_of a @ found_of b"
  by (induction a rule: found_of.induct) simp_all

lemma uses_of_append [simp]: "set (uses_of (a @ b)) = set (uses_of a) \<union> set (uses_of b)"
  by (induction a rule: uses_of.induct) auto

lemma event_keys_simps [simp]:
  "event_keys [] = {}" "event_keys (a @ b) = event_keys a \<union> event_keys b" "event_keys (Found t i vs # l) = insert (Inl t) (event_keys l)"
  "event_keys (Uses p # l) = insert (Inr p) (event_keys l)" "event_keys (Problem m # l) = event_keys l"
  "event_keys (ImportProblem t m # l) = event_keys l" "event_keys (RealName p n # l) = event_keys l"
  by (auto simp: event_keys_def)

lemma wlist_Some:
  "wlist ms = Some (xs, l) \<Longrightarrow> list_all2 (\<lambda>m x. \<exists>l'. m = Some (x, l') \<and> event_keys l' \<subseteq> event_keys l) ms xs"
proof (induction ms arbitrary: xs l)
  case (Cons m ms)
  then obtain x l1 ys l2 where h: "m = Some (x, l1)" "wlist ms = Some (ys, l2)" "xs = x # ys" "l = l1 @ l2"
    by (auto simp: walk_Some)
  have "list_all2 (\<lambda>m x. \<exists>l'. m = Some (x, l') \<and> event_keys l' \<subseteq> event_keys l) ms ys"
    using Cons.IH [OF h(2)] by (rule list_all2_mono) (auto simp: h(4))
  then show ?case using h by auto
qed simp

lemma wlist_keys: "wlist ms = Some (xs, l) \<Longrightarrow> (\<And>x l'. Some (x, l') \<in> set ms \<Longrightarrow> event_keys l' \<subseteq> S) \<Longrightarrow> event_keys l \<subseteq> S"
proof (induction ms arbitrary: xs l)
  case (Cons m ms)
  then obtain x l1 ys l2 where h: "m = Some (x, l1)" "wlist ms = Some (ys, l2)" "l = l1 @ l2"
    by (auto simp: walk_Some)
  then show ?case using Cons.IH [OF h(2)] Cons.prems(2) by auto
qed simp

lemma enum_problems_keys [simp]: "event_keys (enum_problems e t) = {}"
  by (auto simp: enum_problems_def split: option.splits wire_shape.splits)

lemma leaf_walk_keys: "leaf_walk x = Some (y, l) \<Longrightarrow> event_keys l = (case x of GQual p n \<Rightarrow> {Inr p} | _ \<Rightarrow> {})"
  by (auto simp: leaf_walk_def split: gexpr.splits)

lemma import_walk_keys: "import_walk e k t p n = Some (y, l) \<Longrightarrow> event_keys l = {Inr p}"
  by (auto simp: import_walk_def Let_def split: option.splits if_splits)

lemma keep_first_keys: "keep_first seen fs = Some (gs, l) \<Longrightarrow> event_keys l = {}"
  by (induction seen fs arbitrary: gs l rule: keep_first.induct) (auto simp: walk_Some split: if_splits)

section \<open>The passes agree\<close>

text \<open>
  Two walks with different names; \<open>S\<close> has what the first one finds and uses. The names only decide
  which embedded structs are expanded.
\<close>

definition agrees :: "(rtype + string) set \<Rightarrow> (rtype \<Rightarrow> gexpr walk) \<Rightarrow> (rtype \<Rightarrow> gexpr walk) \<Rightarrow> bool" where
  "agrees S f g \<longleftrightarrow> (\<forall>t x l y l'. f t = Some (x, l) \<longrightarrow> g t = Some (y, l') \<longrightarrow> event_keys l \<subseteq> S \<longrightarrow> event_keys l' \<subseteq> S)"

lemma agreesD: "agrees S f g \<Longrightarrow> f t = Some (x, l) \<Longrightarrow> g t = Some (y, l') \<Longrightarrow> event_keys l \<subseteq> S \<Longrightarrow> event_keys l' \<subseteq> S"
  unfolding agrees_def by blast

definition same_field :: "(rtype + string) set \<Rightarrow> wire_member \<Rightarrow> wire_member \<Rightarrow> bool" where
  "same_field S f g \<longleftrightarrow> gf_embedded f = gf_embedded g \<and> gf_ptr f = gf_ptr g \<and>
     (gf_goName f = gf_goName g \<or> (\<exists>u. gf_embedded f = Some u \<and> is_struct_kind u \<and> Inl u \<in> S))"

text \<open>The walk \<open>f\<close> records the struct types that it meets and the client declares.\<close>

definition records_types :: "go_env \<Rightarrow> (rtype \<Rightarrow> gexpr walk) \<Rightarrow> bool" where
  "records_types e f \<longleftrightarrow> (\<forall>u x l. embed_expr f u = Some (x, l) \<longrightarrow> declares e u \<longrightarrow> Inl u \<in> event_keys l)"

lemma embed_name_cases:
  "embed_name e nm u = None \<longleftrightarrow> embed_name e nm' u = None" "\<not> declares e u \<Longrightarrow> embed_name e nm u = embed_name e nm' u"
  by (auto simp: embed_name_def declares_def split: go_shape.splits gexpr.splits)

lemma embed_expr_agrees:
  "agrees S f g \<Longrightarrow> embed_expr f u = Some (x, l) \<Longrightarrow> embed_expr g u = Some (y, l') \<Longrightarrow> event_keys l \<subseteq> S \<Longrightarrow> event_keys l' \<subseteq> S"
  by (auto simp: embed_expr_def dest: agreesD split: if_splits)

lemma plain_field_agrees:
  assumes "agrees S f g" "plain_field e f t fd d = Some (xs, l)" "plain_field e g t fd d = Some (ys, l')" "event_keys l \<subseteq> S"
  shows "event_keys l' \<subseteq> S \<and> list_all2 (same_field S) xs ys"
proof (cases "plain_skipped fd")
  case False
  from False assms(2) obtain x where x: "f (fieldType (ye_gen e) t fd) = Some (x, l)"
    by (auto simp: plain_field_def wmap1_Some)
  from False assms(3) obtain y where y: "g (fieldType (ye_gen e) t fd) = Some (y, l')"
    by (auto simp: plain_field_def wmap1_Some)
  have "list_all2 (same_field S) xs ys"
    using False assms(2,3) by (auto simp: plain_field_def wmap1_Some same_field_def)
  then show ?thesis using agreesD [OF assms(1) x y assms(4)] by simp
qed (use assms in \<open>simp add: plain_field_def\<close>)

lemma embeds_struct: "inlines fd = Some u \<Longrightarrow> is_struct_kind u"
  by (auto simp: inlines_def embeds_def Let_def split: if_splits)

lemma field_decl_agrees:
  assumes ag: "agrees S f g" and rec: "records_types e f" and f: "field_decl e nm f t fd = Some (xs, l)"
    and g: "field_decl e nm' g t fd = Some (ys, l')" and sub: "event_keys l \<subseteq> S"
  shows "event_keys l' \<subseteq> S \<and> list_all2 (same_field S) xs ys"
proof -
  let ?doc = "if TypeName t \<noteq> [] then ye_doc e t (rf_name fd) else []"
  consider (none) "shouldSkipField fd \<or> (\<exists>u. inlines fd = Some u \<and> nothing_on_wire e u)"
    | (plain) "\<not> shouldSkipField fd" "inlines fd = None"
    | (embed) u where "\<not> shouldSkipField fd" "inlines fd = Some u" "\<not> nothing_on_wire e u"
    by (cases "inlines fd") auto
  then show ?thesis
  proof cases
    case none
    then show ?thesis using f g by (auto simp: field_decl_def Let_def split: if_splits)
  next
    case plain
    then have "plain_field e f t fd ?doc = Some (xs, l)" "plain_field e g t fd ?doc = Some (ys, l')"
      using f g by (simp_all add: field_decl_def Let_def)
    then show ?thesis using plain_field_agrees [OF ag] sub by blast
  next
    case embed
    from f embed obtain x l1 l2 where x: "embed_expr f u = Some (x, l1)" "l = l1 @ l2"
        "(case embed_name e nm u of Some n \<Rightarrow> wret [embedded_field e u fd ?doc n x] | None \<Rightarrow> plain_field e f t fd ?doc) = Some (xs, l2)"
      by (auto simp: field_decl_def Let_def wbind_Some)
    from g embed obtain y m1 m2 where y: "embed_expr g u = Some (y, m1)" "l' = m1 @ m2"
        "(case embed_name e nm' u of Some n \<Rightarrow> wret [embedded_field e u fd ?doc n y] | None \<Rightarrow> plain_field e g t fd ?doc) = Some (ys, m2)"
      by (auto simp: field_decl_def Let_def wbind_Some)
    have s: "event_keys l1 \<subseteq> S" "event_keys l2 \<subseteq> S" using sub x(2) by auto
    have m1: "event_keys m1 \<subseteq> S" by (rule embed_expr_agrees [OF ag x(1) y(1) s(1)])
    have "event_keys m2 \<subseteq> S \<and> list_all2 (same_field S) xs ys"
    proof (cases "embed_name e nm u")
      case None
      then have n': "embed_name e nm' u = None" using embed_name_cases(1) by metis
      have "plain_field e f t fd ?doc = Some (xs, l2)" using x(3) None by simp
      moreover have "plain_field e g t fd ?doc = Some (ys, m2)" using y(3) n' by simp
      ultimately show ?thesis using plain_field_agrees [OF ag] s(2) by blast
    next
      case (Some n)
      then obtain n' where n': "embed_name e nm' u = Some n'" using embed_name_cases(1) by (metis not_None_eq)
      have "n = n' \<or> declares e u" using embed_name_cases(2) [of e u nm nm'] Some n' by auto
      then have "n = n' \<or> Inl u \<in> S" using rec x(1) s(1) unfolding records_types_def by blast
      then show ?thesis using x(3) y(3) Some n' embeds_struct [OF embed(2)] by (auto simp: embedded_field_def same_field_def)
    qed
    then show ?thesis using m1 y(2) by simp
  qed
qed

lemma list_all2_zip_walk:
  assumes "list_all2 P (map f xs) as" "list_all2 Q (map g xs) bs" "\<And>x a b. x \<in> set xs \<Longrightarrow> P (f x) a \<Longrightarrow> Q (g x) b \<Longrightarrow> R a b"
  shows "list_all2 R as bs"
proof -
  have "length as = length xs" "length bs = length xs"
    using assms(1,2) by (auto dest: list_all2_lengthD)
  then show ?thesis
    using assms(1,2) by (auto simp: list_all2_conv_all_nth intro!: assms(3))
qed

lemma structFields_agrees:
  assumes ag: "agrees S f g" and rec: "records_types e f" and f: "structFields e nm f t = Some (xs, l)"
    and g: "structFields e nm' g t = Some (ys, l')" and sub: "event_keys l \<subseteq> S"
  shows "event_keys l' \<subseteq> S \<and> list_all2 (same_field S) xs ys"
proof -
  let ?fs = "fields_of (ye_gen e) t"
  obtain as where as: "wlist (map (field_decl e nm f t) ?fs) = Some (as, l)" "xs = concat as"
    using f by (auto simp: structFields_def wmap1_Some)
  obtain bs where bs: "wlist (map (field_decl e nm' g t) ?fs) = Some (bs, l')" "ys = concat bs"
    using g by (auto simp: structFields_def wmap1_Some)
  note la = wlist_Some [OF as(1)] and lb = wlist_Some [OF bs(1)]
  have "list_all2 (list_all2 (same_field S)) as bs"
  proof (rule list_all2_zip_walk [OF la lb])
    fix fd x y
    assume "\<exists>k. field_decl e nm f t fd = Some (x, k) \<and> event_keys k \<subseteq> event_keys l"
      and "\<exists>k'. field_decl e nm' g t fd = Some (y, k') \<and> event_keys k' \<subseteq> event_keys l'"
    then show "list_all2 (same_field S) x y" using field_decl_agrees [OF ag rec] sub by blast
  qed
  moreover have "event_keys l' \<subseteq> S"
  proof (rule wlist_keys [OF bs(1)])
    fix y k'
    assume "Some (y, k') \<in> set (map (field_decl e nm' g t) ?fs)"
    then obtain fd where fd: "fd \<in> set ?fs" "field_decl e nm' g t fd = Some (y, k')" by auto
    then obtain x k where "field_decl e nm f t fd = Some (x, k)" "event_keys k \<subseteq> event_keys l"
      using la by (auto simp: list_all2_conv_all_nth in_set_conv_nth)
    then show "event_keys k' \<subseteq> S" using field_decl_agrees [OF ag rec _ fd(2)] sub by blast
  qed
  ultimately show ?thesis using as(2) bs(2) by (auto intro: concat_transfer [THEN rel_funD])
qed

text \<open>The fields of the struct types in \<open>S\<close> were asked for by a walk \<open>h\<close> that \<open>S\<close> has the events of.\<close>

definition closed_under :: "go_env \<Rightarrow> (rtype \<Rightarrow> string) \<Rightarrow> (rtype \<Rightarrow> gexpr walk) \<Rightarrow> (rtype + string) set \<Rightarrow> bool" where
  "closed_under e nm h S \<longleftrightarrow> records_types e h \<and>
     (\<forall>u. Inl u \<in> S \<longrightarrow> is_struct_kind u \<longrightarrow> (\<exists>xs l. structFields e nm h u = Some (xs, l) \<and> event_keys l \<subseteq> S))"

lemma same_field_names: "list_all2 (same_field S) xs ys \<Longrightarrow> direct_names xs = direct_names ys"
  by (induction rule: list_all2_induct) (auto simp: direct_names_def same_field_def)

lemma inline_clash_agrees:
  assumes ag: "agrees S f g" "agrees S h g" and rec: "records_types e f" and cl: "closed_under e nm h S"
    and sf: "same_field S a b" and dn: "direct_names as = direct_names bs" and sub: "event_keys l \<subseteq> S"
    and f: "inline_clash e nm f as a = Some (xs, l)" and g: "inline_clash e nm' g bs b = Some (ys, l')"
  shows "event_keys l' \<subseteq> S"
proof (cases "clashes bs b \<and> \<not> gf_ptr b")
  case False
  then show ?thesis using g by (auto simp: inline_clash_def split: if_splits)
next
  case True
  then obtain u where u: "gf_embedded b = Some u" by (auto simp: clashes_def)
  then obtain zs where zs: "structFields e nm' g u = Some (zs, l')"
    using True g by (auto simp: inline_clash_def wmap1_Some)
  have same: "gf_embedded a = Some u" "gf_ptr a = gf_ptr b" using sf u by (auto simp: same_field_def)
  show ?thesis
  proof (cases "gf_goName a = gf_goName b")
    case eq: True
    then have "clashes as a" "\<not> gf_ptr a" using True same dn by (auto simp: clashes_def)
    then obtain ws where "structFields e nm f u = Some (ws, l)"
      using f same by (auto simp: inline_clash_def wmap1_Some)
    then show ?thesis using structFields_agrees [OF ag(1) rec _ zs] sub by blast
  next
    case False
    then have "is_struct_kind u" "Inl u \<in> S" using sf same by (auto simp: same_field_def)
    then obtain ws k where "structFields e nm h u = Some (ws, k)" "event_keys k \<subseteq> S" "records_types e h"
      using cl unfolding closed_under_def by blast
    then show ?thesis using structFields_agrees [OF ag(2) _ _ zs] by blast
  qed
qed

lemma structExpr_agrees:
  assumes ag: "agrees S f g" "agrees S h g" and rec: "records_types e f" and cl: "closed_under e nm h S"
    and sub: "event_keys l \<subseteq> S" and f: "structExpr e nm f t = Some (x, l)" and g: "structExpr e nm' g t = Some (y, l')"
  shows "event_keys l' \<subseteq> S"
proof -
  obtain as l1 xs l2 l3 gs where fa: "structFields e nm f t = Some (as, l1)" "wlist (map (inline_clash e nm f as) as) = Some (xs, l2)"
      "keep_first [] (concat xs) = Some (gs, l3)" "l = l1 @ l2 @ l3"
    using f unfolding structExpr_def walk_Some by blast
  obtain bs m1 ys m2 m3 hs where gb: "structFields e nm' g t = Some (bs, m1)" "wlist (map (inline_clash e nm' g bs) bs) = Some (ys, m2)"
      "keep_first [] (concat ys) = Some (hs, m3)" "l' = m1 @ m2 @ m3"
    using g unfolding structExpr_def walk_Some by blast
  have s: "event_keys l1 \<subseteq> S" "event_keys l2 \<subseteq> S" using sub fa(4) by auto
  note agree = structFields_agrees [OF ag(1) rec fa(1) gb(1) s(1)]
  then have dn: "direct_names as = direct_names bs" using same_field_names by auto
  have "event_keys m2 \<subseteq> S"
  proof (rule wlist_keys [OF gb(2)])
    fix z k'
    assume "Some (z, k') \<in> set (map (inline_clash e nm' g bs) bs)"
    then obtain i where i: "i < length bs" "inline_clash e nm' g bs (bs ! i) = Some (z, k')"
      by (auto simp: in_set_conv_nth)
    have ia: "i < length as" "same_field S (as ! i) (bs ! i)"
      using agree i(1) by (auto simp: list_all2_conv_all_nth)
    obtain w k where "inline_clash e nm f as (as ! i) = Some (w, k)" "event_keys k \<subseteq> event_keys l2"
      using wlist_Some [OF fa(2)] ia(1) by (auto simp: list_all2_conv_all_nth)
    then show "event_keys k' \<subseteq> S"
      using inline_clash_agrees [OF ag rec cl ia(2) dn _ _ i(2)] s(2) by blast
  qed
  then show ?thesis using agree gb(4) keep_first_keys [OF gb(3)] by auto
qed

lemma mapKeyExpr_agrees:
  "agrees S f g \<Longrightarrow> mapKeyExpr e f t = Some (x, l) \<Longrightarrow> mapKeyExpr e g t = Some (y, l') \<Longrightarrow> event_keys l \<subseteq> S \<Longrightarrow> event_keys l' \<subseteq> S"
  by (auto simp: mapKeyExpr_def dest: agreesD split: if_splits)

lemma underlying_agrees:
  assumes ag: "agrees S f g" "agrees S h g" and rec: "records_types e f" and cl: "closed_under e nm h S"
    and sub: "event_keys l \<subseteq> S" and f: "underlying_of e nm f t = Some (x, l)" and g: "underlying_of e nm' g t = Some (y, l')"
  shows "event_keys l' \<subseteq> S"
proof (cases t)
  case (RMap n a u)
  obtain k l1 v l2 where a: "mapKeyExpr e f a = Some (k, l1)" "f u = Some (v, l2)" "l = l1 @ l2"
    using f RMap by (auto simp: underlying_of_def walk_Some)
  obtain k' m1 v' m2 where b: "mapKeyExpr e g a = Some (k', m1)" "g u = Some (v', m2)" "l' = m1 @ m2"
    using g RMap by (auto simp: underlying_of_def walk_Some)
  have "event_keys m1 \<subseteq> S" using mapKeyExpr_agrees [OF ag(1) a(1) b(1)] sub a(3) by auto
  moreover have "event_keys m2 \<subseteq> S" using agreesD [OF ag(1) a(2) b(2)] sub a(3) by auto
  ultimately show ?thesis using b(3) by auto
next
  case (RStruct n)
  then show ?thesis using structExpr_agrees [OF ag rec cl sub] f g by (simp add: underlying_of_def)
next
  case (RNull i u)
  then show ?thesis using structExpr_agrees [OF ag rec cl sub] f g by (simp add: underlying_of_def)
qed (use f g sub in \<open>auto simp: underlying_of_def wmap1_Some dest: agreesD [OF ag(1)]\<close>)

lemma typeExpr_records: "records_types e (typeExpr e nm k)"
  by (cases k) (auto simp: records_types_def embed_expr_def declares_def split: if_splits go_shape.splits)

lemma typeExpr_agrees:
  assumes cl: "closed_under e nm (typeExpr e nm K) S"
  shows "k2 \<le> k1 \<Longrightarrow> k2 \<le> K \<Longrightarrow> agrees S (typeExpr e nm k1) (typeExpr e nm' k2)"
proof (induction k2 arbitrary: k1)
  case 0
  then show ?case by (simp add: agrees_def)
next
  case (Suc k2)
  then obtain j where j: "k1 = Suc j" "k2 \<le> j" by (cases k1) auto
  have ag: "agrees S (typeExpr e nm j) (typeExpr e nm' k2)" "agrees S (typeExpr e nm K) (typeExpr e nm' k2)"
    using Suc j by auto
  show ?case unfolding agrees_def
  proof (intro allI impI)
    fix t x l y l'
    assume f: "typeExpr e nm k1 t = Some (x, l)" and g: "typeExpr e nm' (Suc k2) t = Some (y, l')" and sub: "event_keys l \<subseteq> S"
    show "event_keys l' \<subseteq> S"
    proof (cases "type_shape e t")
      case (YPtr u)
      then obtain v w where "typeExpr e nm j u = Some (v, l)" "typeExpr e nm' k2 u = Some (w, l')"
        using f g j by (auto simp: wmap1_Some)
      then show ?thesis using agreesD [OF ag(1)] sub by blast
    next
      case YUnder
      then show ?thesis using f g j underlying_agrees [OF ag typeExpr_records cl sub] by simp
    next
      case (YImport p n)
      then show ?thesis using f g j sub by (auto dest!: import_walk_keys)
    qed (use f g j sub in \<open>auto simp: walk_Some dest!: leaf_walk_keys\<close>)
  qed
qed

section \<open>Enums are not structs\<close>

definition plain_structs :: "go_event \<Rightarrow> bool" where
  "plain_structs ev \<longleftrightarrow> (case ev of Found t i vs \<Rightarrow> is_struct_kind t \<longrightarrow> i = None | _ \<Rightarrow> True)"

lemma plain_structs_simps [simp]:
  "plain_structs (Found t i vs) \<longleftrightarrow> (is_struct_kind t \<longrightarrow> i = None)" "plain_structs (Uses p)" "plain_structs (Problem m)" "plain_structs (ImportProblem t m)" "plain_structs (RealName p n)"
  by (simp_all add: plain_structs_def)

definition plain_walk :: "'a walk \<Rightarrow> bool" where
  "plain_walk m \<longleftrightarrow> (case m of Some (x, l) \<Rightarrow> list_all plain_structs l | None \<Rightarrow> True)"

lemma plain_walkD: "plain_walk m \<Longrightarrow> m = Some (x, l) \<Longrightarrow> list_all plain_structs l"
  by (simp add: plain_walk_def)

lemma plain_walk_None [simp]: "plain_walk None"
  by (simp add: plain_walk_def)

lemma plain_walk_wret [simp]: "plain_walk (wret x)"
  by (simp add: plain_walk_def wret_def)

lemma plain_walk_wtell [simp]: "plain_walk (wtell l x) \<longleftrightarrow> list_all plain_structs l"
  by (simp add: plain_walk_def wtell_def)

lemma plain_walk_wmap1 [simp]: "plain_walk (wmap1 f m) \<longleftrightarrow> plain_walk m"
  by (auto simp: plain_walk_def wmap1_def split: option.splits)

lemma plain_walk_wbind [intro]: "plain_walk m \<Longrightarrow> (\<And>x. plain_walk (f x)) \<Longrightarrow> plain_walk (wbind m f)"
  unfolding plain_walk_def wbind_def by (fastforce split: option.splits)

lemma plain_walk_wlist [intro]: "(\<And>m. m \<in> set ms \<Longrightarrow> plain_walk m) \<Longrightarrow> plain_walk (wlist ms)"
  by (induction ms) (auto intro!: plain_walk_wbind)

lemma plain_walk_keep_first: "plain_walk (keep_first seen fs)"
  by (induction seen fs rule: keep_first.induct) (auto intro!: plain_walk_wbind)

lemma plain_walk_leaf: "plain_walk (leaf_walk x)"
  by (auto simp: leaf_walk_def split: gexpr.splits)

lemma plain_walk_enum_problems: "list_all plain_structs (enum_problems e t)"
  by (auto simp: enum_problems_def split: option.splits wire_shape.splits)

lemma plain_walk_import: "plain_walk (import_walk e k t p n)"
  by (auto simp: import_walk_def Let_def split: option.splits)

lemma plain_walk_fields:
  assumes "\<And>t. plain_walk (f t)"
  shows "plain_walk (structFields e nm f t)"
proof -
  have "plain_walk (plain_field e f t fd d)" for fd d
    using assms by (simp add: plain_field_def)
  moreover have "plain_walk (embed_expr f u)" for u
    using assms by (simp add: embed_expr_def)
  ultimately have "plain_walk (field_decl e nm f t fd)" for fd
    by (auto simp: field_decl_def Let_def intro!: plain_walk_wbind split: option.splits)
  then show ?thesis by (auto simp: structFields_def intro!: plain_walk_wlist)
qed

lemma plain_walk_underlying:
  assumes f: "\<And>t. plain_walk (f t)"
  shows "plain_walk (underlying_of e nm f t)"
proof -
  have "plain_walk (inline_clash e nm f every fd)" for every fd
    using plain_walk_fields [OF f] by (simp add: inline_clash_def)
  then have "plain_walk (structExpr e nm f u)" for u
    using plain_walk_fields [OF f] plain_walk_keep_first by (auto simp: structExpr_def intro!: plain_walk_wbind plain_walk_wlist)
  moreover have "plain_walk (mapKeyExpr e f u)" for u
    using f by (simp add: mapKeyExpr_def)
  ultimately show ?thesis
    using f by (auto simp: underlying_of_def intro!: plain_walk_wbind split: rtype.splits)
qed

lemma own_shape_enum: "own_shape e t = YNamed i vs \<Longrightarrow> i = None \<or> i = ge_enum (ye_gen e) t"
  by (auto simp: own_shape_def Let_def split: if_splits option.splits)

lemma named_shape_enum: "named_shape e t = YNamed i vs \<Longrightarrow> i = None \<or> i = ge_enum (ye_gen e) t"
  by (auto simp: named_shape_def Let_def dest: own_shape_enum split: if_splits option.splits)

lemma null_shape_enum: "null_shape t \<noteq> Some (YNamed i vs)"
  by (auto simp: null_shape_def split: option.splits)

lemma shape_enum:
  assumes "type_shape e t = YNamed i vs"
  shows "i = None \<or> i = ge_enum (ye_gen e) t"
proof (cases t)
  case (RPtr u)
  then show ?thesis using assms null_shape_enum [of u]
    by (cases "isSQLNullFlattened u"; cases "null_shape u") (auto simp: type_shape_def split: if_splits)
qed (use assms null_shape_enum named_shape_enum in \<open>auto simp: type_shape_def split: if_splits option.splits\<close>)

lemma plain_walk_typeExpr:
  assumes "\<forall>t. ge_enum (ye_gen e) t \<noteq> None \<longrightarrow> \<not> is_struct_kind t"
  shows "plain_walk (typeExpr e nm k t)"
proof (induction k arbitrary: t)
  case 0
  then show ?case by (simp add: plain_walk_def)
next
  case (Suc k)
  then show ?case
    using assms by (auto simp: plain_walk_leaf plain_walk_import plain_walk_enum_problems plain_walk_underlying
        intro!: plain_walk_wbind split: go_shape.splits dest!: shape_enum)
qed

section \<open>The types of the first pass\<close>

lemma add_found_append: "add_found (a @ b) order = add_found b (add_found a order)"
  by (induction a order rule: add_found.induct) auto

lemma add_found_extends: "\<exists>zs. add_found evs order = order @ zs"
proof (induction evs order rule: add_found.induct)
  case (2 t i vs evs order)
  then obtain zs where "add_found evs (if t \<in> fst ` set order then order else order @ [(t, i, vs)]) =
      (if t \<in> fst ` set order then order else order @ [(t, i, vs)]) @ zs" by blast
  then show ?case by simp
qed simp_all

lemma add_found_types: "fst ` set (add_found evs order) = fst ` set order \<union> set (found_of evs)"
proof (induction evs order rule: add_found.induct)
  case (2 t i vs evs order)
  then show ?case by (cases "t \<in> fst ` set order") (simp_all add: insert_absorb)
qed simp_all

lemma add_found_plain:
  "list_all plain_structs evs \<Longrightarrow> \<forall>(t, i, vs) \<in> set order. is_struct_kind t \<longrightarrow> i = None \<Longrightarrow>
   \<forall>(t, i, vs) \<in> set (add_found evs order). is_struct_kind t \<longrightarrow> i = None"
proof (induction evs order rule: add_found.induct)
  case (2 t i vs evs order)
  have "\<forall>(t, i, vs) \<in> set (if t \<in> fst ` set order then order else order @ [(t, i, vs)]). is_struct_kind t \<longrightarrow> i = None"
    using "2.prems" by auto
  then show ?case using "2.IH" "2.prems"(1) by simp
qed auto

text \<open>The rounds of the loop: the first \<open>i\<close> types of the list were walked.\<close>

definition walked :: "go_env \<Rightarrow> (rtype \<Rightarrow> string) \<Rightarrow> nat \<Rightarrow> nat \<Rightarrow> go_order \<Rightarrow> go_event list \<Rightarrow> bool" where
  "walked e nm k i order evs \<longleftrightarrow> order = add_found evs [] \<and> list_all plain_structs evs \<and>
     (\<forall>j < i. j < length order \<longrightarrow> (\<exists>x l. named_walk e nm k (order ! j) = Some (x, l) \<and> event_keys l \<subseteq> event_keys evs))"

lemma plain_walk_named:
  assumes "\<forall>t. ge_enum (ye_gen e) t \<noteq> None \<longrightarrow> \<not> is_struct_kind t"
  shows "plain_walk (named_walk e nm k x)"
  using plain_walk_underlying [OF plain_walk_typeExpr [OF assms]]
  by (auto simp: named_walk_def underlyingExpr_def split: prod.splits option.splits)

lemma walked_step:
  assumes enums: "\<forall>t. ge_enum (ye_gen e) t \<noteq> None \<longrightarrow> \<not> is_struct_kind t"
    and w: "walked e nm k i order evs" and i: "i < length order" and n: "named_walk e nm k (order ! i) = Some (x, l)"
  shows "walked e nm k (Suc i) (add_found l order) (evs @ l)"
proof -
  obtain zs where zs: "add_found l order = order @ zs" using add_found_extends by blast
  have "\<exists>x l'. named_walk e nm k ((order @ zs) ! j) = Some (x, l') \<and> event_keys l' \<subseteq> event_keys (evs @ l)" if j: "j < Suc i" for j
  proof (cases "j = i")
    case True
    then show ?thesis using n i by (simp add: nth_append)
  next
    case False
    then have "j < i" "j < length order" using j i by auto
    then have "\<exists>x l'. named_walk e nm k (order ! j) = Some (x, l') \<and> event_keys l' \<subseteq> event_keys evs"
      using w unfolding walked_def by blast
    then show ?thesis using \<open>j < length order\<close> by (auto simp: nth_append)
  qed
  moreover have "list_all plain_structs l" using plain_walkD [OF plain_walk_named [OF enums] n] .
  moreover have "order @ zs = add_found (evs @ l) []" using w zs by (simp add: walked_def add_found_append)
  ultimately show ?thesis using w unfolding walked_def zs by simp
qed

lemma drain_walked:
  assumes enums: "\<forall>t. ge_enum (ye_gen e) t \<noteq> None \<longrightarrow> \<not> is_struct_kind t"
  shows "drain e nm k n i order evs = Some (order', evs') \<Longrightarrow> walked e nm k i order evs \<Longrightarrow>
         walked e nm k (length order') order' evs' \<and> event_keys evs \<subseteq> event_keys evs'"
proof (induction n arbitrary: i order evs)
  case (Suc n)
  show ?case
  proof (cases "i < length order")
    case True
    then obtain x l where l: "named_walk e nm k (order ! i) = Some (x, l)"
        "drain e nm k n (Suc i) (add_found l order) (evs @ l) = Some (order', evs')"
      using Suc.prems(1) by (auto split: option.splits)
    show ?thesis using Suc.IH [OF l(2) walked_step [OF enums Suc.prems(2) True l(1)]] by simp
  next
    case False
    then have same: "order' = order" "evs' = evs" using Suc.prems(1) by auto
    then show ?thesis using False Suc.prems(2) unfolding walked_def by auto
  qed
qed simp

lemma first_pass_walked:
  assumes enums: "\<forall>t. ge_enum (ye_gen e) t \<noteq> None \<longrightarrow> \<not> is_struct_kind t" and f: "first_pass e k n r = Some (order, evs)"
  obtains nm xs l where "wlist (map (typeExpr e nm k) (body_roots r)) = Some (xs, l)" "event_keys l \<subseteq> event_keys evs"
    "walked e nm k (length order) order evs"
proof -
  let ?nm = "\<lambda>t. goTypeNameCandidate t 0"
  obtain xs l where xs: "wlist (map (typeExpr e ?nm k) (body_roots r)) = Some (xs, l)"
      "drain e ?nm k n 0 (add_found l []) l = Some (order, evs)"
    using f by (auto simp: first_pass_def Let_def split: option.splits)
  have "plain_walk (wlist (map (typeExpr e ?nm k) (body_roots r)))"
    using plain_walk_typeExpr [OF enums] by (intro plain_walk_wlist) auto
  then have "list_all plain_structs l" using xs(1) by (rule plain_walkD)
  then have "walked e ?nm k 0 (add_found l []) l" by (simp add: walked_def)
  from drain_walked [OF enums xs(2) this] that [OF xs(1)] show thesis by blast
qed

lemma walked_closed:
  assumes "walked e nm k (length order) order evs"
  shows "closed_under e nm (typeExpr e nm k) (event_keys evs)"
  unfolding closed_under_def
proof (intro conjI allI impI)
  fix u
  assume u: "Inl u \<in> event_keys evs" "is_struct_kind u"
  then have "u \<in> fst ` set order"
    using assms add_found_types [of evs "[]"] by (auto simp: event_keys_def walked_def)
  then obtain i vs where x: "(u, i, vs) \<in> set order" by auto
  have "i = None"
    using add_found_plain [of evs "[]"] assms x u(2) by (auto simp: walked_def)
  moreover obtain y l where y: "named_walk e nm k (u, i, vs) = Some (y, l)" "event_keys l \<subseteq> event_keys evs"
    using assms x by (auto simp: walked_def in_set_conv_nth)
  ultimately have "structExpr e nm (typeExpr e nm k) u = Some (y, l)"
    using u(2) by (auto simp: named_walk_def underlyingExpr_def underlying_of_def is_struct_kind_def split: rtype.splits)
  then obtain xs l1 l2 where "structFields e nm (typeExpr e nm k) u = Some (xs, l1)" "l = l1 @ l2"
    unfolding structExpr_def walk_Some by blast
  then show "\<exists>xs l. structFields e nm (typeExpr e nm k) u = Some (xs, l) \<and> event_keys l \<subseteq> event_keys evs"
    using y(2) by auto
qed (rule typeExpr_records)

lemma event_keys_subset: "event_keys a \<subseteq> event_keys b \<longleftrightarrow> set (found_of a) \<subseteq> set (found_of b) \<and> set (uses_of a) \<subseteq> set (uses_of b)"
  by (auto simp: event_keys_def)


section \<open>An instance\<close>

text \<open>
  A method with an enum, a struct that embeds a \<open>Note\<close> of another package next to a field of that name, and a \<open>Note\<close> of its own
  package: the embedded struct is expanded in the first pass, where both types are called \<open>Note\<close>, and embedded in
  the second, where it is called \<open>OtherNote\<close>.
\<close>

definition note_field :: "string \<Rightarrow> bool \<Rightarrow> rtype \<Rightarrow> rfield" where
  "note_field n a t = \<lparr>rf_name = n, rf_exported = True, rf_anonymous = a, rf_json = [], rf_validate = [], rf_type = t\<rparr>"

definition note_env :: go_env where
  "note_env =
     \<lparr>ye_gen = (plain_env (\<lambda>n.
        if n = (''m/api'', ''Item'')
        then [note_field ''Note'' True (RStruct (''m/other'', ''Note'')), note_field ''Note'' False (RString ([], ''string''))]
        else if n = (''m/other'', ''Note'') then [note_field ''At'' False (RStruct (''time'', ''Time''))]
        else [])) \<lparr>ge_enum := (\<lambda>t. if t = RString (''m/api'', ''State'') then Some state_info else None)\<rparr>,
      ye_stdlib = (\<lambda>p. p \<in> {''time'', ''context''}), ye_importTypes = [], ye_string = TypeName, ye_marshaled = (\<lambda>t i. (None, None)),
      ye_doc = (\<lambda>t f. [])\<rparr>"

definition note_handler :: "string \<Rightarrow> (rtype \<times> bool) list \<Rightarrow> rtype \<Rightarrow> go_handler" where
  "note_handler n ps t = \<lparr>gh_Name = n, gh_Kind = HandlerKindUnary, gh_Void = False, gh_Params = ps, gh_Out = RPtr t, gh_Key = None\<rparr>"

definition note_registry :: go_registry where
  "note_registry =
     \<lparr>gy_Groups = [\<lparr>gr_Name = ''Notes'', gr_socket = True,
        gr_Handlers = [note_handler ''GetItem'' [(RString (''m/api'', ''State''), False)] (RStruct (''m/api'', ''Item'')), note_handler ''GetNote'' [] (RStruct (''m/api'', ''Note''))],
        gr_Events = [], gr_Enums = []\<rparr>], gy_SharedEnums = [], gy_ErrorCodes = [(''NotFound'', 404)]\<rparr>"

definition note_order :: go_order where
  "note_order = map (\<lambda>(t, i). (t, i, None)) note_types"

lemma note_first_pass:
  "map_option (map_prod id uses_of) (first_pass note_env 9 9 note_registry) = Some (note_order, [''time''])"
  by code_simp

lemma note_second_pass:
  "map_option snd (second_pass note_env (name_in note_names) 9 note_registry note_order) =
     Some [Found (RString (''m/api'', ''State'')) (Some state_info) None, Found (RStruct (''m/api'', ''Item'')) None None,
           Found (RStruct (''m/api'', ''Note'')) None None,
           Found (RStruct (''m/other'', ''Note'')) None None, Uses ''time'']"
  unfolding name_in_def [abs_def] note_gn_types by code_simp


end
