(* ===== verification/Spec2Isabelle.thy ===== *)
theory Spec2Isabelle
  imports Aprot_Dispatch Aprot_Transport Aprot_Tasks Aprot_ClientCalls Aprot_Http Aprot_ClientFiles Aprot_OpenApi Aprot_Mcp Aprot_GoClient
begin

text \<open>
  A verification development of aprot, a Go library for typed RPC between Go servers and
  TypeScript or Go clients.

  \<^bold>\<open>The program.\<close> A server registers handler structs (\<open>handler.go\<close>). Clients reach their methods over a
  connection, a WebSocket or a stream of lines (\<open>transport_ws.go\<close>, \<open>transport_stream.go\<close>), over REST (\<open>rest.go\<close>)
  or as MCP tools (\<open>mcp/mcp.go\<close>). A connection (\<open>connection.go\<close>) authenticates, runs each request in a goroutine
  and answers with frames (\<open>protocol.go\<close>). Results of handlers can be subscribed to: the subscription manager
  (\<open>subscription.go\<close>) knows the keys each subscription depends on and re-executes it when one is triggered. Shared
  tasks (\<open>tasks/\<close>) run on the server and are cancelled by their owners. The Go client (\<open>client/\<close>) matches frames
  to calls, streams and subscriptions and reconnects. The generators write a TypeScript client, Zod schemas, a Go
  client and an OpenAPI document from the registered types.

  \<^bold>\<open>The theories\<close>, in the order of their imports. Definitions have the names of the source.

  \<^item> \<open>Aprot_Prelude\<close>: Go maps as association lists, counters as words, event logs, and runs of step relations;
    the locale of indexes with several members per key, and the locale of transition systems with an invariant, which
    every step relation below instantiates or follows.
  \<^item> \<open>Aprot_Subscriptions\<close> (\<open>subscription.go\<close>): the two indexes by key and by connection, trigger keys, the
    refresh queue. The subscriptions are objects in a store, since both indexes share them. Lemmas: the invariant of
    the indexes under all operations, refinement of a finite map, each triggered subscription refreshed once.
  \<^item> \<open>Aprot_Protocol\<close> (\<open>errors.go\<close>, \<open>protocol.go\<close>): errors with wrapping and identity, and what is sent for a
    result or an error. An open connection always gets an answer.
  \<^item> \<open>Aprot_Connection\<close> (\<open>connection.go\<close>): the in-flight requests with their registration tokens, the request
    slots, the gate before authentication, and the dispatch of a frame, as steps that interleave.
  \<^item> \<open>Aprot_Server\<close> (\<open>server.go\<close>): options, the connection set, the index of users, shutdown, middleware.
  \<^item> \<open>Aprot_Streaming\<close>, \<open>Aprot_Dispatch\<close> (\<open>connection.go\<close>, \<open>stream_chunk.go\<close>): one execution of a request, a
    stream, a subscribe or a refresh, from its start to its last frame.
  \<^item> \<open>Aprot_Transport\<close>: outbound queues, write pumps and the two framings in bytes.
  \<^item> \<open>Aprot_Tasks\<close> (\<open>tasks/task_tree.go\<close>, \<open>tasks/shared_task.go\<close>): nodes, trees, the manager.
  \<^item> \<open>Aprot_Transform\<close>, \<open>Aprot_Registry\<close> (\<open>transform.go\<close>, \<open>validate.go\<close>, \<open>handler.go\<close>): struct tags, the
    registry under each registration mode, and the arguments of a reflective call.
  \<^item> \<open>Aprot_Http\<close> (\<open>naming.go\<close>, \<open>rest.go\<close>, \<open>cors.go\<close>, \<open>origin.go\<close>): names of routes, REST, CORS.
  \<^item> \<open>Aprot_Reconnect\<close>, \<open>Aprot_Client\<close>, \<open>Aprot_ClientCalls\<close>, \<open>Aprot_ClientSubs\<close> (\<open>client/\<close>): the schedule of
    reconnects, the tables of the client with every section under its lock as one step, and what holds of calls,
    streams and subscriptions in every interleaving.
  \<^item> \<open>Aprot_GoTypes\<close>, \<open>Aprot_Zod\<close>, \<open>Aprot_Generate\<close>, \<open>Aprot_ClientFiles\<close> (\<open>generate.go\<close>, \<open>zod.go\<close>): the
    TypeScript of a Go type, schemas and their order, which types a group uses, and the files with their imports.
  \<^item> \<open>Aprot_Schema\<close>, \<open>Aprot_OpenApi\<close>, \<open>Aprot_Mcp\<close> (\<open>schema.go\<close>, \<open>openapi.go\<close>, \<open>mcp_registry.go\<close>, \<open>mcp/mcp.go\<close>):
    JSON schemas, the OpenAPI document compared with the routes of the REST adapter, and tools compared with the
    binding of their arguments.
  \<^item> \<open>Aprot_GoNames\<close>, \<open>Aprot_GoClient\<close> (\<open>generate_go.go\<close>): the identifiers of the Go client, its type expressions
    and the two passes of the generator.
  \<^item> this theory: a call and a stream from the handler's result to the caller, through the frames of the server
    and the tables of the client.

  \<^bold>\<open>Conventions.\<close> A struct is a record, an enum or an interface with few implementations a datatype. A Go map is an
  association list with distinct keys; what depends on the order of iteration is stated for every order. Counters and
  durations are words and wrap. An error return, a panic and a refusal are values of a sum or an option. Concurrency
  is a step relation whose steps are the sections under a lock (or single channel operations), so a theorem about
  reachable states covers every interleaving of those. Code the sources only call is a parameter: the JSON encoder
  and decoder, the validator, the router and server of HTTP, the user's handlers, middleware and hooks,
  \<open>strconv.Quote\<close>, and what \<open>reflect\<close> and \<open>go/ast\<close> say of a user's types. Identifiers in the generators are ASCII.

  \<^bold>\<open>Bounds.\<close> Recursive Go types are named, so a walk over types is not structural; it carries a bound and \<open>None\<close> is a
  walk that exceeds it. \<open>tag_check_terminates\<close>: the number of struct types plus one is enough for the check of tags.
  \<open>collect_ends\<close> and \<open>group_collection_ends\<close> do the same for the types of a handler group, \<open>schema_ends\<close> and
  \<open>openapi_generate_ends\<close> for schemas. The order of Zod schemas takes as many rounds as there are schemas plus one. The
  walks of the Go client carry a bound without such a theorem: an unnamed recursive type does not exist in Go, and
  what is proved of them relates two walks that both end.

  \<^bold>\<open>What the theorems show\<close>, by kind. Invariants: the subscription indexes, the request table, the user index, the
  client's slots and the task tree in every reachable state. Safety: nothing runs before authentication, every call is
  settled once, no subscription is forgotten over reconnects, generated files declare each name once, before its use.
  Equivalence and refinement: subscriptions and a finite map, chunked and unchunked streams, REST and socket calls, the
  OpenAPI document and the routes, an input schema and the binding of arguments. Functional: what each request, stream
  and refresh answers on every branch. Bounds, termination and liveness: request slots, tag checks, the event loop.
  Error behaviour: defects of the code, stated as what it does (\<open>variadic_structs_unchecked\<close> and others).

  \<^bold>\<open>Not modelled.\<close>

  \<^item> Sockets, timers, file output, logging and metrics (\<open>observer.go\<close>), progress callbacks: they are events or
    outcomes that the steps are quantified over.
  \<^item> Context values and their accessors (\<open>context.go\<close>, \<open>principal.go\<close>, \<open>address.go\<close>, \<open>detached.go\<close>): each is a
    read of a value set once.
  \<^item> The text templates of the TypeScript client and the TypeScript runtime itself; the text of methods and
    declarations in the Go client; comments and parameter names read from Go source (\<open>docs.go\<close>).
  \<^item> The marshal functions of \<open>sql.Null\<close> types (\<open>sql_null.go\<close>), which configure \<open>encoding/json/v2\<close>.
  \<^item> Of the tasks: broadcast of snapshots, delivery to the connections of a request, and \<open>io.Writer\<close> adapters.
  \<^item> The memory model: a step that Go executes under a lock is atomic here, and no data race is considered.
\<close>

section \<open>From the handler to the caller\<close>

text \<open>The frame of a result that encodes, and what the client's caller receives for it.\<close>

definition reply_frame :: "bool \<Rightarrow> string \<Rightarrow> 'v result \<Rightarrow> 'v frame" where
  "reply_frame bin i r =
     (case asBlob r of
        Some b \<Rightarrow> (if bin then BinaryResponse i b else ResponseMessage i (BlobEnvelope b))
      | None \<Rightarrow> ResponseMessage i (result_payload r))"

definition reply_value :: "bool \<Rightarrow> 'v result \<Rightarrow> 'v delivery" where
  "reply_value bin r =
     (case asBlob r of
        Some b \<Rightarrow> (if bin then Bin b else Raw (BlobEnvelope b))
      | None \<Rightarrow> Raw (result_payload r))"

text \<open>The call \<open>i\<close>, and no other, was settled by \<open>r\<close>.\<close>

definition received :: "string \<Rightarrow> 'v call_result \<Rightarrow> 'v client \<Rightarrow> 'v client \<Rightarrow> bool" where
  "received i r cl cl' \<longleftrightarrow> cl_results cl' = cl_results cl @ [(i, r)] \<and> cl_returned cl' = cl_returned cl \<and>
     (\<forall>j. pending j cl' = (j \<noteq> i \<and> pending j cl))"

lemma received_reply:
  "pending i cl \<Longrightarrow> received i (CResult (reply_value bin v)) cl (handleFrame ce c (reply_frame bin i v) cl)"
  by (auto simp: received_def reply_frame_def reply_value_def deliverResult_def send_result_def pending_def
      split: option.split)

lemma received_error:
  "pending i cl \<Longrightarrow> i \<noteq> [] \<Longrightarrow>
     received i (CError (EApi code m d)) cl (handleFrame ce c (ErrorMessage i code m d) cl)"
  by (auto simp: received_def handleError_def send_result_def pending_def)

lemma sendResponse_reply:
  "sendResponse w bin False i v =
     (case marshalJSON w (reply_frame bin i v) of
        None \<Rightarrow> [reply_frame bin i v]
      | Some err \<Rightarrow> sendError w False i CodeInternalError
          ((if asBlob v \<noteq> None \<and> bin then encodeBinaryFailed else encodeFailed) @ err))"
  by (cases "asBlob v"; cases bin)
    (simp_all add: sendResponse_def sendBlobResponse_def reply_frame_def Let_def del: marshalJSON.simps split: option.split)

text \<open>Error frames only: the shape of every answer but a result.\<close>

definition error_only :: "string \<Rightarrow> int \<Rightarrow> 'v frame list \<Rightarrow> bool" where
  "error_only i code fs \<longleftrightarrow> (\<exists>m d. fs = [ErrorMessage i code m d])"

lemma error_only_sendError: "utf8_valid i \<Longrightarrow> utf8_valid m \<Longrightarrow> error_only i code (sendError w False i code m)"
  by (simp add: error_only_def sendError_open)

lemma error_only_sendErrorFor:
  assumes "utf8_valid i" "utf8_valid (client_text err)" "sendErrorFor w mp False i err = (fs, code)"
  shows "error_only i code fs"
  using sendErrorFor_open [OF assms(1,2), of w mp] sendErrorFor_code [of w mp False i err] assms(3)
  by (auto simp: error_only_def)

lemma sendResponse_fails:
  assumes "wire_ok w" "utf8_valid i" "marshalJSON w (reply_frame bin i v) \<noteq> None"
  shows "error_only i CodeInternalError (sendResponse w bin False i v)"
proof -
  obtain err where m: "marshalJSON w (reply_frame bin i v) = Some err" using assms(3) by auto
  have "\<exists>p b. reply_frame bin i v = ResponseMessage i p \<or> reply_frame bin i v = BinaryResponse i b"
    by (auto simp: reply_frame_def split: option.split)
  then have "utf8_valid err" using response_err_valid [OF assms(1,2) m] by blast
  with m sendResponse_error [OF assms(2), of err w] show ?thesis
    by (simp add: sendResponse_reply error_only_def)
qed

lemma principal_stage_error_only:
  assumes "exec_ok e i x" "principal_stage e x i = Some (fs, code)"
  shows "error_only i code fs"
  using assms error_only_sendErrorFor [of i]
  by (auto simp: principal_stage_def exec_ok_def backstop_def canceled_frame_def error_only_sendError utf8_fixed_texts
      split: option.splits outcome.splits if_splits)

text \<open>The frames of a unary request, in the two cases.\<close>

definition succeeds :: "'v dispatch_env \<Rightarrow> string \<Rightarrow> 'v exec \<Rightarrow> 'v result \<Rightarrow> bool" where
  "succeeds e i x v \<longleftrightarrow> principal_stage e x i = None \<and> fst (x_call x) = Returned v \<and> \<not> x_canceled x \<and>
     marshalJSON (de_wire e) (reply_frame (x_binary x) i v) = None"

lemma unary_success:
  assumes "exec_ok e i x" "succeeds e i x v"
  shows "fst (handleRequest e HandlerKindUnary i x) = [reply_frame (x_binary x) i v]"
  using assms call_stage_unary [of e x i] sendResponse_reply [of "de_wire e" "x_binary x" i v]
  by (auto simp: succeeds_def exec_ok_def handleRequest_def split: prod.splits)

lemma unary_failure:
  assumes ok: "exec_ok e i x" and no: "\<And>v. \<not> succeeds e i x v"
    and h: "handleRequest e HandlerKindUnary i x = (fs, code, fl)"
  shows "error_only i code fs \<or> error_only i CodeInternalError fs \<and> code = 0"
proof (cases "principal_stage e x i")
  case (Some p)
  then obtain fs' c where p: "principal_stage e x i = Some (fs', c)" by (cases p) simp
  with h principal_stage_error_only [OF ok p] show ?thesis by (simp add: handleRequest_def)
next
  case None
  obtain r q where c: "call_stage HandlerKindUnary x = (r, q)" by fastforce
  have v: "fst (x_call x) = Returned v" if "r = Invoked v" for v
    using c that call_stage_unary [OF None] by (auto split: prod.splits outcome.splits)
  have t: "utf8_valid (client_text err)" if "r = InvokeError err" for err
    using c that unary_error_text [OF ok None] by blast
  have x0: "wire_ok (de_wire e)" "utf8_valid i" "x_closed x = False" using ok by (simp_all add: exec_ok_def)
  consider (panic) "r = Repanic" | (cancel) "r \<noteq> Repanic" "x_canceled x"
    | (error) err where "r = InvokeError err" "\<not> x_canceled x" | (ret) v where "r = Invoked v" "\<not> x_canceled x"
    by (cases r) auto
  then show ?thesis
  proof cases
    case panic
    with h None c x0 show ?thesis
      by (auto simp: handleRequest_def backstop_def intro!: error_only_sendError utf8_fixed_texts)
  next
    case cancel
    with h None c x0 show ?thesis
      by (auto simp: handleRequest_def canceled_frame_def intro!: error_only_sendError utf8_fixed_texts)
  next
    case error
    with h None c x0 error_only_sendErrorFor [OF x0(2) t [OF error(1)]] show ?thesis
      by (auto simp: handleRequest_def split: prod.splits)
  next
    case (ret v')
    with no [of v'] v None have "marshalJSON (de_wire e) (reply_frame (x_binary x) i v') \<noteq> None"
      by (simp add: succeeds_def)
    with h None c x0 ret sendResponse_fails [OF x0(1,2)] show ?thesis by (auto simp: handleRequest_def)
  qed
qed


definition call_client :: "int client" where
  "call_client = new_client\<lparr>cl_conn := Some 0, cl_nextID := 2, cl_pending := [(''1'', False), (''2'', True)]\<rparr>"

definition call_env :: "int client_env" where
  "call_env = \<lparr>ce_hasToken = False, ce_retryRejected = False, ce_noReconnect = False,
     ce_decode = (\<lambda>_ _. Inl ''no decoder''), ce_apply = (\<lambda>_ _ _. Inl ''no patches''), ce_tooLarge = (\<lambda>_. False)\<rparr>"


section \<open>From the iterator to the consumer of a stream\<close>

definition open_stream :: "string \<Rightarrow> 'v client \<Rightarrow> bool" where
  "open_stream i cl \<longleftrightarrow> i \<in> set (cl_streams cl) \<and> \<not> serverDone (cl_stream cl i) \<and> \<not> stopped (cl_stream cl i) \<and>
     rs_err (cl_stream cl i) = None"

lemma rs_push_open:
  "\<not> serverDone s \<Longrightarrow> \<not> stopped s \<Longrightarrow> fold rs_push vs s = s\<lparr>rs_items := rs_items s @ vs\<rparr>"
  by (induction vs arbitrary: s) (simp_all add: rs_push_def)

text \<open>What a run of item frames does to the client: only the stream's buffer grows.\<close>

lemma item_frames_received:
  assumes "\<forall>f\<in>set fs. (\<exists>v. f = StreamItemMessage i v) \<or> (\<exists>vs. f = StreamChunkMessage i vs)" and "open_stream i cl"
  shows "fold (handleFrame ce c) fs cl = upd_stream i (\<lambda>s. s\<lparr>rs_items := rs_items s @ delivered fs\<rparr>) cl"
  using assms
proof (induction fs arbitrary: cl)
  case Nil
  then show ?case by (simp add: upd_stream_def)
next
  case (Cons f fs)
  have step: "handleFrame ce c f cl = upd_stream i (\<lambda>s. s\<lparr>rs_items := rs_items s @ frame_items f\<rparr>) cl"
    using Cons.prems rs_push_open [of "cl_stream cl i"]
    by (auto simp: open_stream_def upd_stream_def rs_push_def)
  have "open_stream i (handleFrame ce c f cl)" using Cons.prems(2) by (simp add: step open_stream_def)
  with Cons step show ?case by (simp add: upd_stream_def delivered_def)
qed

text \<open>
  Property C5. A stream, from the handler's iterator to the consumer: when nothing cuts the stream short, the
  frames the server sends, chunked or not, leave in the client's stream buffer exactly the yielded
  items in order, behind what was there; the stream is complete without an error and is no longer
  in the client's table, and no call is touched.
\<close>

theorem stream_end_to_end:
  assumes "undisturbed e evs" and "streamIterator e mp (Some evs) False False = (fs, hook, err)"
    and "open_stream (se_id e) cl"
  shows "rs_items (cl_stream (fold (handleFrame ce c) fs cl) (se_id e)) = rs_items (cl_stream cl (se_id e)) @ yielded evs \<and>
    serverDone (cl_stream (fold (handleFrame ce c) fs cl) (se_id e)) \<and>
    rs_err (cl_stream (fold (handleFrame ce c) fs cl) (se_id e)) = None \<and>
    cl_streams (fold (handleFrame ce c) fs cl) = removeAll (se_id e) (cl_streams cl) \<and>
    call_part (fold (handleFrame ce c) fs cl) = call_part cl"
proof -
  let ?st = "stream_flush e False (stream_events e evs)" and ?i = "se_id e"
  have u: "delivered (sent (st_sink ?st)) = yielded evs" "end_error ?st = None"
    using undisturbed_flush [OF assms(1)] by (simp_all add: end_error_def)
  obtain m d where fs: "fs = sent (st_sink ?st) @ [StreamEndMessage ?i 0 m d]"
    using assms(1,2) sendStreamEnd_last [of ?i None "se_wire e" mp] u(2)
    by (auto simp: streamIterator_def Let_def undisturbed_def)
  have it: "fold (handleFrame ce c) (sent (st_sink ?st)) cl = upd_stream ?i (\<lambda>s. s\<lparr>rs_items := rs_items s @ yielded evs\<rparr>) cl"
    using item_frames_received [OF stream_flush_item_frames [OF stream_events_item_frames, unfolded item_frames_def] assms(3)]
    by (simp only: u(1))
  show ?thesis using assms(3) unfolding fs
    by (simp add: it open_stream_def rs_end_def call_part_def upd_stream_def)
qed

theorem stream_end_to_end_witness:
  "rs_items (cl_stream (fold (handleFrame call_env 0)
      (fst (streamIterator env3 [] (Some [Yield 1, Timer, Yield 2, Yield 3]) False False))
      (call_client\<lparr>cl_streams := [''9'']\<rparr>)) ''9'') = [1, 2, 3]"
proof -
  have u: "undisturbed env3 [Yield 1, Timer, Yield 2, Yield 3]"
    by (simp add: undisturbed_def env3_def example_wire_def utf8_valid_ascii_Cons byte_def)
  have id: "se_id env3 = ''9''" by (simp add: env3_def)
  have o: "open_stream (se_id env3) (call_client\<lparr>cl_streams := [''9'']\<rparr>)"
    by (simp add: id open_stream_def call_client_def new_client_def new_rawStream_def)
  obtain fs hook err where r: "streamIterator env3 [] (Some [Yield 1, Timer, Yield 2, Yield 3]) False False = (fs, hook, err)"
    by (metis surj_pair)
  from stream_end_to_end [OF u r o, of call_env 0] show ?thesis
    unfolding r id by (simp add: call_client_def new_client_def new_rawStream_def)
qed

end
